(* ===== verification/Prelude.thy ===== *)
theory Prelude
  imports Main "HOL-Library.Word" "HOL-Library.Finite_Map"
begin

unbundle bit_operations_syntax

section \<open>Prelude: machine types, outcomes and shared facts\<close>

text \<open>
  What every component of the development uses: the integer types of
  \<^verbatim>\<open>include/lob/common.hpp\<close> and of the C++ standard library at their width, the side of an
  order, the three ways a C++ call can end (it returns, it throws
  \<^verbatim>\<open>std::bad_alloc\<close>, or its behaviour is undefined), the few functions of
  \<^verbatim>\<open><bit>\<close> the sources call, and generic facts about lists, words and finite maps.
\<close>

named_theorems outcome_simps "rules that push a specification through an outcome"
named_theorems byte_simps "arithmetic of bytes and of the words built from them"

subsection \<open>The integer types\<close>

type_synonym u8 = "8 word"
type_synonym u16 = "16 word"
type_synonym u32 = "32 word"
type_synonym u64 = "64 word"
type_synonym size_t = "64 word"

type_synonym price = "32 word"
type_synonym quantity = "32 word"
type_synonym order_id = "64 word"
type_synonym match_id = "64 word"
type_synonym stock_locate = "16 word"
type_synonym timestamp_ns = "64 word"

subsection \<open>The side of an order\<close>

datatype side = Buy | Sell

definition opposite :: "side \<Rightarrow> side" where
  "opposite s = (if s = Buy then Sell else Buy)"

definition side_index :: "side \<Rightarrow> nat" where
  "side_index s = (if s = Buy then 0 else 1)"

lemma opposite_simps [simp]: "opposite Buy = Sell" "opposite Sell = Buy"
  by (simp_all add: opposite_def)

lemma opposite_opposite [simp]: "opposite (opposite s) = s"
  by (cases s) simp_all

lemma side_index_simps [simp]: "side_index Buy = 0" "side_index Sell = Suc 0"
  by (simp_all add: side_index_def)

lemma side_index_eq_iff [simp]: "side_index s = side_index t \<longleftrightarrow> s = t"
  by (cases s; cases t) simp_all

instantiation side :: enum
begin

definition enum_side :: "side list" where
  "enum_side = [Buy, Sell]"

definition enum_all_side :: "(side \<Rightarrow> bool) \<Rightarrow> bool" where
  "enum_all_side P \<longleftrightarrow> P Buy \<and> P Sell"

definition enum_ex_side :: "(side \<Rightarrow> bool) \<Rightarrow> bool" where
  "enum_ex_side P \<longleftrightarrow> P Buy \<or> P Sell"

instance
proof
  show "(UNIV :: side set) = set enum_class.enum"
    by (auto simp: enum_side_def intro: side.exhaust)
  show "distinct (enum_class.enum :: side list)"
    by (simp add: enum_side_def)
  show "enum_class.enum_all P \<longleftrightarrow> Ball UNIV P" for P :: "side \<Rightarrow> bool"
    by (metis (full_types) UNIV_I enum_all_side_def side.exhaust)
  show "enum_class.enum_ex P \<longleftrightarrow> Bex UNIV P" for P :: "side \<Rightarrow> bool"
    by (metis (full_types) UNIV_I enum_ex_side_def side.exhaust)
qed

end

lemma all_side: "(\<forall>s. P s) \<longleftrightarrow> P Buy \<and> P Sell"
  by (metis (full_types) side.exhaust)

subsection \<open>How a call can end\<close>

text \<open>
  A call that may allocate runs with a budget: the number of further requests for memory that are
  granted before one throws \<^verbatim>\<open>std::bad_alloc\<close>. The first failure leaves the call, so a
  budget per call covers every position at which the allocator can fail. An insertion into a hash map
  asks for a node and, when it has to rehash, for a bucket array. Whether it has to is the library's
  choice, so the model always asks for both, and an insertion that does not rehash uses the second
  grant up for nothing: a call of the program that fails at any of its requests is the call of the
  model with the budget that ends at that request, and a budget that suffices in the model suffices. \<open>Done r s k\<close> is a normal
  return of \<open>r\<close> in state \<open>s\<close> with \<open>k\<close> left, \<open>Thrown s\<close> the exception
  propagating with the state as the call left it, and \<open>Undefined\<close> a null or dangling pointer
  dereference.
\<close>

datatype ('s, 'a) outcome = Done 'a 's nat | Thrown 's | Undefined

fun bind_outcome ::
  "('s, 'a) outcome \<Rightarrow> ('a \<Rightarrow> 's \<Rightarrow> nat \<Rightarrow> ('s, 'b) outcome) \<Rightarrow> ('s, 'b) outcome" where
  "bind_outcome (Done r s k) f = f r s k"
| "bind_outcome (Thrown s) f = Thrown s"
| "bind_outcome Undefined f = Undefined"

fun allocate :: "'s \<Rightarrow> nat \<Rightarrow> ('s, unit) outcome" where
  "allocate s 0 = Thrown s"
| "allocate s (Suc k) = Done () s k"

text \<open>A step on a part of the state, lifted to the whole.\<close>

fun lift_outcome :: "('t \<Rightarrow> 's) \<Rightarrow> ('t, 'a) outcome \<Rightarrow> ('s, 'a) outcome" where
  "lift_outcome put (Done r t k) = Done r (put t) k"
| "lift_outcome put (Thrown t) = Thrown (put t)"
| "lift_outcome put Undefined = Undefined"

text \<open>
  The contract of a call: \<open>Q\<close> on a normal return, \<open>E\<close> on the exception, and never
  undefined behaviour.
\<close>

fun outcome_sat ::
  "('a \<Rightarrow> 's \<Rightarrow> nat \<Rightarrow> bool) \<Rightarrow> ('s \<Rightarrow> bool) \<Rightarrow> ('s, 'a) outcome \<Rightarrow> bool" where
  "outcome_sat Q E (Done r s k) \<longleftrightarrow> Q r s k"
| "outcome_sat Q E (Thrown s) \<longleftrightarrow> E s"
| "outcome_sat Q E Undefined \<longleftrightarrow> False"

lemma outcome_sat_bind [outcome_simps]:
  "outcome_sat Q E (bind_outcome m f) \<longleftrightarrow>
     outcome_sat (\<lambda>r s k. outcome_sat Q E (f r s k)) E m"
  by (cases m) simp_all

lemma outcome_sat_lift [outcome_simps]:
  "outcome_sat Q E (lift_outcome put m) \<longleftrightarrow>
     outcome_sat (\<lambda>r t k. Q r (put t) k) (\<lambda>t. E (put t)) m"
  by (cases m) simp_all

lemma outcome_sat_allocate [outcome_simps]:
  "outcome_sat Q E (allocate s k) \<longleftrightarrow> (k = 0 \<longrightarrow> E s) \<and> (\<forall>j. k = Suc j \<longrightarrow> Q () s j)"
  by (cases k) simp_all

text \<open>The parts of a call that returned normally did so.\<close>

lemma outcome_Done:
  "bind_outcome m f = Done v s k \<longleftrightarrow> (\<exists>u t j. m = Done u t j \<and> f u t j = Done v s k)"
  "lift_outcome put n = Done v s k \<longleftrightarrow> (\<exists>t. n = Done v t k \<and> put t = s)"
  "allocate s0 j = Done w s k \<longleftrightarrow> s = s0 \<and> j = Suc k"
  by (cases m; cases n; cases j; auto)+

lemma outcome_sat_if [outcome_simps]:
  "outcome_sat Q E (if b then m else n) \<longleftrightarrow>
     (if b then outcome_sat Q E m else outcome_sat Q E n)"
  by simp

lemma outcome_sat_mono:
  assumes "outcome_sat Q E m" "\<And>r s k. Q r s k \<Longrightarrow> Q' r s k" "\<And>s. E s \<Longrightarrow> E' s"
  shows "outcome_sat Q' E' m"
  using assms by (cases m) simp_all

lemma outcome_sat_conj:
  assumes "outcome_sat Q E m" "outcome_sat Q' E' m"
  shows "outcome_sat (\<lambda>r s k. Q r s k \<and> Q' r s k) (\<lambda>s. E s \<and> E' s) m"
  using assms by (cases m) simp_all

lemma bind_outcome_Done_iff [outcome_simps]:
  "bind_outcome m f = Done r s k \<longleftrightarrow>
     (\<exists>r' s' k'. m = Done r' s' k' \<and> f r' s' k' = Done r s k)"
  by (cases m) simp_all

subsection \<open>Runs of a step relation\<close>

text \<open>A run with the events its steps return, oldest first.\<close>

inductive event_run :: "('s \<Rightarrow> 'e \<Rightarrow> 's \<Rightarrow> bool) \<Rightarrow> 's \<Rightarrow> 'e list \<Rightarrow> 's \<Rightarrow> bool" for step s where
  run_start: "event_run step s [] s"
| run_step: "event_run step s evs t \<Longrightarrow> step t ev u \<Longrightarrow> event_run step s (evs @ [ev]) u"

lemma event_run_trans:
  assumes "event_run step t fs u" "event_run step s evs t"
  shows "event_run step s (evs @ fs) u"
  using assms
proof (induction rule: event_run.induct)
  case (run_step fs u ev w)
  from event_run.run_step [OF run_step.IH [OF run_step.prems] run_step.hyps(2)] show ?case by simp
qed simp

lemma event_run_one: "step s ev t \<Longrightarrow> event_run step s [ev] t"
  using event_run.run_step [OF event_run.run_start] by fastforce

subsection \<open>The functions of the standard header bit\<close>

definition countr_zero :: "'a::len word \<Rightarrow> nat" where
  "countr_zero w = length (takeWhile (\<lambda>i. \<not> bit w i) [0..<LENGTH('a)])"

definition countl_zero :: "'a::len word \<Rightarrow> nat" where
  "countl_zero w = length (takeWhile (\<lambda>i. \<not> bit w i) (rev [0..<LENGTH('a)]))"

definition bit_width :: "'a::len word \<Rightarrow> nat" where
  "bit_width w = LENGTH('a) - countl_zero w"

lemma word_nonzero_bit: "w \<noteq> 0 \<Longrightarrow> \<exists>i<LENGTH('a). bit w i" for w :: "'a::len word"
  by (metis bit_0_eq bit_eqI bit_imp_le_length bot_apply bot_bool_def)

lemma countr_zero_bound: "w \<noteq> 0 \<Longrightarrow> countr_zero w < LENGTH('a)" for w :: "'a::len word"
proof -
  assume "w \<noteq> 0"
  then obtain i where i: "i < LENGTH('a)" "bit w i" using word_nonzero_bit by blast
  have "takeWhile (\<lambda>i. \<not> bit w i) [0..<LENGTH('a)] \<noteq> [0..<LENGTH('a)]"
    using i by (auto simp: takeWhile_eq_all_conv)
  then show ?thesis
    unfolding countr_zero_def
    by (metis diff_zero length_takeWhile_le length_upt le_neq_implies_less takeWhile_eq_take take_all_iff)
qed

lemma bit_countr_zero: "w \<noteq> 0 \<Longrightarrow> bit w (countr_zero w)" for w :: "'a::len word"
  using nth_length_takeWhile [of "\<lambda>i. \<not> bit w i" "[0..<LENGTH('a)]"] countr_zero_bound [of w]
  by (simp add: countr_zero_def)

lemma countr_zero_least: "bit w i \<Longrightarrow> countr_zero w \<le> i" for w :: "'a::len word"
proof (rule ccontr)
  assume b: "bit w i" and "\<not> countr_zero w \<le> i"
  then have lt: "i < length (takeWhile (\<lambda>i. \<not> bit w i) [0..<LENGTH('a)])"
    by (simp add: countr_zero_def)
  then have "takeWhile (\<lambda>i. \<not> bit w i) [0..<LENGTH('a)] ! i = i"
    using takeWhile_nth [OF lt] length_takeWhile_le [of "\<lambda>i. \<not> bit w i" "[0..<LENGTH('a)]"] by simp
  then have "\<not> bit w i" using nth_mem [OF lt] set_takeWhileD by metis
  with b show False by simp
qed

lemma countl_zero_bound: "w \<noteq> 0 \<Longrightarrow> countl_zero w < LENGTH('a)" for w :: "'a::len word"
proof -
  assume "w \<noteq> 0"
  then obtain i where i: "i < LENGTH('a)" "bit w i" using word_nonzero_bit by blast
  have "takeWhile (\<lambda>i. \<not> bit w i) (rev [0..<LENGTH('a)]) \<noteq> rev [0..<LENGTH('a)]"
    using i by (auto simp: takeWhile_eq_all_conv)
  then show ?thesis
    unfolding countl_zero_def
    by (metis diff_zero length_takeWhile_le length_rev length_upt le_neq_implies_less
        takeWhile_eq_take take_all_iff)
qed

lemma bit_countl_zero: "w \<noteq> 0 \<Longrightarrow> bit w (LENGTH('a) - 1 - countl_zero w)" for w :: "'a::len word"
  using nth_length_takeWhile [of "\<lambda>i. \<not> bit w i" "rev [0..<LENGTH('a)]"] countl_zero_bound [of w]
  by (simp add: countl_zero_def rev_nth)

lemma countl_zero_greatest:
  "bit w i \<Longrightarrow> i \<le> LENGTH('a) - 1 - countl_zero w" for w :: "'a::len word"
proof (rule ccontr)
  let ?P = "\<lambda>i. \<not> bit w i" and ?xs = "rev [0..<LENGTH('a)]"
  assume b: "bit w i" and gt: "\<not> i \<le> LENGTH('a) - 1 - countl_zero w"
  have il: "i < LENGTH('a)" using b bit_imp_le_length by blast
  let ?j = "LENGTH('a) - 1 - i"
  have lt: "?j < length (takeWhile ?P ?xs)"
    using gt il by (simp add: countl_zero_def)
  then have "takeWhile ?P ?xs ! ?j = i"
    using takeWhile_nth [OF lt] il by (simp add: rev_nth)
  then have "\<not> bit w i" using nth_mem [OF lt] set_takeWhileD by metis
  with b show False by simp
qed

end
