(* ===== verification/Byte_Mask.thy ===== *)
theory Byte_Mask
  imports Prelude
begin

unbundle bit_operations_syntax

section \<open>The occupancy masks\<close>

text \<open>
  The 256-bit masks of \<^verbatim>\<open>src/book/order_book.cpp\<close> (lines 12 to 52): an array of four
  64-bit words with one bit per byte value, and the operations that set, clear and search it.
  \<open>mask_bytes\<close> reads a mask as the set of bytes whose bit is set; the contract the price index
  relies on is the locale \<open>byte_set\<close>, which the model's operations discharge.
\<close>

type_synonym mask = "64 word list"

subsection \<open>The operations\<close>

definition empty_mask :: mask where
  "empty_mask = [0, 0, 0, 0]"

definition mask_word :: "8 word \<Rightarrow> nat" where
  "mask_word value = unat value div 64"

definition mask_bit :: "8 word \<Rightarrow> 64 word" where
  "mask_bit value = push_bit (unat value mod 64) 1"

definition mask_set :: "mask \<Rightarrow> 8 word \<Rightarrow> mask" where
  "mask_set m value = m[mask_word value := m ! mask_word value OR mask_bit value]"

definition mask_clear :: "mask \<Rightarrow> 8 word \<Rightarrow> mask" where
  "mask_clear m value = m[mask_word value := m ! mask_word value AND NOT (mask_bit value)]"

definition mask_any :: "mask \<Rightarrow> bool" where
  "mask_any m \<longleftrightarrow> m ! 0 OR m ! 1 OR m ! 2 OR m ! 3 \<noteq> 0"

text \<open>The byte at bit \<open>n\<close> of word \<open>w\<close>: the cast at the end of both searches.\<close>

definition position_byte :: "nat \<Rightarrow> nat \<Rightarrow> 8 word" where
  "position_byte w n = of_nat (w * 64 + n)"

text \<open>The two search loops: words upwards from \<open>w\<close>, and the words below \<open>w\<close> downwards.\<close>

function lowest_from :: "mask \<Rightarrow> nat \<Rightarrow> 8 word" where
  "lowest_from m w =
     (if w < length m
      then if m ! w \<noteq> 0 then position_byte w (countr_zero (m ! w)) else lowest_from m (Suc w)
      else 0)"
  by pat_completeness auto
termination
  by (relation "measure (\<lambda>(m, w). length m - w)") auto

declare lowest_from.simps [simp del]

definition lowest :: "mask \<Rightarrow> 8 word" where
  "lowest m = lowest_from m 0"

primrec highest_below :: "mask \<Rightarrow> nat \<Rightarrow> 8 word" where
  "highest_below m 0 = 0"
| "highest_below m (Suc w) =
     (if m ! w \<noteq> 0 then position_byte w (63 - countl_zero (m ! w)) else highest_below m w)"

definition highest :: "mask \<Rightarrow> 8 word" where
  "highest m = highest_below m (length m)"

subsection \<open>The bytes of a mask\<close>

definition mask_inv :: "mask \<Rightarrow> bool" where
  "mask_inv m \<longleftrightarrow> length m = 4"

definition mask_bytes :: "mask \<Rightarrow> 8 word set" where
  "mask_bytes m = {v. bit (m ! mask_word v) (unat v mod 64)}"

lemma mask_word_less [simp]: "mask_word v < 4"
  using unsigned_less [of v, where 'a = nat] by (simp add: mask_word_def less_mult_imp_div_less)

lemma mask_position: "mask_word v * 64 + unat v mod 64 = unat v"
  by (simp add: mask_word_def div_mult_mod_eq)

lemma mask_position_eq_iff:
  "u = v \<longleftrightarrow> mask_word u = mask_word v \<and> unat u mod 64 = unat v mod 64"
  by (metis mask_position unsigned_word_eqI)

lemma byte_of_position:
  assumes "w < 4" "n < 64"
  shows "mask_word (position_byte w n) = w" "unat (position_byte w n) mod 64 = n"
proof -
  have "unat (position_byte w n) = w * 64 + n"
    using assms unfolding position_byte_def unat_of_nat by simp
  then show "mask_word (position_byte w n) = w" "unat (position_byte w n) mod 64 = n"
    using assms by (simp_all add: mask_word_def)
qed

lemma bit_mask_bit [simp]: "bit (mask_bit v) n \<longleftrightarrow> n = unat v mod 64"
  by (auto simp: mask_bit_def bit_simps)

lemma empty_mask_inv [simp]: "mask_inv empty_mask"
  by (simp add: empty_mask_def mask_inv_def)

lemma mask_bytes_empty [simp]: "mask_bytes empty_mask = {}"
proof -
  have "empty_mask ! mask_word v = 0" for v
    using mask_word_less [of v] by (auto simp: empty_mask_def less_Suc_eq numeral_eq_Suc)
  then show ?thesis by (simp add: mask_bytes_def)
qed

lemma mask_set_inv [simp]: "mask_inv m \<Longrightarrow> mask_inv (mask_set m v)"
  by (simp add: mask_inv_def mask_set_def)

lemma mask_clear_inv [simp]: "mask_inv m \<Longrightarrow> mask_inv (mask_clear m v)"
  by (simp add: mask_inv_def mask_clear_def)

lemma mask_bytes_set: "mask_inv m \<Longrightarrow> mask_bytes (mask_set m v) = insert v (mask_bytes m)"
  by (auto simp: mask_bytes_def mask_set_def mask_inv_def nth_list_update bit_simps
      mask_position_eq_iff [of _ v] split: if_splits)

lemma mask_bytes_clear: "mask_inv m \<Longrightarrow> mask_bytes (mask_clear m v) = mask_bytes m - {v}"
  by (auto simp: mask_bytes_def mask_clear_def mask_inv_def nth_list_update bit_simps
      mask_position_eq_iff [of _ v] split: if_splits)

lemma mask_byte_at:
  "w < 4 \<Longrightarrow> n < 64 \<Longrightarrow> bit (m ! w) n \<longleftrightarrow> position_byte w n \<in> mask_bytes m"
  by (simp add: mask_bytes_def byte_of_position)

lemma mask_word_nonzero:
  assumes "w < 4"
  shows "m ! w \<noteq> 0 \<longleftrightarrow> (\<exists>v \<in> mask_bytes m. mask_word v = w)"
proof
  assume "m ! w \<noteq> 0"
  then obtain n where "n < 64" "bit (m ! w) n" using word_nonzero_bit by fastforce
  with assms show "\<exists>v \<in> mask_bytes m. mask_word v = w"
    by (metis byte_of_position(1) mask_byte_at)
next
  assume "\<exists>v \<in> mask_bytes m. mask_word v = w"
  then show "m ! w \<noteq> 0" by (auto simp: mask_bytes_def)
qed

lemma mask_any_iff: "mask_any m \<longleftrightarrow> mask_bytes m \<noteq> {}"
proof -
  have "mask_any m \<longleftrightarrow> (\<exists>w<4. m ! w \<noteq> 0)"
    by (auto simp: mask_any_def less_Suc_eq numeral_eq_Suc or_eq_0_iff)
  also have "\<dots> \<longleftrightarrow> (\<exists>w<4. \<exists>v \<in> mask_bytes m. mask_word v = w)"
    using mask_word_nonzero [of _ m] by auto
  also have "\<dots> \<longleftrightarrow> mask_bytes m \<noteq> {}"
    using mask_word_less by blast
  finally show ?thesis .
qed

subsection \<open>The searches\<close>

lemma byte_le_iff:
  "u \<le> v \<longleftrightarrow> mask_word u < mask_word v \<or>
     (mask_word u = mask_word v \<and> unat u mod 64 \<le> unat v mod 64)" for u v :: "8 word"
proof -
  have "u \<le> v \<longleftrightarrow> mask_word u * 64 + unat u mod 64 \<le> mask_word v * 64 + unat v mod 64"
    by (simp add: mask_position word_le_nat_alt)
  moreover have "unat u mod 64 < 64" "unat v mod 64 < 64" by simp_all
  ultimately show ?thesis by linarith
qed

lemma lowest_in_word:
  assumes "w < 4" "m ! w \<noteq> 0" "\<And>v. v \<in> mask_bytes m \<Longrightarrow> w \<le> mask_word v"
  shows "position_byte w (countr_zero (m ! w)) \<in> mask_bytes m"
    and "v \<in> mask_bytes m \<Longrightarrow> position_byte w (countr_zero (m ! w)) \<le> v"
proof -
  have n: "countr_zero (m ! w) < 64" using countr_zero_bound [OF assms(2)] by simp
  show "position_byte w (countr_zero (m ! w)) \<in> mask_bytes m"
    using assms n by (simp add: bit_countr_zero flip: mask_byte_at)
  assume v: "v \<in> mask_bytes m"
  then have "bit (m ! mask_word v) (unat v mod 64)" by (simp add: mask_bytes_def)
  then have "mask_word v = w \<Longrightarrow> countr_zero (m ! w) \<le> unat v mod 64"
    using countr_zero_least by auto
  with assms(3) [OF v] show "position_byte w (countr_zero (m ! w)) \<le> v"
    by (auto simp: byte_le_iff [of _ v] byte_of_position [OF assms(1) n])
qed

lemma lowest_from_correct:
  assumes "mask_inv m" "mask_bytes m \<noteq> {}" "\<And>v. v \<in> mask_bytes m \<Longrightarrow> w \<le> mask_word v"
  shows "lowest_from m w \<in> mask_bytes m \<and> (\<forall>v \<in> mask_bytes m. lowest_from m w \<le> v)"
  using assms
proof (induction m w rule: lowest_from.induct)
  case (1 m w)
  obtain u where u: "u \<in> mask_bytes m" using "1.prems"(2) by blast
  have w: "w < 4" using "1.prems"(3) [OF u] mask_word_less [of u] by linarith
  show ?case
  proof (cases "m ! w = 0")
    case True
    have "Suc w \<le> mask_word v" if "v \<in> mask_bytes m" for v
      using "1.prems"(3) [OF that] mask_word_nonzero [OF w, of m] that True
      by (metis le_neq_implies_less Suc_leI)
    with "1.IH" "1.prems" True w show ?thesis
      by (simp add: lowest_from.simps [of m w] mask_inv_def)
  next
    case False
    with w "1.prems" show ?thesis
      using lowest_in_word [OF w False "1.prems"(3)]
      by (simp add: lowest_from.simps [of m w] mask_inv_def)
  qed
qed

lemma lowest_correct:
  assumes "mask_inv m" "mask_bytes m \<noteq> {}"
  shows "lowest m \<in> mask_bytes m" "v \<in> mask_bytes m \<Longrightarrow> lowest m \<le> v"
  using lowest_from_correct [OF assms, of 0] by (simp_all add: lowest_def)

lemma highest_in_word:
  assumes "w < 4" "m ! w \<noteq> 0" "\<And>v. v \<in> mask_bytes m \<Longrightarrow> mask_word v \<le> w"
  shows "position_byte w (63 - countl_zero (m ! w)) \<in> mask_bytes m"
    and "v \<in> mask_bytes m \<Longrightarrow> v \<le> position_byte w (63 - countl_zero (m ! w))"
proof -
  have n: "63 - countl_zero (m ! w) < 64" by simp
  show "position_byte w (63 - countl_zero (m ! w)) \<in> mask_bytes m"
    using bit_countl_zero [OF assms(2)] by (simp add: assms(1) flip: mask_byte_at)
  assume v: "v \<in> mask_bytes m"
  then have "bit (m ! mask_word v) (unat v mod 64)" by (simp add: mask_bytes_def)
  then have "mask_word v = w \<Longrightarrow> unat v mod 64 \<le> 63 - countl_zero (m ! w)"
    using countl_zero_greatest [of "m ! w" "unat v mod 64"] by auto
  with assms(3) [OF v] show "v \<le> position_byte w (63 - countl_zero (m ! w))"
    by (auto simp: byte_le_iff [of v] byte_of_position [OF assms(1) n])
qed

lemma highest_below_correct:
  assumes "mask_bytes m \<noteq> {}" "w \<le> 4" "\<And>v. v \<in> mask_bytes m \<Longrightarrow> mask_word v < w"
  shows "highest_below m w \<in> mask_bytes m \<and> (\<forall>v \<in> mask_bytes m. v \<le> highest_below m w)"
  using assms
proof (induction w)
  case 0
  then show ?case by auto
next
  case (Suc w)
  show ?case
  proof (cases "m ! w = 0")
    case True
    have "mask_word v < w" if "v \<in> mask_bytes m" for v
      using Suc.prems that mask_word_nonzero [of w m] True
      by (metis Suc_le_lessD less_antisym)
    with Suc True show ?thesis by simp
  next
    case False
    have w: "w < 4" using Suc.prems(2) by simp
    have "\<And>v. v \<in> mask_bytes m \<Longrightarrow> mask_word v \<le> w" using Suc.prems(3) by (simp add: less_Suc_eq_le)
    from highest_in_word [OF w False this] False show ?thesis by simp
  qed
qed

lemma highest_correct:
  assumes "mask_inv m" "mask_bytes m \<noteq> {}"
  shows "highest m \<in> mask_bytes m" "v \<in> mask_bytes m \<Longrightarrow> v \<le> highest m"
  using highest_below_correct [OF assms(2), of 4] assms(1)
  by (simp_all add: highest_def mask_inv_def)

subsection \<open>The contract of a byte set\<close>

locale byte_set =
  fixes inv :: "'m \<Rightarrow> bool"
    and bytes :: "'m \<Rightarrow> 8 word set"
    and empty :: 'm
    and ins :: "'m \<Rightarrow> 8 word \<Rightarrow> 'm"
    and del :: "'m \<Rightarrow> 8 word \<Rightarrow> 'm"
    and nonempty :: "'m \<Rightarrow> bool"
    and least :: "'m \<Rightarrow> 8 word"
    and greatest :: "'m \<Rightarrow> 8 word"
  assumes inv_empty: "inv empty"
    and bytes_empty: "bytes empty = {}"
    and inv_ins: "inv m \<Longrightarrow> inv (ins m v)"
    and bytes_ins: "inv m \<Longrightarrow> bytes (ins m v) = insert v (bytes m)"
    and inv_del: "inv m \<Longrightarrow> inv (del m v)"
    and bytes_del: "inv m \<Longrightarrow> bytes (del m v) = bytes m - {v}"
    and nonempty_iff: "inv m \<Longrightarrow> nonempty m \<longleftrightarrow> bytes m \<noteq> {}"
    and least_in: "inv m \<Longrightarrow> bytes m \<noteq> {} \<Longrightarrow> least m \<in> bytes m"
    and least_le: "inv m \<Longrightarrow> v \<in> bytes m \<Longrightarrow> least m \<le> v"
    and greatest_in: "inv m \<Longrightarrow> bytes m \<noteq> {} \<Longrightarrow> greatest m \<in> bytes m"
    and greatest_ge: "inv m \<Longrightarrow> v \<in> bytes m \<Longrightarrow> v \<le> greatest m"
begin

lemma least_eq_Min: "inv m \<Longrightarrow> bytes m \<noteq> {} \<Longrightarrow> least m = Min (bytes m)"
  by (metis Min_eqI finite least_in least_le)

lemma greatest_eq_Max: "inv m \<Longrightarrow> bytes m \<noteq> {} \<Longrightarrow> greatest m = Max (bytes m)"
  by (metis Max_eqI finite greatest_in greatest_ge)

lemma nonempty_ins: "inv m \<Longrightarrow> nonempty (ins m v)"
  by (simp add: nonempty_iff inv_ins bytes_ins)

lemma nonempty_del_iff: "inv m \<Longrightarrow> nonempty (del m v) \<longleftrightarrow> (\<exists>u \<in> bytes m. u \<noteq> v)"
  by (auto simp: nonempty_iff inv_del bytes_del)

text \<open>One search of either direction: the byte it finds and how it bounds the others.\<close>

lemma extremum_in:
  "inv m \<Longrightarrow> nonempty m \<Longrightarrow> (if reverse then greatest m else least m) \<in> bytes m"
  by (simp add: nonempty_iff least_in greatest_in)

lemma extremum_bound:
  "inv m \<Longrightarrow> v \<in> bytes m \<Longrightarrow> if reverse then v \<le> greatest m else least m \<le> v"
  by (simp add: least_le greatest_ge)

end

interpretation mask: byte_set mask_inv mask_bytes empty_mask mask_set mask_clear mask_any lowest highest
  by unfold_locales
    (auto simp: mask_bytes_set mask_bytes_clear mask_any_iff
      intro: lowest_correct highest_correct)

end
