(* ===== verification/Price_Index.thy ===== *)
theory Price_Index
  imports Byte_Mask
begin

unbundle bit_operations_syntax

section \<open>The price index\<close>

text \<open>
  The class \<^verbatim>\<open>PriceIndex\<close> of \<^verbatim>\<open>src/book/order_book.cpp\<close> (lines 54 to
  168): a trie of height four over the bytes of a 32-bit price, with an occupancy mask at each
  tier. A \<^verbatim>\<open>unique_ptr\<close> is an option, an array of 256 of them a function of the byte
  that indexes it, and dereferencing a null one is \<open>Undefined\<close> (or \<open>None\<close> in the
  operations that do not allocate). \<open>index_prices\<close> is the set of active prices.
\<close>

subsection \<open>The bytes of a price\<close>

definition byte :: "price \<Rightarrow> nat \<Rightarrow> 8 word" where
  "byte price shift = ucast (drop_bit shift price AND 0xff)"

definition price_of_bytes :: "8 word \<Rightarrow> 8 word \<Rightarrow> 8 word \<Rightarrow> 8 word \<Rightarrow> price" where
  "price_of_bytes b3 b2 b1 b0 =
     push_bit 24 (ucast b3) OR push_bit 16 (ucast b2) OR push_bit 8 (ucast b1) OR ucast b0"

lemma byte_take_bit: "byte p s = ucast (take_bit 8 (drop_bit s p))"
proof -
  have "(0xff :: 32 word) = Bit_Operations.mask 8" by (simp add: mask_eq_exp_minus_1)
  then show ?thesis by (simp only: byte_def take_bit_eq_mask)
qed

lemma bit_byte: "bit (byte p s) n \<longleftrightarrow> n < 8 \<and> bit p (s + n)"
  by (auto simp: byte_take_bit bit_simps add.commute)

lemma bit_price_of_bytes:
  "bit (price_of_bytes b3 b2 b1 b0) n \<longleftrightarrow>
     (if n < 8 then bit b0 n else if n < 16 then bit b1 (n - 8)
      else if n < 24 then bit b2 (n - 16) else n < 32 \<and> bit b3 (n - 24))"
proof -
  have "bit b0 n \<Longrightarrow> n < 8" "bit b1 m \<Longrightarrow> m < 8" "bit b2 m \<Longrightarrow> m < 8" for m
    using bit_imp_le_length by fastforce+
  then show ?thesis by (auto simp: price_of_bytes_def bit_simps) fastforce+
qed

lemma byte_price_of_bytes [simp]:
  "byte (price_of_bytes b3 b2 b1 b0) 24 = b3" "byte (price_of_bytes b3 b2 b1 b0) 16 = b2"
  "byte (price_of_bytes b3 b2 b1 b0) 8 = b1" "byte (price_of_bytes b3 b2 b1 b0) 0 = b0"
  by (rule bit_word_eqI; simp add: bit_byte bit_price_of_bytes)+

lemma price_of_bytes_byte [simp]:
  "price_of_bytes (byte p 24) (byte p 16) (byte p 8) (byte p 0) = p"
  by (rule bit_word_eqI) (auto simp: bit_byte bit_price_of_bytes)

lemma price_eq_iff:
  "p = q \<longleftrightarrow> byte p 24 = byte q 24 \<and> byte p 16 = byte q 16 \<and> byte p 8 = byte q 8 \<and> byte p 0 = byte q 0"
  by (metis price_of_bytes_byte)

lemma unat_byte: "unat (byte p s) = unat p div 2 ^ s mod 256"
proof -
  have "unat (byte p s) = take_bit 8 (unat (drop_bit s p))"
    by (simp add: byte_take_bit unsigned_ucast_eq unsigned_take_bit_eq del: unsigned_drop_bit_eq)
  also have "unat (drop_bit s p) = drop_bit s (unat p)"
    by (rule bit_eqI) (auto simp: bit_simps dest: bit_imp_le_length)
  finally show ?thesis by (simp add: take_bit_eq_mod drop_bit_eq_div)
qed

lemma base_256:
  "n div 16777216 * 16777216 + n div 65536 mod 256 * 65536 + n div 256 mod 256 * 256 + n mod 256 = n"
  for n :: nat
proof -
  have d: "n div 65536 = n div 256 div 256" "n div 16777216 = n div 256 div 256 div 256"
    by (simp_all flip: div_mult2_eq)
  have "n div 256 * 256 + n mod 256 = n"
    "n div 256 div 256 * 256 + n div 256 mod 256 = n div 256"
    "n div 256 div 256 div 256 * 256 + n div 256 div 256 mod 256 = n div 256 div 256"
    by simp_all
  then show ?thesis unfolding d by linarith
qed

lemma unat_price:
  "unat p = unat (byte p 24) * 16777216 + unat (byte p 16) * 65536 + unat (byte p 8) * 256 + unat (byte p 0)"
proof -
  have "unat p < 4294967296" using unsigned_less [of p, where 'a = nat] by simp
  then have "unat (byte p 24) = unat p div 16777216"
    by (simp add: unat_byte less_mult_imp_div_less)
  then show ?thesis using base_256 [of "unat p"] by (simp add: unat_byte)
qed

text \<open>The order of prices is the lexicographic order of their bytes.\<close>

lemma unat_byte_less: "unat (b :: 8 word) < 256"
  using unsigned_less [of b, where 'a = nat] by simp

lemma price_less_bytes:
  "byte p 24 < byte q 24 \<Longrightarrow> p < q"
  "byte p 24 = byte q 24 \<Longrightarrow> byte p 16 < byte q 16 \<Longrightarrow> p < q"
  "byte p 24 = byte q 24 \<Longrightarrow> byte p 16 = byte q 16 \<Longrightarrow> byte p 8 < byte q 8 \<Longrightarrow> p < q"
  "byte p 24 = byte q 24 \<Longrightarrow> byte p 16 = byte q 16 \<Longrightarrow> byte p 8 = byte q 8 \<Longrightarrow>
     byte p 0 < byte q 0 \<Longrightarrow> p < q"
  using unat_byte_less [of "byte p 16"] unat_byte_less [of "byte p 8"] unat_byte_less [of "byte p 0"]
  by (simp_all add: word_less_nat_alt unat_price [of p] unat_price [of q])

subsection \<open>The tiers\<close>

record third =
  prices :: mask

record second =
  second_children :: mask
  second_child :: "8 word \<Rightarrow> third option"

record first =
  first_children :: mask
  first_child :: "8 word \<Rightarrow> second option"

record price_index =
  root :: mask
  first_tier :: "8 word \<Rightarrow> first option"

definition new_third :: third where
  "new_third = \<lparr>prices = empty_mask\<rparr>"

definition new_second :: second where
  "new_second = \<lparr>second_children = empty_mask, second_child = (\<lambda>_. None)\<rparr>"

definition new_first :: first where
  "new_first = \<lparr>first_children = empty_mask, first_child = (\<lambda>_. None)\<rparr>"

definition new_index :: price_index where
  "new_index = \<lparr>root = empty_mask, first_tier = (\<lambda>_. None)\<rparr>"

subsection \<open>The operations\<close>

text \<open>Writing a node back through the pointers that lead to it.\<close>

definition put_first :: "8 word \<Rightarrow> first \<Rightarrow> price_index \<Rightarrow> price_index" where
  "put_first b3 f ix = ix\<lparr>first_tier := (first_tier ix)(b3 \<mapsto> f)\<rparr>"

definition put_second :: "8 word \<Rightarrow> second \<Rightarrow> first \<Rightarrow> first" where
  "put_second b2 s f = f\<lparr>first_child := (first_child f)(b2 \<mapsto> s)\<rparr>"

definition put_third :: "8 word \<Rightarrow> third \<Rightarrow> second \<Rightarrow> second" where
  "put_third b1 t s = s\<lparr>second_child := (second_child s)(b1 \<mapsto> t)\<rparr>"

text \<open>
  \<^verbatim>\<open>add\<close> first allocates the missing nodes of the path, tier by tier, and sets the
  four occupancy bits only when the whole path exists.
\<close>

definition ensure_first :: "price_index \<Rightarrow> 8 word \<Rightarrow> nat \<Rightarrow> (price_index, first) outcome" where
  "ensure_first ix b3 k =
     (case first_tier ix b3 of
        Some f \<Rightarrow> Done f ix k
      | None \<Rightarrow> bind_outcome (allocate ix k) (\<lambda>_ ix k. Done new_first (put_first b3 new_first ix) k))"

definition ensure_second ::
  "price_index \<Rightarrow> 8 word \<Rightarrow> first \<Rightarrow> 8 word \<Rightarrow> nat \<Rightarrow> (price_index, first \<times> second) outcome" where
  "ensure_second ix b3 f b2 k =
     (case first_child f b2 of
        Some s \<Rightarrow> Done (f, s) ix k
      | None \<Rightarrow> bind_outcome (allocate ix k) (\<lambda>_ ix k.
          let f' = put_second b2 new_second f in Done (f', new_second) (put_first b3 f' ix) k))"

definition ensure_third ::
  "price_index \<Rightarrow> 8 word \<Rightarrow> first \<Rightarrow> 8 word \<Rightarrow> second \<Rightarrow> 8 word \<Rightarrow> nat \<Rightarrow>
     (price_index, first \<times> second \<times> third) outcome" where
  "ensure_third ix b3 f b2 s b1 k =
     (case second_child s b1 of
        Some t \<Rightarrow> Done (f, s, t) ix k
      | None \<Rightarrow> bind_outcome (allocate ix k) (\<lambda>_ ix k.
          let s' = put_third b1 new_third s; f' = put_second b2 s' f
          in Done (f', s', new_third) (put_first b3 f' ix) k))"

definition occupy ::
  "price_index \<Rightarrow> 8 word \<Rightarrow> first \<Rightarrow> 8 word \<Rightarrow> second \<Rightarrow> 8 word \<Rightarrow> third \<Rightarrow> 8 word \<Rightarrow> price_index" where
  "occupy ix b3 f b2 s b1 t b0 =
     (let t' = t\<lparr>prices := mask_set (prices t) b0\<rparr>;
          s' = (put_third b1 t' s)\<lparr>second_children := mask_set (second_children s) b1\<rparr>;
          f' = (put_second b2 s' f)\<lparr>first_children := mask_set (first_children f) b2\<rparr>
      in (put_first b3 f' ix)\<lparr>root := mask_set (root ix) b3\<rparr>)"

definition index_add :: "price_index \<Rightarrow> price \<Rightarrow> nat \<Rightarrow> (price_index, unit) outcome" where
  "index_add ix price k =
     (let b3 = byte price 24; b2 = byte price 16; b1 = byte price 8; b0 = byte price 0 in
      bind_outcome (ensure_first ix b3 k) (\<lambda>f ix k.
      bind_outcome (ensure_second ix b3 f b2 k) (\<lambda>(f, s) ix k.
      bind_outcome (ensure_third ix b3 f b2 s b1 k) (\<lambda>(f, s, t) ix k.
        Done () (occupy ix b3 f b2 s b1 t b0) k))))"

definition index_remove :: "price_index \<Rightarrow> price \<Rightarrow> price_index option" where
  "index_remove ix price =
     (let b3 = byte price 24; b2 = byte price 16; b1 = byte price 8; b0 = byte price 0 in
      case first_tier ix b3 of None \<Rightarrow> None | Some f \<Rightarrow>
      (case first_child f b2 of None \<Rightarrow> None | Some s \<Rightarrow>
      (case second_child s b1 of None \<Rightarrow> None | Some t \<Rightarrow>
       (let t' = t\<lparr>prices := mask_clear (prices t) b0\<rparr> in
        if mask_any (prices t')
        then Some (put_first b3 (put_second b2 (put_third b1 t' s) f) ix)
        else
          let s' = s\<lparr>second_child := (second_child s)(b1 := None),
                     second_children := mask_clear (second_children s) b1\<rparr> in
          if mask_any (second_children s')
          then Some (put_first b3 (put_second b2 s' f) ix)
          else
            let f' = f\<lparr>first_child := (first_child f)(b2 := None),
                       first_children := mask_clear (first_children f) b2\<rparr> in
            if mask_any (first_children f')
            then Some (put_first b3 f' ix)
            else Some (ix\<lparr>first_tier := (first_tier ix)(b3 := None),
                           root := mask_clear (root ix) b3\<rparr>)))))"

definition pick :: "bool \<Rightarrow> mask \<Rightarrow> 8 word" where
  "pick reverse m = (if reverse then highest m else lowest m)"

text \<open>\<^verbatim>\<open>find\<close>: the outer option is the null dereference, the inner one the result.\<close>

definition index_find :: "price_index \<Rightarrow> bool \<Rightarrow> price option option" where
  "index_find ix reverse =
     (if \<not> mask_any (root ix) then Some None
      else
        let b3 = pick reverse (root ix) in
        case first_tier ix b3 of None \<Rightarrow> None | Some f \<Rightarrow>
        (let b2 = pick reverse (first_children f) in
         case first_child f b2 of None \<Rightarrow> None | Some s \<Rightarrow>
         (let b1 = pick reverse (second_children s) in
          case second_child s b1 of None \<Rightarrow> None | Some t \<Rightarrow>
          (let b0 = pick reverse (prices t) in
           Some (Some (price_of_bytes b3 b2 b1 b0))))))"

definition index_minimum :: "price_index \<Rightarrow> price option option" where
  "index_minimum ix = index_find ix False"

definition index_maximum :: "price_index \<Rightarrow> price option option" where
  "index_maximum ix = index_find ix True"

definition index_reset :: "price_index \<Rightarrow> price_index" where
  "index_reset ix = ix\<lparr>first_tier := (\<lambda>_. None), root := empty_mask\<rparr>"

subsection \<open>The invariant and the active prices\<close>

text \<open>
  A node's occupancy bit is set exactly when the node exists and has a price below it. A node may
  exist with no price: a path whose allocation was cut short by \<^verbatim>\<open>std::bad_alloc\<close>.
\<close>

definition tier_inv ::
  "('n \<Rightarrow> bool) \<Rightarrow> ('n \<Rightarrow> mask) \<Rightarrow> mask \<Rightarrow> (8 word \<Rightarrow> 'n option) \<Rightarrow> bool" where
  "tier_inv I M m child \<longleftrightarrow> mask_inv m \<and> (\<forall>b \<in> mask_bytes m. child b \<noteq> None) \<and>
     (\<forall>b n. child b = Some n \<longrightarrow> I n \<and> (b \<in> mask_bytes m \<longleftrightarrow> mask_bytes (M n) \<noteq> {}))"

definition third_inv :: "third \<Rightarrow> bool" where
  "third_inv t \<longleftrightarrow> mask_inv (prices t)"

definition second_inv :: "second \<Rightarrow> bool" where
  "second_inv s \<longleftrightarrow> tier_inv third_inv prices (second_children s) (second_child s)"

definition first_inv :: "first \<Rightarrow> bool" where
  "first_inv f \<longleftrightarrow> tier_inv second_inv second_children (first_children f) (first_child f)"

definition index_inv :: "price_index \<Rightarrow> bool" where
  "index_inv ix \<longleftrightarrow> tier_inv first_inv first_children (root ix) (first_tier ix)"

definition index_prices :: "price_index \<Rightarrow> price set" where
  "index_prices ix = {p. \<exists>f s t. first_tier ix (byte p 24) = Some f \<and>
     first_child f (byte p 16) = Some s \<and> second_child s (byte p 8) = Some t \<and>
     byte p 0 \<in> mask_bytes (prices t)}"

lemma tier_inv_child:
  assumes "tier_inv I M m child"
  shows "child b = Some n \<Longrightarrow> I n"
    and "child b = Some n \<Longrightarrow> b \<in> mask_bytes m \<longleftrightarrow> mask_bytes (M n) \<noteq> {}"
    and "b \<in> mask_bytes m \<Longrightarrow> \<exists>n. child b = Some n"
    and "child b = None \<Longrightarrow> b \<notin> mask_bytes m"
    and "mask_inv m"
  using assms by (auto simp: tier_inv_def)

lemma tier_inv_new: "tier_inv I M empty_mask (\<lambda>_. None)"
  by (simp add: tier_inv_def)

lemma tier_inv_put:
  assumes "tier_inv I M m child" "I n" "b \<in> mask_bytes m \<longleftrightarrow> mask_bytes (M n) \<noteq> {}"
  shows "tier_inv I M m (child(b \<mapsto> n))"
  using assms by (auto simp: tier_inv_def)

lemma tier_inv_occupy:
  assumes "tier_inv I M m child" "I n" "mask_bytes (M n) \<noteq> {}"
  shows "tier_inv I M (mask_set m b) (child(b \<mapsto> n))"
  using assms by (auto simp: tier_inv_def mask_bytes_set)

lemma tier_inv_drop:
  assumes "tier_inv I M m child"
  shows "tier_inv I M (mask_clear m b) (child(b := None))"
  using assms by (auto simp: tier_inv_def mask_bytes_clear)

lemmas tier_invs = second_inv_def first_inv_def index_inv_def
lemmas tier_puts = put_first_def put_second_def put_third_def

lemma new_index_correct: "index_inv new_index" "index_prices new_index = {}"
  by (simp_all add: new_index_def index_inv_def index_prices_def tier_inv_new)

lemma index_reset_correct: "index_inv (index_reset ix)" "index_prices (index_reset ix) = {}"
  by (simp_all add: index_reset_def index_inv_def index_prices_def tier_inv_new)

lemma put_simps [simp]:
  "second_children (put_third b1 t s) = second_children s"
  "first_children (put_second b2 s' f) = first_children f"
  "root (put_first b3 f' ix) = root ix"
  "second_child (put_third b1 t s) = (second_child s)(b1 \<mapsto> t)"
  "first_child (put_second b2 s' f) = (first_child f)(b2 \<mapsto> s')"
  "first_tier (put_first b3 f' ix) = (first_tier ix)(b3 \<mapsto> f')"
  by (simp_all add: tier_puts)

lemma new_node_masks [simp]:
  "prices new_third = empty_mask" "second_children new_second = empty_mask"
  "first_children new_first = empty_mask" "second_child new_second = (\<lambda>_. None)"
  "first_child new_first = (\<lambda>_. None)"
  by (simp_all add: new_third_def new_second_def new_first_def)

lemma new_node_inv [simp]: "third_inv new_third" "second_inv new_second" "first_inv new_first"
  by (simp_all add: third_inv_def second_inv_def first_inv_def tier_inv_new)

subsection \<open>Adding a price\<close>

text \<open>
  A path \<open>b3, b2, b1\<close> of existing nodes, with the invariant of each.
\<close>

definition index_path ::
  "price_index \<Rightarrow> 8 word \<Rightarrow> first \<Rightarrow> 8 word \<Rightarrow> second \<Rightarrow> 8 word \<Rightarrow> third \<Rightarrow> bool" where
  "index_path ix b3 f b2 s b1 t \<longleftrightarrow>
     first_tier ix b3 = Some f \<and> first_child f b2 = Some s \<and> second_child s b1 = Some t"

lemma index_path_invs:
  assumes "index_inv ix" "index_path ix b3 f b2 s b1 t"
  shows "first_inv f" "second_inv s" "third_inv t"
  using assms unfolding tier_invs index_path_def by (blast dest: tier_inv_child(1))+

lemma ensure_first_correct:
  assumes "index_inv ix"
  shows "outcome_sat
    (\<lambda>f ix' _. index_inv ix' \<and> index_prices ix' = index_prices ix \<and> first_tier ix' b3 = Some f)
    (\<lambda>ix'. ix' = ix) (ensure_first ix b3 k)"
proof (cases "first_tier ix b3")
  case None
  with assms have "index_inv (put_first b3 new_first ix)"
    unfolding index_inv_def put_simps by (intro tier_inv_put) (auto dest: tier_inv_child(4))
  moreover have "index_prices (put_first b3 new_first ix) = index_prices ix"
    using None by (auto simp: index_prices_def)
  ultimately show ?thesis using None by (simp add: ensure_first_def outcome_simps)
next
  case (Some f)
  with assms show ?thesis by (simp add: ensure_first_def)
qed

lemma put_second_index_inv:
  assumes "index_inv ix" "first_tier ix b3 = Some f" "first_inv (put_second b2 s f)"
  shows "index_inv (put_first b3 (put_second b2 s f) ix)"
  using assms tier_inv_child(2) [of first_inv first_children "root ix" "first_tier ix" b3 f]
  unfolding index_inv_def put_simps by (intro tier_inv_put) auto

lemma ensure_second_correct:
  assumes "index_inv ix" "first_tier ix b3 = Some f"
  shows "outcome_sat
    (\<lambda>(f', s) ix' _. index_inv ix' \<and> index_prices ix' = index_prices ix \<and>
        first_tier ix' b3 = Some f' \<and> first_child f' b2 = Some s)
    (\<lambda>ix'. ix' = ix) (ensure_second ix b3 f b2 k)"
proof (cases "first_child f b2")
  case None
  have "first_inv f" using assms tier_inv_child(1) unfolding index_inv_def by metis
  then have "first_inv (put_second b2 new_second f)"
    using None unfolding first_inv_def put_simps
    by (intro tier_inv_put) (auto dest: tier_inv_child(4))
  with assms have "index_inv (put_first b3 (put_second b2 new_second f) ix)"
    by (intro put_second_index_inv)
  moreover have "index_prices (put_first b3 (put_second b2 new_second f) ix) = index_prices ix"
    using None assms(2) by (auto simp: index_prices_def split: if_splits)
  ultimately show ?thesis using None by (simp add: ensure_second_def outcome_simps Let_def)
next
  case (Some s)
  with assms show ?thesis by (simp add: ensure_second_def)
qed

lemma ensure_third_correct:
  assumes "index_inv ix" "first_tier ix b3 = Some f" "first_child f b2 = Some s"
  shows "outcome_sat
    (\<lambda>(f', s', t) ix' _. index_inv ix' \<and> index_prices ix' = index_prices ix \<and>
        index_path ix' b3 f' b2 s' b1 t)
    (\<lambda>ix'. ix' = ix) (ensure_third ix b3 f b2 s b1 k)"
proof (cases "second_child s b1")
  case None
  have f: "first_inv f" using assms tier_inv_child(1) unfolding index_inv_def by metis
  have s: "second_inv s" "b2 \<in> mask_bytes (first_children f) \<longleftrightarrow> mask_bytes (second_children s) \<noteq> {}"
    using f assms(3) tier_inv_child(1,2) unfolding first_inv_def by metis+
  have "second_inv (put_third b1 new_third s)"
    using None s(1) unfolding second_inv_def put_simps
    by (intro tier_inv_put) (auto dest: tier_inv_child(4))
  with f s have "first_inv (put_second b2 (put_third b1 new_third s) f)"
    unfolding first_inv_def put_simps by (intro tier_inv_put) simp_all
  with assms have "index_inv (put_first b3 (put_second b2 (put_third b1 new_third s) f) ix)"
    by (intro put_second_index_inv)
  moreover have "index_prices (put_first b3 (put_second b2 (put_third b1 new_third s) f) ix) =
      index_prices ix"
    using None assms(2,3) by (auto simp: index_prices_def split: if_splits)
  ultimately show ?thesis
    using None by (simp add: ensure_third_def outcome_simps Let_def index_path_def)
next
  case (Some t)
  with assms show ?thesis by (simp add: ensure_third_def index_path_def)
qed

lemma occupy_inv:
  assumes "index_inv ix" "index_path ix b3 f b2 s b1 t"
  shows "index_inv (occupy ix b3 f b2 s b1 t b0)"
proof -
  note invs = index_path_invs [OF assms]
  define t' where "t' = t\<lparr>prices := mask_set (prices t) b0\<rparr>"
  define s' where "s' = (put_third b1 t' s)\<lparr>second_children := mask_set (second_children s) b1\<rparr>"
  define f' where "f' = (put_second b2 s' f)\<lparr>first_children := mask_set (first_children f) b2\<rparr>"
  have masks: "mask_inv (prices t)" "mask_inv (second_children s)" "mask_inv (first_children f)"
    using invs unfolding third_inv_def second_inv_def first_inv_def by (auto dest: tier_inv_child(5))
  have t': "third_inv t'" "mask_bytes (prices t') \<noteq> {}"
    using masks by (simp_all add: t'_def third_inv_def mask_bytes_set)
  have s': "second_inv s'" "mask_bytes (second_children s') \<noteq> {}"
    using invs(2) t' masks(2) by (simp_all add: s'_def second_inv_def tier_inv_occupy mask_bytes_set)
  have f': "first_inv f'" "mask_bytes (first_children f') \<noteq> {}"
    using invs(1) s' masks(3) by (simp_all add: f'_def first_inv_def tier_inv_occupy mask_bytes_set)
  have "occupy ix b3 f b2 s b1 t b0 = (put_first b3 f' ix)\<lparr>root := mask_set (root ix) b3\<rparr>"
    by (simp add: occupy_def Let_def t'_def s'_def f'_def)
  then show ?thesis
    using assms(1) f' by (simp add: index_inv_def tier_inv_occupy)
qed

lemma occupy_prices:
  assumes "index_inv ix" "index_path ix (byte p 24) f (byte p 16) s (byte p 8) t"
  shows "index_prices (occupy ix (byte p 24) f (byte p 16) s (byte p 8) t (byte p 0)) =
    insert p (index_prices ix)"
proof -
  have "mask_inv (prices t)" using index_path_invs(3) [OF assms] by (simp add: third_inv_def)
  then show ?thesis
    using assms(2) unfolding index_path_def
    by (auto simp: occupy_def Let_def index_prices_def mask_bytes_set price_eq_iff [of _ p]
        split: if_splits)
qed

lemma index_add_correct:
  assumes "index_inv ix"
  shows "outcome_sat
    (\<lambda>_ ix' _. index_inv ix' \<and> index_prices ix' = insert p (index_prices ix))
    (\<lambda>ix'. index_inv ix' \<and> index_prices ix' = index_prices ix) (index_add ix p k)"
proof -
  let ?P = "\<lambda>ix'. index_inv ix' \<and> index_prices ix' = index_prices ix"
  let ?Q = "\<lambda>_ ix' _. index_inv ix' \<and> index_prices ix' = insert p (index_prices ix)"
  have third: "outcome_sat ?Q ?P (bind_outcome (ensure_third ix1 (byte p 24) f (byte p 16) s (byte p 8) k)
      (\<lambda>(f, s, t) ix k. Done () (occupy ix (byte p 24) f (byte p 16) s (byte p 8) t (byte p 0)) k))"
    if "?P ix1" "first_tier ix1 (byte p 24) = Some f" "first_child f (byte p 16) = Some s" for ix1 f s k
    unfolding outcome_sat_bind using that
    by (intro outcome_sat_mono [OF ensure_third_correct]) (auto simp: occupy_inv occupy_prices)
  have second: "outcome_sat ?Q ?P (bind_outcome (ensure_second ix1 (byte p 24) f (byte p 16) k)
      (\<lambda>(f, s) ix k. bind_outcome (ensure_third ix (byte p 24) f (byte p 16) s (byte p 8) k)
      (\<lambda>(f, s, t) ix k. Done () (occupy ix (byte p 24) f (byte p 16) s (byte p 8) t (byte p 0)) k)))"
    if "?P ix1" "first_tier ix1 (byte p 24) = Some f" for ix1 f k
    unfolding outcome_sat_bind [of _ _ "ensure_second _ _ _ _ _"] using that
    by (intro outcome_sat_mono [OF ensure_second_correct]) (auto intro!: third)
  show ?thesis
    unfolding index_add_def Let_def outcome_sat_bind [of _ _ "ensure_first _ _ _"] using assms
    by (intro outcome_sat_mono [OF ensure_first_correct]) (auto intro!: second)
qed

text \<open>Three allocations are enough for one price.\<close>

lemma index_add_returns:
  assumes "3 \<le> k"
  shows "\<exists>ix' k'. index_add ix p k = Done () ix' k' \<and> k \<le> k' + 3"
proof -
  obtain j where "k = Suc (Suc (Suc j))" using assms by (metis Suc_le_D numeral_3_eq_3 Suc_le_mono)
  then show ?thesis
    by (auto simp: index_add_def ensure_first_def ensure_second_def ensure_third_def Let_def
        split: option.splits)
qed

subsection \<open>Removing a price\<close>

text \<open>The four ends of \<^verbatim>\<open>remove\<close>, by the highest tier that still has a price.\<close>

lemma index_remove_path:
  assumes "index_path ix (byte p 24) f (byte p 16) s (byte p 8) t"
  defines "t' \<equiv> t\<lparr>prices := mask_clear (prices t) (byte p 0)\<rparr>"
  defines "s' \<equiv> s\<lparr>second_child := (second_child s)(byte p 8 := None),
                  second_children := mask_clear (second_children s) (byte p 8)\<rparr>"
  defines "f' \<equiv> f\<lparr>first_child := (first_child f)(byte p 16 := None),
                  first_children := mask_clear (first_children f) (byte p 16)\<rparr>"
  defines "ix' \<equiv> ix\<lparr>first_tier := (first_tier ix)(byte p 24 := None),
                   root := mask_clear (root ix) (byte p 24)\<rparr>"
  shows "index_remove ix p = Some
    (if mask_any (prices t') then
       put_first (byte p 24) (put_second (byte p 16) (put_third (byte p 8) t' s) f) ix
     else if mask_any (second_children s') then
       put_first (byte p 24) (put_second (byte p 16) s' f) ix
     else if mask_any (first_children f') then put_first (byte p 24) f' ix
     else ix')"
  using assms(1) unfolding index_path_def t'_def s'_def f'_def ix'_def
  by (simp add: index_remove_def Let_def)

lemma index_remove_inv:
  assumes "index_inv ix" "index_path ix (byte p 24) f (byte p 16) s (byte p 8) t"
    "index_remove ix p = Some ix'"
  shows "index_inv ix'"
proof -
  note invs = index_path_invs [OF assms(1,2)]
  note path = assms(2) [unfolded index_path_def]
  define t' where "t' = t\<lparr>prices := mask_clear (prices t) (byte p 0)\<rparr>"
  define s' where "s' = s\<lparr>second_child := (second_child s)(byte p 8 := None),
    second_children := mask_clear (second_children s) (byte p 8)\<rparr>"
  define f' where "f' = f\<lparr>first_child := (first_child f)(byte p 16 := None),
    first_children := mask_clear (first_children f) (byte p 16)\<rparr>"
  have t': "third_inv t'" and s': "second_inv s'" and f': "first_inv f'"
    using invs by (simp_all add: t'_def s'_def f'_def third_inv_def second_inv_def first_inv_def
        tier_inv_drop)
  have put_first_ok: "index_inv (put_first (byte p 24) g ix)"
    if "first_inv g" "mask_bytes (first_children g) \<noteq> {}" "mask_bytes (first_children f) \<noteq> {}" for g
    using that path assms(1) tier_inv_child(2) [of first_inv first_children "root ix" "first_tier ix"]
    unfolding index_inv_def put_simps by (intro tier_inv_put) auto
  have put_second_ok: "index_inv (put_first (byte p 24) (put_second (byte p 16) g f) ix)"
    if g: "second_inv g" "mask_bytes (second_children g) \<noteq> {}" "mask_bytes (second_children s) \<noteq> {}" for g
  proof -
    have b: "byte p 16 \<in> mask_bytes (first_children f)"
      using g path tier_inv_child(2) [of second_inv second_children "first_children f" "first_child f"]
        invs(1) unfolding first_inv_def by auto
    with g invs(1) have "first_inv (put_second (byte p 16) g f)"
      unfolding first_inv_def put_simps by (intro tier_inv_put) simp_all
    with b show ?thesis by (intro put_first_ok) auto
  qed
  have put_third_ok: "index_inv (put_first (byte p 24) (put_second (byte p 16) (put_third (byte p 8) t' s) f) ix)"
    if g: "mask_bytes (prices t') \<noteq> {}"
  proof -
    have "mask_bytes (prices t) \<noteq> {}"
      using g invs(3) by (auto simp: t'_def third_inv_def mask_bytes_clear)
    then have b: "byte p 8 \<in> mask_bytes (second_children s)"
      using path tier_inv_child(2) [of third_inv prices "second_children s" "second_child s"]
        invs(2) unfolding second_inv_def by auto
    with g t' invs(2) have "second_inv (put_third (byte p 8) t' s)"
      unfolding second_inv_def put_simps by (intro tier_inv_put) simp_all
    with b show ?thesis by (intro put_second_ok) auto
  qed
  have s_bytes: "mask_bytes (second_children s') \<noteq> {} \<Longrightarrow> mask_bytes (second_children s) \<noteq> {}"
    using invs(2) by (auto simp: s'_def second_inv_def mask_bytes_clear dest: tier_inv_child(5))
  have f_bytes: "mask_bytes (first_children f') \<noteq> {} \<Longrightarrow> mask_bytes (first_children f) \<noteq> {}"
    using invs(1) by (auto simp: f'_def first_inv_def mask_bytes_clear dest: tier_inv_child(5))
  have "index_inv (ix\<lparr>first_tier := (first_tier ix)(byte p 24 := None),
      root := mask_clear (root ix) (byte p 24)\<rparr>)"
    using assms(1) by (simp add: index_inv_def tier_inv_drop)
  then show ?thesis
    using assms(3) index_remove_path [OF assms(2)] put_third_ok
      put_second_ok [OF s' _ s_bytes] put_first_ok [OF f' _ f_bytes]
    unfolding t'_def s'_def f'_def by (auto simp: mask_any_iff split: if_splits)
qed

lemma index_remove_prices:
  assumes "index_inv ix" "index_path ix (byte p 24) f (byte p 16) s (byte p 8) t"
    "index_remove ix p = Some ix'"
  shows "index_prices ix' = index_prices ix - {p}"
proof -
  note invs = index_path_invs [OF assms(1,2)]
  note path = assms(2) [unfolded index_path_def]
  note masks = invs(3) [unfolded third_inv_def]
    tier_inv_child(5) [OF invs(2) [unfolded second_inv_def]]
    tier_inv_child(5) [OF invs(1) [unfolded first_inv_def]]
  have t_only: "b = byte p 0"
    if "mask_bytes (prices t) \<subseteq> {byte p 0}" "b \<in> mask_bytes (prices t)" for b
    using that by blast
  have s_only: "b = byte p 8"
    if "mask_bytes (second_children s) \<subseteq> {byte p 8}" "second_child s b = Some u"
      "c \<in> mask_bytes (prices u)" for b c u
    using that invs(2) tier_inv_child(2) unfolding second_inv_def by fastforce
  have f_only: "b = byte p 16"
    if m: "mask_bytes (first_children f) \<subseteq> {byte p 16}" "first_child f b = Some u"
      "second_child u c = Some v" "d \<in> mask_bytes (prices v)" for b c d u v
  proof -
    have "second_inv u" using m(2) invs(1) tier_inv_child(1) unfolding first_inv_def by metis
    with m(3,4) have "c \<in> mask_bytes (second_children u)"
      using tier_inv_child(2) unfolding second_inv_def by fastforce
    with m(1,2) invs(1) show ?thesis using tier_inv_child(2) unfolding first_inv_def by fastforce
  qed
  show ?thesis
    using assms(3) path unfolding index_remove_path [OF assms(2)]
    by (auto simp: index_prices_def mask_any_iff mask_bytes_clear masks price_eq_iff [of _ p]
        split: if_splits) (metis option.inject t_only s_only f_only)+
qed

lemma index_prices_path:
  "p \<in> index_prices ix \<Longrightarrow> \<exists>f s t. index_path ix (byte p 24) f (byte p 16) s (byte p 8) t"
  by (auto simp: index_prices_def index_path_def)

lemma index_remove_correct:
  assumes "index_inv ix" "p \<in> index_prices ix"
  shows "\<exists>ix'. index_remove ix p = Some ix' \<and> index_inv ix' \<and> index_prices ix' = index_prices ix - {p}"
  using index_prices_path [OF assms(2)] index_remove_path index_remove_inv [OF assms(1)]
    index_remove_prices [OF assms(1)] by blast

subsection \<open>The best price\<close>

lemma price_le_by_bytes:
  assumes "byte p 24 \<le> byte q 24"
    and "byte p 24 = byte q 24 \<Longrightarrow> byte p 16 \<le> byte q 16"
    and "byte p 24 = byte q 24 \<Longrightarrow> byte p 16 = byte q 16 \<Longrightarrow> byte p 8 \<le> byte q 8"
    and "byte p 24 = byte q 24 \<Longrightarrow> byte p 16 = byte q 16 \<Longrightarrow> byte p 8 = byte q 8 \<Longrightarrow>
      byte p 0 \<le> byte q 0"
  shows "p \<le> q"
  using assms price_less_bytes [of p q] price_eq_iff [of p q] by (metis order_le_less)

text \<open>Every active price has its occupancy bit set at each tier.\<close>

lemma index_prices_masks:
  assumes "index_inv ix" "q \<in> index_prices ix"
  obtains f s t where "index_path ix (byte q 24) f (byte q 16) s (byte q 8) t"
    "byte q 24 \<in> mask_bytes (root ix)" "byte q 16 \<in> mask_bytes (first_children f)"
    "byte q 8 \<in> mask_bytes (second_children s)" "byte q 0 \<in> mask_bytes (prices t)"
proof -
  from assms(2) obtain f s t where path: "index_path ix (byte q 24) f (byte q 16) s (byte q 8) t"
    and b0: "byte q 0 \<in> mask_bytes (prices t)"
    by (auto simp: index_prices_def index_path_def)
  note invs = index_path_invs [OF assms(1) path] and path' = path [unfolded index_path_def]
  have b1: "byte q 8 \<in> mask_bytes (second_children s)"
    using tier_inv_child(2) [OF invs(2) [unfolded second_inv_def]] path' b0 by blast
  have b2: "byte q 16 \<in> mask_bytes (first_children f)"
    using tier_inv_child(2) [OF invs(1) [unfolded first_inv_def]] path' b1 by blast
  have "byte q 24 \<in> mask_bytes (root ix)"
    using tier_inv_child(2) [OF assms(1) [unfolded index_inv_def]] path' b2 by blast
  from that [OF path this b2 b1 b0] show ?thesis .
qed

lemma pick_in: "mask_inv m \<Longrightarrow> mask_bytes m \<noteq> {} \<Longrightarrow> pick reverse m \<in> mask_bytes m"
  using mask.extremum_in [of m reverse] by (auto simp: pick_def mask.nonempty_iff split: if_splits)

lemma pick_bound:
  "mask_inv m \<Longrightarrow> v \<in> mask_bytes m \<Longrightarrow> if reverse then v \<le> pick reverse m else pick reverse m \<le> v"
  using mask.extremum_bound [of m v reverse] by (auto simp: pick_def split: if_splits)

lemma tier_inv_pick:
  assumes "tier_inv I M m child" "mask_bytes m \<noteq> {}"
  obtains n where "child (pick reverse m) = Some n" "I n" "mask_bytes (M n) \<noteq> {}"
    "pick reverse m \<in> mask_bytes m"
  using pick_in [OF tier_inv_child(5) [OF assms(1)] assms(2), of reverse]
    tier_inv_child(1-3) [OF assms(1), of "pick reverse m"] that by blast

text \<open>The search follows the picked byte at every tier; the price it ends at is active.\<close>

lemma index_find_descends:
  assumes "index_inv ix" "mask_bytes (root ix) \<noteq> {}"
  obtains r f s t where "index_find ix reverse = Some (Some r)"
    "index_path ix (byte r 24) f (byte r 16) s (byte r 8) t"
    "byte r 24 = pick reverse (root ix)" "byte r 16 = pick reverse (first_children f)"
    "byte r 8 = pick reverse (second_children s)" "byte r 0 = pick reverse (prices t)"
    "r \<in> index_prices ix"
proof -
  obtain f where f: "first_tier ix (pick reverse (root ix)) = Some f" "first_inv f"
    "mask_bytes (first_children f) \<noteq> {}"
    using tier_inv_pick [OF assms(1) [unfolded index_inv_def] assms(2)] by metis
  obtain s where s: "first_child f (pick reverse (first_children f)) = Some s" "second_inv s"
    "mask_bytes (second_children s) \<noteq> {}"
    using tier_inv_pick [OF f(2) [unfolded first_inv_def] f(3)] by metis
  obtain t where t: "second_child s (pick reverse (second_children s)) = Some t" "third_inv t"
    "mask_bytes (prices t) \<noteq> {}"
    using tier_inv_pick [OF s(2) [unfolded second_inv_def] s(3)] by metis
  define r where "r = price_of_bytes (pick reverse (root ix)) (pick reverse (first_children f))
    (pick reverse (second_children s)) (pick reverse (prices t))"
  have "pick reverse (prices t) \<in> mask_bytes (prices t)"
    using t(2,3) by (simp add: pick_in third_inv_def)
  then have "r \<in> index_prices ix" using f s t by (simp add: r_def index_prices_def)
  moreover have "index_find ix reverse = Some (Some r)"
    using f s t assms(2) by (simp add: index_find_def Let_def mask_any_iff r_def)
  ultimately show ?thesis using that [of r f s t] f s t by (simp add: r_def index_path_def)
qed

lemma index_find_bound:
  assumes "index_inv ix" "index_find ix reverse = Some (Some r)" "q \<in> index_prices ix"
  shows "if reverse then q \<le> r else r \<le> q"
proof -
  obtain g u v where q: "index_path ix (byte q 24) g (byte q 16) u (byte q 8) v"
    "byte q 24 \<in> mask_bytes (root ix)" "byte q 16 \<in> mask_bytes (first_children g)"
    "byte q 8 \<in> mask_bytes (second_children u)" "byte q 0 \<in> mask_bytes (prices v)"
    using index_prices_masks [OF assms(1,3)] by metis
  then have "mask_bytes (root ix) \<noteq> {}" by auto
  from index_find_descends [OF assms(1) this, of reverse] assms(2) obtain f s t where
    r: "index_path ix (byte r 24) f (byte r 16) s (byte r 8) t"
    "byte r 24 = pick reverse (root ix)" "byte r 16 = pick reverse (first_children f)"
    "byte r 8 = pick reverse (second_children s)" "byte r 0 = pick reverse (prices t)"
    by (metis option.inject)
  note masks = tier_inv_child(5) [OF assms(1) [unfolded index_inv_def]]
    tier_inv_child(5) [OF index_path_invs(1) [OF assms(1) q(1), unfolded first_inv_def]]
    tier_inv_child(5) [OF index_path_invs(2) [OF assms(1) q(1), unfolded second_inv_def]]
    index_path_invs(3) [OF assms(1) q(1), unfolded third_inv_def]
  note bounds = pick_bound [OF masks(1) q(2), of reverse]
    pick_bound [OF masks(2) q(3), of reverse]
    pick_bound [OF masks(3) q(4), of reverse]
    pick_bound [OF masks(4) q(5), of reverse]
  have eqs: "byte r 24 = byte q 24 \<Longrightarrow> f = g"
    "byte r 24 = byte q 24 \<Longrightarrow> byte r 16 = byte q 16 \<Longrightarrow> s = u"
    "byte r 24 = byte q 24 \<Longrightarrow> byte r 16 = byte q 16 \<Longrightarrow> byte r 8 = byte q 8 \<Longrightarrow> t = v"
    using q(1) r(1) by (simp_all add: index_path_def)
  let ?le = "\<lambda>a b. if reverse then b \<le> a else a \<le> (b :: 8 word)"
  have le0: "?le (byte r 24) (byte q 24)"
    using bounds(1) q(2) r(2) by auto
  have le1: "?le (byte r 16) (byte q 16)" if "byte r 24 = byte q 24"
    using bounds(2) q(3) r(3) eqs(1) [OF that] by auto
  have le2: "?le (byte r 8) (byte q 8)" if "byte r 24 = byte q 24" "byte r 16 = byte q 16"
    using bounds(3) q(4) r(4) eqs(2) [OF that] by auto
  have le3: "?le (byte r 0) (byte q 0)"
    if "byte r 24 = byte q 24" "byte r 16 = byte q 16" "byte r 8 = byte q 8"
    using bounds(4) q(5) r(5) eqs(3) [OF that] by auto
  note le = le0 le1 le2 le3
  show ?thesis
  proof (cases reverse)
    case True
    then show ?thesis using le by (auto intro!: price_le_by_bytes [of q r])
  next
    case False
    then show ?thesis using le by (auto intro!: price_le_by_bytes [of r q])
  qed
qed

lemma index_root_empty_iff:
  assumes "index_inv ix"
  shows "mask_bytes (root ix) = {} \<longleftrightarrow> index_prices ix = {}"
proof
  assume "mask_bytes (root ix) = {}"
  then show "index_prices ix = {}" using index_prices_masks [OF assms] by blast
next
  assume "index_prices ix = {}"
  then show "mask_bytes (root ix) = {}" using index_find_descends [OF assms] by blast
qed

lemma index_find_correct:
  assumes "index_inv ix"
  shows "index_find ix reverse = Some
    (if index_prices ix = {} then None
     else Some (if reverse then Max (index_prices ix) else Min (index_prices ix)))"
proof (cases "index_prices ix = {}")
  case True
  then show ?thesis
    using index_root_empty_iff [OF assms] by (simp add: index_find_def mask_any_iff)
next
  case False
  then have "mask_bytes (root ix) \<noteq> {}" using index_root_empty_iff [OF assms] by simp
  from index_find_descends [OF assms this, of reverse] obtain r where
    r: "index_find ix reverse = Some (Some r)" "r \<in> index_prices ix" by metis
  have "r = (if reverse then Max (index_prices ix) else Min (index_prices ix))"
    using index_find_bound [OF assms r(1)] r(2)
    by (auto intro!: Max_eqI [symmetric] Min_eqI [symmetric])
  with r False show ?thesis by simp
qed

subsection \<open>The contract of a set of prices\<close>

text \<open>
  What the order book relies on: the operations keep the invariant and act on the set of active
  prices, an addition that throws leaves the set as it was, and the two searches return the
  extreme elements.
\<close>

locale price_set =
  fixes inv :: "'i \<Rightarrow> bool"
    and active :: "'i \<Rightarrow> price set"
    and empty :: 'i
    and add :: "'i \<Rightarrow> price \<Rightarrow> nat \<Rightarrow> ('i, unit) outcome"
    and remove :: "'i \<Rightarrow> price \<Rightarrow> 'i option"
    and find :: "'i \<Rightarrow> bool \<Rightarrow> price option option"
  assumes inv_empty: "inv empty" and active_empty: "active empty = {}"
    and add_sat: "inv ix \<Longrightarrow> outcome_sat
      (\<lambda>_ ix' _. inv ix' \<and> active ix' = insert p (active ix))
      (\<lambda>ix'. inv ix' \<and> active ix' = active ix) (add ix p k)"
    and add_returns: "3 \<le> k \<Longrightarrow> \<exists>ix' k'. add ix p k = Done () ix' k' \<and> k \<le> k' + 3"
    and remove_active: "inv ix \<Longrightarrow> p \<in> active ix \<Longrightarrow>
      \<exists>ix'. remove ix p = Some ix' \<and> inv ix' \<and> active ix' = active ix - {p}"
    and find_extreme: "inv ix \<Longrightarrow> find ix reverse = Some
      (if active ix = {} then None
       else Some (if reverse then Max (active ix) else Min (active ix)))"
begin

text \<open>The two facts about an addition in one: what it does, and how much of the budget it needs.\<close>

lemma add_sat_budget:
  assumes "inv ix"
  shows "outcome_sat
    (\<lambda>_ ix' k'. inv ix' \<and> active ix' = insert p (active ix) \<and> k \<le> k' + 3)
    (\<lambda>ix'. inv ix' \<and> active ix' = active ix \<and> k < 3) (add ix p k)"
proof (cases "3 \<le> k")
  case True
  then obtain ix' k' where "add ix p k = Done () ix' k'" "k \<le> k' + 3" using add_returns by blast
  with add_sat [OF assms, of p k] show ?thesis by simp
next
  case False
  with add_sat [OF assms, of p k] show ?thesis by (auto intro: outcome_sat_mono)
qed

lemma find_in:
  assumes "inv ix" "find ix reverse = Some (Some p)"
  shows "p \<in> active ix"
proof -
  from assms have ne: "active ix \<noteq> {}"
    and p: "p = (if reverse then Max (active ix) else Min (active ix))"
    by (auto simp: find_extreme split: if_splits)
  have "Max (active ix) \<in> active ix" "Min (active ix) \<in> active ix"
    by (rule Max_in [OF finite ne], rule Min_in [OF finite ne])
  with p show ?thesis by simp
qed

lemma find_best:
  "inv ix \<Longrightarrow> find ix reverse = Some (Some p) \<Longrightarrow> q \<in> active ix \<Longrightarrow>
    if reverse then q \<le> p else p \<le> q"
  by (auto simp: find_extreme split: if_splits)

lemma find_none_iff: "inv ix \<Longrightarrow> find ix reverse = Some None \<longleftrightarrow> active ix = {}"
  by (simp add: find_extreme)

lemma add_remove:
  assumes "inv ix" "p \<notin> active ix" "add ix p k = Done () ix' k'"
  shows "\<exists>ix''. remove ix' p = Some ix'' \<and> inv ix'' \<and> active ix'' = active ix"
  using add_sat [OF assms(1), of p k] remove_active [of ix' p] assms(2,3) by auto

end

interpretation price_index: price_set index_inv index_prices new_index index_add index_remove index_find
  by unfold_locales
    (use new_index_correct index_add_correct index_add_returns index_remove_correct
      index_find_correct in simp_all)

end
