(* ===== verification/Level_Queue.thy ===== *)
theory Level_Queue
  imports Price_Index "HOL-Library.Monad_Syntax"
begin

unbundle bit_operations_syntax

section \<open>The intrusive queue of a price level\<close>

text \<open>
  The state of \<^verbatim>\<open>OrderBook::Impl\<close> (\<^verbatim>\<open>src/book/order_book.cpp\<close>, lines 176
  to 264) and its pointer operations \<^verbatim>\<open>append\<close> and \<^verbatim>\<open>detach\<close>.

  Each node is owned by the hash map \<^verbatim>\<open>orders\<close> under its order id and each level by the
  map \<^verbatim>\<open>levels\<close> of its side under its price. The two maps are the store: a pointer to a
  node is the id that owns it, a pointer to a level the side's index with its price, and a null
  pointer is \<open>None\<close>. An operation that follows a pointer to nothing is \<open>None\<close>.
  A hash map is a finite map; its iteration order, which nothing in the sources observes, is not
  modelled.
\<close>

subsection \<open>Nodes, levels and the book\<close>

type_synonym level_ref = "nat \<times> price"

record order_node =
  node_id :: order_id
  node_side :: side
  node_price :: price
  node_quantity :: quantity
  node_level :: "level_ref option"
  node_previous :: "order_id option"
  node_next :: "order_id option"

record price_level =
  level_price :: price
  level_quantity :: u64
  level_order_count :: size_t
  level_head :: "order_id option"
  level_tail :: "order_id option"

record order_book =
  levels :: "nat \<Rightarrow> (price, price_level) fmap"
  indices :: "nat \<Rightarrow> price_index"
  orders :: "(order_id, order_node) fmap"

definition new_level :: "price \<Rightarrow> price_level" where
  "new_level price = \<lparr>level_price = price, level_quantity = 0, level_order_count = 0,
     level_head = None, level_tail = None\<rparr>"

definition new_book :: order_book where
  "new_book = \<lparr>levels = (\<lambda>_. fmempty), indices = (\<lambda>_. new_index), orders = fmempty\<rparr>"

subsection \<open>The store\<close>

definition get_order :: "order_book \<Rightarrow> order_id \<Rightarrow> order_node option" where
  "get_order b x = fmlookup (orders b) x"

definition set_order :: "order_book \<Rightarrow> order_id \<Rightarrow> order_node \<Rightarrow> order_book" where
  "set_order b x n = b\<lparr>orders := fmupd x n (orders b)\<rparr>"

definition get_level :: "order_book \<Rightarrow> level_ref \<Rightarrow> price_level option" where
  "get_level b lr = fmlookup (levels b (fst lr)) (snd lr)"

definition set_level :: "order_book \<Rightarrow> level_ref \<Rightarrow> price_level \<Rightarrow> order_book" where
  "set_level b lr l =
     b\<lparr>levels := (levels b)(fst lr := fmupd (snd lr) l (levels b (fst lr)))\<rparr>"

definition update_order ::
  "order_book \<Rightarrow> order_id \<Rightarrow> (order_node \<Rightarrow> order_node) \<Rightarrow> order_book option" where
  "update_order b x f = (case get_order b x of None \<Rightarrow> None | Some n \<Rightarrow> Some (set_order b x (f n)))"

definition update_level ::
  "order_book \<Rightarrow> level_ref \<Rightarrow> (price_level \<Rightarrow> price_level) \<Rightarrow> order_book option" where
  "update_level b lr f =
     (case get_level b lr of None \<Rightarrow> None | Some l \<Rightarrow> Some (set_level b lr (f l)))"

subsection \<open>append and detach\<close>

definition append_order :: "order_book \<Rightarrow> level_ref \<Rightarrow> order_id \<Rightarrow> order_book option" where
  "append_order b lr x = do {
     level \<leftarrow> get_level b lr;
     b \<leftarrow> update_order b x (\<lambda>n. n\<lparr>node_level := Some lr, node_previous := level_tail level,
            node_next := None\<rparr>);
     b \<leftarrow> (case level_tail level of
             Some t \<Rightarrow> update_order b t (\<lambda>n. n\<lparr>node_next := Some x\<rparr>)
           | None \<Rightarrow> update_level b lr (\<lambda>l. l\<lparr>level_head := Some x\<rparr>));
     order \<leftarrow> get_order b x;
     update_level b lr (\<lambda>l. l\<lparr>level_tail := Some x,
       level_quantity := level_quantity l + ucast (node_quantity order),
       level_order_count := level_order_count l + 1\<rparr>)
   }"

definition detach_order :: "order_book \<Rightarrow> level_ref \<Rightarrow> order_id \<Rightarrow> order_book option" where
  "detach_order b lr x = do {
     order \<leftarrow> get_order b x;
     b \<leftarrow> (case node_previous order of
             Some p \<Rightarrow> update_order b p (\<lambda>n. n\<lparr>node_next := node_next order\<rparr>)
           | None \<Rightarrow> update_level b lr (\<lambda>l. l\<lparr>level_head := node_next order\<rparr>));
     order \<leftarrow> get_order b x;
     b \<leftarrow> (case node_next order of
             Some y \<Rightarrow> update_order b y (\<lambda>n. n\<lparr>node_previous := node_previous order\<rparr>)
           | None \<Rightarrow> update_level b lr (\<lambda>l. l\<lparr>level_tail := node_previous order\<rparr>));
     b \<leftarrow> update_order b x (\<lambda>n. n\<lparr>node_previous := None, node_next := None, node_level := None\<rparr>);
     update_level b lr (\<lambda>l. l\<lparr>level_order_count := level_order_count l - 1\<rparr>)
   }"

subsection \<open>Reading and writing the store\<close>

lemma get_set_order [simp]:
  "get_order (set_order b x n) y = (if x = y then Some n else get_order b y)"
  "get_order (set_level b lr l) y = get_order b y"
  by (simp_all add: get_order_def set_order_def set_level_def)

lemma get_set_level [simp]:
  "get_level (set_level b lr l) lr' = (if lr = lr' then Some l else get_level b lr')"
  "get_level (set_order b x n) lr' = get_level b lr'"
  by (auto simp: get_level_def set_order_def set_level_def prod_eq_iff)

lemma set_store_indices [simp]:
  "indices (set_order b x n) = indices b" "indices (set_level b lr l) = indices b"
  by (simp_all add: set_order_def set_level_def)

lemma new_book_store [simp]:
  "get_order new_book x = None" "get_level new_book lr = None" "indices new_book i = new_index"
  by (simp_all add: new_book_def get_order_def get_level_def)

lemma update_order_Some [simp]:
  "get_order b x = Some n \<Longrightarrow> update_order b x f = Some (set_order b x (f n))"
  by (simp add: update_order_def)

lemma update_level_Some [simp]:
  "get_level b lr = Some l \<Longrightarrow> update_level b lr f = Some (set_level b lr (f l))"
  by (simp add: update_level_def)

subsection \<open>Doubly linked segments\<close>

text \<open>
  \<open>segment ord lr p xs q\<close>: the nodes \<open>xs\<close> are linked in this order at level
  \<open>lr\<close>, the first one's \<^verbatim>\<open>previous\<close> being \<open>p\<close> and the last one's
  \<^verbatim>\<open>next\<close> being \<open>q\<close>.
\<close>

definition front_of :: "'a list \<Rightarrow> 'a option \<Rightarrow> 'a option" where
  "front_of xs q = (case xs of [] \<Rightarrow> q | x # _ \<Rightarrow> Some x)"

definition back_of :: "'a list \<Rightarrow> 'a option \<Rightarrow> 'a option" where
  "back_of xs p = (if xs = [] then p else Some (last xs))"

fun segment ::
  "(order_id \<Rightarrow> order_node option) \<Rightarrow> level_ref \<Rightarrow> order_id option \<Rightarrow> order_id list \<Rightarrow>
     order_id option \<Rightarrow> bool" where
  "segment ord lr p [] q \<longleftrightarrow> True"
| "segment ord lr p (x # xs) q \<longleftrightarrow>
     (\<exists>n. ord x = Some n \<and> node_level n = Some lr \<and> node_previous n = p \<and>
        node_next n = front_of xs q) \<and>
     segment ord lr (Some x) xs q"

lemma front_of_simps [simp]:
  "front_of [] q = q" "front_of (x # xs) q = Some x" "front_of (xs @ ys) q = front_of xs (front_of ys q)"
  by (auto simp: front_of_def split: list.splits)

lemma back_of_simps [simp]:
  "back_of [] p = p" "back_of (x # xs) p = back_of xs (Some x)"
  "back_of (xs @ ys) p = back_of ys (back_of xs p)"
  by (auto simp: back_of_def)

lemma segment_append [simp]:
  "segment ord lr p (xs @ ys) q \<longleftrightarrow>
     segment ord lr p xs (front_of ys q) \<and> segment ord lr (back_of xs p) ys q"
  by (induction xs arbitrary: p) auto

lemma segment_cong:
  "(\<And>x. x \<in> set xs \<Longrightarrow> ord x = ord' x) \<Longrightarrow> segment ord lr p xs q = segment ord' lr p xs q"
  by (induction xs arbitrary: p) auto

lemma segment_member: "segment ord lr p xs q \<Longrightarrow> x \<in> set xs \<Longrightarrow> \<exists>n. ord x = Some n \<and> node_level n = Some lr"
  by (induction xs arbitrary: p) (auto split: option.splits)

lemma segment_set_order [simp]:
  "x \<notin> set xs \<Longrightarrow> segment (get_order (set_order b x n)) lr p xs q = segment (get_order b) lr p xs q"
  by (rule segment_cong) auto

lemma segment_set_level [simp]:
  "segment (get_order (set_level b lr' l)) lr p xs q = segment (get_order b) lr p xs q"
  by (rule segment_cong) simp

subsection \<open>What the two operations do\<close>

text \<open>
  A level represents a queue of ids: its head and tail are the ends of the list, its count the
  length (modulo the width of \<^verbatim>\<open>size_t\<close>), and the nodes are linked in order.
\<close>

definition level_links ::
  "(order_id \<Rightarrow> order_node option) \<Rightarrow> level_ref \<Rightarrow> order_id list \<Rightarrow> price_level \<Rightarrow> bool" where
  "level_links ord lr xs l \<longleftrightarrow> level_head l = front_of xs None \<and> level_tail l = back_of xs None \<and>
     level_order_count l = of_nat (length xs) \<and> segment ord lr None xs None"

definition node_data :: "order_node \<Rightarrow> order_id \<times> side \<times> price \<times> quantity" where
  "node_data n = (node_id n, node_side n, node_price n, node_quantity n)"

text \<open>
  What a queue operation at level \<open>lr\<close> on the nodes \<open>S\<close> leaves alone: the index, the
  other levels, the other nodes, and in every node all but its three pointers.
\<close>

definition queue_step :: "level_ref \<Rightarrow> order_id set \<Rightarrow> order_book \<Rightarrow> order_book \<Rightarrow> bool" where
  "queue_step lr S b b' \<longleftrightarrow> indices b' = indices b \<and>
     (\<forall>lr'. lr' \<noteq> lr \<longrightarrow> get_level b' lr' = get_level b lr') \<and>
     (\<forall>y. y \<notin> S \<longrightarrow> get_order b' y = get_order b y) \<and>
     (\<forall>y. map_option node_data (get_order b' y) = map_option node_data (get_order b y))"

lemma node_data_update [simp]:
  "node_data (n\<lparr>node_level := a\<rparr>) = node_data n" "node_data (n\<lparr>node_previous := p\<rparr>) = node_data n"
  "node_data (n\<lparr>node_next := q\<rparr>) = node_data n"
  by (simp_all add: node_data_def)

lemma append_order_correct:
  assumes "get_level b lr = Some l" "level_links (get_order b) lr xs l"
    "get_order b x = Some n" "x \<notin> set xs" "distinct xs"
  shows "\<exists>b' l'. append_order b lr x = Some b' \<and> get_level b' lr = Some l' \<and>
    level_links (get_order b') lr (xs @ [x]) l' \<and> level_price l' = level_price l \<and>
    level_quantity l' = level_quantity l + ucast (node_quantity n) \<and>
    queue_step lr (insert x (set xs)) b b'"
proof (cases xs rule: rev_cases)
  case Nil
  with assms show ?thesis by (auto simp: append_order_def level_links_def queue_step_def)
next
  case (snoc ys t)
  with assms obtain tn where "get_order b t = Some tn" "t \<noteq> x" "x \<notin> set ys" "t \<notin> set ys"
    by (auto simp: level_links_def)
  with assms snoc show ?thesis
    by (auto simp: append_order_def level_links_def queue_step_def)
qed

lemma detach_order_correct:
  assumes "get_level b lr = Some l" "level_links (get_order b) lr (as @ x # bs) l"
    "distinct (as @ x # bs)"
  shows "\<exists>b' l' n'. detach_order b lr x = Some b' \<and> get_level b' lr = Some l' \<and>
    level_links (get_order b') lr (as @ bs) l' \<and> level_price l' = level_price l \<and>
    level_quantity l' = level_quantity l \<and>
    get_order b' x = Some n' \<and> node_level n' = None \<and>
    queue_step lr (set (as @ x # bs)) b b'"
proof -
  obtain n where n: "get_order b x = Some n" using assms(2) by (auto simp: level_links_def)
  show ?thesis
  proof (cases as rule: rev_cases)
    case Nil
    show ?thesis
    proof (cases bs)
      case Nil
      with \<open>as = []\<close> assms n show ?thesis
        by (auto simp: detach_order_def level_links_def queue_step_def)
    next
      case (Cons y ys)
      with \<open>as = []\<close> assms n show ?thesis
        by (auto simp: detach_order_def level_links_def queue_step_def)
    qed
  next
    case (snoc zs z)
    then obtain zn where z: "get_order b z = Some zn" using assms(2) by (auto simp: level_links_def)
    show ?thesis
    proof (cases bs)
      case Nil
      with snoc z assms n show ?thesis
        by (auto simp: detach_order_def level_links_def queue_step_def)
    next
      case (Cons y ys)
      with snoc z assms n show ?thesis
        by (auto simp: detach_order_def level_links_def queue_step_def)
    qed
  qed
qed

end
