(* ===== verification/Order_Book.thy ===== *)
theory Order_Book
  imports Level_Queue
begin

unbundle bit_operations_syntax

section \<open>The order book\<close>

text \<open>
  The operations of the class \<^verbatim>\<open>OrderBook\<close>
  (\<^verbatim>\<open>src/book/order_book.cpp\<close>, lines 202 to 453). An operation that may allocate
  takes the allocation budget and returns an outcome; one that does not returns an option, whose
  \<open>None\<close> is undefined behaviour. Every guard, early return and \<^verbatim>\<open>catch\<close>
  block of the source is a branch of its definition.
\<close>

record order_view =
  view_id :: order_id
  view_side :: side
  view_price :: price
  view_quantity :: quantity

record depth =
  depth_price :: price
  depth_quantity :: u64
  depth_order_count :: size_t

subsection \<open>Helpers of the implementation\<close>

definition of_option :: "('a \<times> 's) option \<Rightarrow> nat \<Rightarrow> ('s, 'a) outcome" where
  "of_option r k = (case r of None \<Rightarrow> Undefined | Some (v, s) \<Rightarrow> Done v s k)"

definition set_index :: "order_book \<Rightarrow> nat \<Rightarrow> price_index \<Rightarrow> order_book" where
  "set_index b i ix = b\<lparr>indices := (indices b)(i := ix)\<rparr>"

definition drop_order :: "order_book \<Rightarrow> order_id \<Rightarrow> order_book" where
  "drop_order b x = b\<lparr>orders := fmdrop x (orders b)\<rparr>"

definition drop_level :: "order_book \<Rightarrow> level_ref \<Rightarrow> order_book" where
  "drop_level b lr = b\<lparr>levels := (levels b)(fst lr := fmdrop (snd lr) (levels b (fst lr)))\<rparr>"

text \<open>
  A missing level is made by three requests for memory: the level, the node of the hash map, and the
  bucket array the map grows into.
\<close>

definition get_or_create_level ::
  "order_book \<Rightarrow> side \<Rightarrow> price \<Rightarrow> nat \<Rightarrow> (order_book, level_ref) outcome" where
  "get_or_create_level b side price k =
     (let lr = (side_index side, price) in
      case get_level b lr of
        Some _ \<Rightarrow> Done lr b k
      | None \<Rightarrow>
          bind_outcome (allocate b k) (\<lambda>_ b k.
          bind_outcome (allocate b k) (\<lambda>_ b k.
          bind_outcome (allocate b k) (\<lambda>_ b k. Done lr (set_level b lr (new_level price)) k))))"

text \<open>\<^verbatim>\<open>level.quantity -= q\<close>\<close>

definition reduce_level :: "quantity \<Rightarrow> price_level \<Rightarrow> price_level" where
  "reduce_level q l = l\<lparr>level_quantity := level_quantity l - ucast q\<rparr>"

text \<open>The two statements that retire an empty level: out of the index, then out of the map.\<close>

definition retire_level :: "order_book \<Rightarrow> side \<Rightarrow> price \<Rightarrow> order_book option" where
  "retire_level b side price = do {
     ix \<leftarrow> index_remove (indices b (side_index side)) price;
     Some (drop_level (set_index b (side_index side) ix) (side_index side, price))
   }"

definition index_add_at :: "order_book \<Rightarrow> side \<Rightarrow> price \<Rightarrow> nat \<Rightarrow> (order_book, unit) outcome" where
  "index_add_at b side price k =
     lift_outcome (set_index b (side_index side)) (index_add (indices b (side_index side)) price k)"

definition erase_node :: "order_book \<Rightarrow> order_id \<Rightarrow> order_book option" where
  "erase_node b x = do {
     order \<leftarrow> get_order b x;
     lr \<leftarrow> node_level order;
     b \<leftarrow> update_level b lr (reduce_level (node_quantity order));
     b \<leftarrow> detach_order b lr x;
     level \<leftarrow> get_level b lr;
     b \<leftarrow> (if level_order_count level = 0 then retire_level b (node_side order) (node_price order)
           else Some b);
     Some (drop_order b x)
   }"

subsection \<open>The operations\<close>

text \<open>
  \<^verbatim>\<open>emplace\<close> makes its node first, inserts it unless the key is present, and
  may need a larger bucket array to do so.
\<close>

definition emplace_order ::
  "order_book \<Rightarrow> order_id \<Rightarrow> order_node \<Rightarrow> nat \<Rightarrow> (order_book, bool) outcome" where
  "emplace_order b x n k =
     bind_outcome (allocate b k) (\<lambda>_ b k.
       if get_order b x \<noteq> None then Done False b k
       else bind_outcome (allocate b k) (\<lambda>_ b k. Done True (set_order b x n) k))"

definition catch_erase ::
  "order_id \<Rightarrow> (order_book, 'a) outcome \<Rightarrow> (order_book, 'a) outcome" where
  "catch_erase x r = (case r of Thrown b \<Rightarrow> Thrown (drop_order b x) | _ \<Rightarrow> r)"

definition book_add ::
  "order_book \<Rightarrow> order_id \<Rightarrow> side \<Rightarrow> price \<Rightarrow> quantity \<Rightarrow> nat \<Rightarrow> (order_book, bool) outcome" where
  "book_add b x side price quantity k =
     (if quantity = 0 \<or> get_order b x \<noteq> None then Done False b k
      else
        bind_outcome (get_or_create_level b side price k) (\<lambda>lr b k.
        bind_outcome (allocate b k) (\<lambda>_ b k.
        let order = \<lparr>node_id = x, node_side = side, node_price = price, node_quantity = quantity,
                     node_level = None, node_previous = None, node_next = None\<rparr> in
        bind_outcome (emplace_order b x order k) (\<lambda>did_insert b k.
          if \<not> did_insert then Done False b k
          else
            case get_level b lr of
              None \<Rightarrow> Undefined
            | Some level \<Rightarrow>
                let was_empty = (level_order_count level = 0) in
                bind_outcome
                  (catch_erase x (if was_empty then index_add_at b side price k else Done () b k))
                  (\<lambda>_ b k. of_option (map_option (Pair True) (append_order b lr x)) k)))))"

definition book_cancel :: "order_book \<Rightarrow> order_id \<Rightarrow> quantity \<Rightarrow> (bool \<times> order_book) option" where
  "book_cancel b x quantity =
     (case get_order b x of
        None \<Rightarrow> Some (False, b)
      | Some found \<Rightarrow>
          if quantity = 0 \<or> quantity > node_quantity found then Some (False, b)
          else if quantity = node_quantity found then map_option (Pair True) (erase_node b x)
          else do {
            b \<leftarrow> update_order b x (\<lambda>n. n\<lparr>node_quantity := node_quantity n - quantity\<rparr>);
            order \<leftarrow> get_order b x;
            lr \<leftarrow> node_level order;
            b \<leftarrow> update_level b lr (reduce_level quantity);
            Some (True, b)
          })"

definition book_erase :: "order_book \<Rightarrow> order_id \<Rightarrow> (bool \<times> order_book) option" where
  "book_erase b x =
     (case get_order b x of
        None \<Rightarrow> Some (False, b)
      | Some _ \<Rightarrow> map_option (Pair True) (erase_node b x))"

definition book_execute :: "order_book \<Rightarrow> order_id \<Rightarrow> quantity \<Rightarrow> (bool \<times> order_book) option" where
  "book_execute b x quantity = book_cancel b x quantity"

text \<open>The branch of \<^verbatim>\<open>modify\<close> that keeps the place in the queue.\<close>

definition modify_in_place ::
  "order_book \<Rightarrow> order_id \<Rightarrow> level_ref \<Rightarrow> quantity \<Rightarrow> (bool \<times> order_book) option" where
  "modify_in_place b x old_level new_quantity = do {
     order \<leftarrow> get_order b x;
     b \<leftarrow> update_level b old_level (reduce_level (node_quantity order - new_quantity));
     b \<leftarrow> update_order b x (\<lambda>n. n\<lparr>node_quantity := new_quantity\<rparr>);
     Some (True, b)
   }"

text \<open>Its branch that moves the order to the tail of the new level, after the index is ready.\<close>

definition modify_move ::
  "order_book \<Rightarrow> order_id \<Rightarrow> level_ref \<Rightarrow> level_ref \<Rightarrow> price \<Rightarrow> quantity \<Rightarrow>
     (bool \<times> order_book) option" where
  "modify_move b x old_level new_lr new_price new_quantity = do {
     order \<leftarrow> get_order b x;
     b \<leftarrow> update_level b old_level (reduce_level (node_quantity order));
     b \<leftarrow> detach_order b old_level x;
     level \<leftarrow> get_level b old_level;
     b \<leftarrow> (if level_order_count level = 0 \<and> old_level \<noteq> new_lr
           then retire_level b (node_side order) (node_price order) else Some b);
     b \<leftarrow> update_order b x (\<lambda>n. n\<lparr>node_price := new_price, node_quantity := new_quantity\<rparr>);
     b \<leftarrow> append_order b new_lr x;
     Some (True, b)
   }"

definition book_modify ::
  "order_book \<Rightarrow> order_id \<Rightarrow> price \<Rightarrow> quantity \<Rightarrow> nat \<Rightarrow> (order_book, bool) outcome" where
  "book_modify b x new_price new_quantity k =
     (case get_order b x of
        None \<Rightarrow> Done False b k
      | Some order \<Rightarrow>
          if new_quantity = 0 then Done False b k
          else
            case node_level order of
              None \<Rightarrow> Undefined
            | Some old_level \<Rightarrow>
                if new_price = node_price order \<and> new_quantity \<le> node_quantity order
                then of_option (modify_in_place b x old_level new_quantity) k
                else
                  bind_outcome (get_or_create_level b (node_side order) new_price k) (\<lambda>new_lr b k.
                    case get_level b new_lr of
                      None \<Rightarrow> Undefined
                    | Some level \<Rightarrow>
                        bind_outcome
                          (if new_lr \<noteq> old_level \<and> level_order_count level = 0
                           then index_add_at b (node_side order) new_price k else Done () b k)
                          (\<lambda>_ b k.
                            of_option (modify_move b x old_level new_lr new_price new_quantity) k)))"

definition book_replace ::
  "order_book \<Rightarrow> order_id \<Rightarrow> order_id \<Rightarrow> price \<Rightarrow> quantity \<Rightarrow> nat \<Rightarrow> (order_book, bool) outcome" where
  "book_replace b old_id new_id new_price new_quantity k =
     (case get_order b old_id of
        None \<Rightarrow> Done False b k
      | Some old_order \<Rightarrow>
          if new_quantity = 0 then Done False b k
          else if old_id = new_id then book_modify b old_id new_price new_quantity k
          else if get_order b new_id \<noteq> None then Done False b k
          else
            bind_outcome (book_add b new_id (node_side old_order) new_price new_quantity k)
              (\<lambda>added b k. if \<not> added then Done False b k else of_option (book_erase b old_id) k))"

definition book_contains :: "order_book \<Rightarrow> order_id \<Rightarrow> bool" where
  "book_contains b x \<longleftrightarrow> get_order b x \<noteq> None"

definition view_of :: "order_node \<Rightarrow> order_view" where
  "view_of n = \<lparr>view_id = node_id n, view_side = node_side n, view_price = node_price n,
     view_quantity = node_quantity n\<rparr>"

definition book_order :: "order_book \<Rightarrow> order_id \<Rightarrow> order_view option" where
  "book_order b x = map_option view_of (get_order b x)"

definition book_order_count :: "order_book \<Rightarrow> size_t" where
  "book_order_count b = of_nat (fcard (fmdom (orders b)))"

definition best_bid :: "order_book \<Rightarrow> price option option" where
  "best_bid b = index_maximum (indices b (side_index Buy))"

definition best_ask :: "order_book \<Rightarrow> price option option" where
  "best_ask b = index_minimum (indices b (side_index Sell))"

definition book_depth :: "order_book \<Rightarrow> side \<Rightarrow> price \<Rightarrow> depth option" where
  "book_depth b side price =
     (case get_level b (side_index side, price) of
        None \<Rightarrow> None
      | Some level \<Rightarrow>
          if level_order_count level = 0 then None
          else Some \<lparr>depth_price = level_price level, depth_quantity = level_quantity level,
                     depth_order_count = level_order_count level\<rparr>)"

definition best_bid_depth :: "order_book \<Rightarrow> depth option option" where
  "best_bid_depth b = do {
     price \<leftarrow> best_bid b;
     Some (case price of Some p \<Rightarrow> book_depth b Buy p | None \<Rightarrow> None)
   }"

definition best_ask_depth :: "order_book \<Rightarrow> depth option option" where
  "best_ask_depth b = do {
     price \<leftarrow> best_ask b;
     Some (case price of Some p \<Rightarrow> book_depth b Sell p | None \<Rightarrow> None)
   }"

text \<open>The outer option is a dangling head pointer.\<close>

definition front_order :: "order_book \<Rightarrow> side \<Rightarrow> price \<Rightarrow> order_view option option" where
  "front_order b side price =
     (case get_level b (side_index side, price) of
        None \<Rightarrow> Some None
      | Some level \<Rightarrow>
          (case level_head level of
             None \<Rightarrow> Some None
           | Some x \<Rightarrow> do {
               order \<leftarrow> get_order b x;
               Some (Some (view_of order))
             }))"

definition book_clear :: "order_book \<Rightarrow> order_book" where
  "book_clear b = b\<lparr>orders := fmempty, levels := (levels b)(0 := fmempty, 1 := fmempty),
     indices := (indices b)(0 := index_reset (indices b 0), 1 := index_reset (indices b 1))\<rparr>"

subsection \<open>Moves\<close>

text \<open>
  An object of the class owns its implementation, and nothing after it has been moved from: \<open>None\<close>,
  which every other operation must not meet. A moved-to object gives up what it owned. Both return the
  target and the source.
\<close>

definition book_move_construct :: "order_book option \<Rightarrow> order_book option \<times> order_book option" where
  "book_move_construct source = (source, None)"

definition book_move_assign ::
  "order_book option \<Rightarrow> order_book option \<Rightarrow> order_book option \<times> order_book option" where
  "book_move_assign target source = (source, None)"

end
