(* ===== verification/Book_View.thy ===== *)
theory Book_View
  imports Order_Book
begin

unbundle bit_operations_syntax

section \<open>The abstract book and the refinement relation\<close>

text \<open>
  What an order book promises, without its data structures: the resting orders by id, and for
  every side and price the queue of ids in time priority. \<open>book_state\<close> relates the
  implementation's state to it; the lemmas of this theory carry it through the pointer operations
  the public operations are made of.
\<close>

subsection \<open>The abstract book\<close>

record resting_order =
  ro_side :: side
  ro_price :: price
  ro_quantity :: quantity

record market =
  resting :: "order_id \<Rightarrow> resting_order option"
  queue :: "side \<Rightarrow> price \<Rightarrow> order_id list"

definition empty_market :: market where
  "empty_market = \<lparr>resting = (\<lambda>_. None), queue = (\<lambda>_ _. [])\<rparr>"

definition rest_order :: "order_id \<Rightarrow> resting_order \<Rightarrow> market \<Rightarrow> market" where
  "rest_order x od m =
     \<lparr>resting = (resting m)(x \<mapsto> od),
      queue = (\<lambda>s p. if s = ro_side od \<and> p = ro_price od then queue m s p @ [x] else queue m s p)\<rparr>"

definition remove_order :: "order_id \<Rightarrow> market \<Rightarrow> market" where
  "remove_order x m =
     \<lparr>resting = (resting m)(x := None), queue = (\<lambda>s p. remove1 x (queue m s p))\<rparr>"

definition resize_order :: "order_id \<Rightarrow> quantity \<Rightarrow> market \<Rightarrow> market" where
  "resize_order x q m =
     m\<lparr>resting := (resting m)(x := map_option (\<lambda>od. od\<lparr>ro_quantity := q\<rparr>) (resting m x))\<rparr>"

text \<open>
  Each queue holds exactly the resting orders of its side and price, once each, and every resting
  order has a quantity.
\<close>

definition market_inv :: "market \<Rightarrow> bool" where
  "market_inv m \<longleftrightarrow>
     (\<forall>s p. distinct (queue m s p)) \<and>
     (\<forall>s p x. x \<in> set (queue m s p) \<longleftrightarrow>
        (\<exists>od. resting m x = Some od \<and> ro_side od = s \<and> ro_price od = p)) \<and>
     (\<forall>x od. resting m x = Some od \<longrightarrow> ro_quantity od \<noteq> 0)"

lemma market_inv_D:
  assumes "market_inv m"
  shows "distinct (queue m s p)"
    and "x \<in> set (queue m s p) \<longleftrightarrow> (\<exists>od. resting m x = Some od \<and> ro_side od = s \<and> ro_price od = p)"
    and "resting m x = Some od \<Longrightarrow> ro_quantity od \<noteq> 0"
  using assms by (auto simp: market_inv_def)

lemma empty_market_inv [simp]: "market_inv empty_market"
  by (simp add: market_inv_def empty_market_def)

lemma rest_order_inv:
  assumes "market_inv m" "resting m x = None" "ro_quantity od \<noteq> 0"
  shows "market_inv (rest_order x od m)"
  using assms by (auto simp: market_inv_def rest_order_def)

lemma remove_order_inv:
  assumes "market_inv m"
  shows "market_inv (remove_order x m)"
  using assms by (auto simp: market_inv_def remove_order_def)

lemma resize_order_inv:
  assumes "market_inv m" "q \<noteq> 0"
  shows "market_inv (resize_order x q m)"
  using assms by (auto simp: market_inv_def resize_order_def)

text \<open>The total quantity of a queue, at the width of the level's counter.\<close>

definition displayed :: "(order_id \<Rightarrow> resting_order option) \<Rightarrow> order_id list \<Rightarrow> u64" where
  "displayed R xs = (\<Sum>x\<leftarrow>xs. case R x of None \<Rightarrow> 0 | Some od \<Rightarrow> ucast (ro_quantity od))"

lemma displayed_simps [simp]:
  "displayed R [] = 0"
  "displayed R (x # xs) = (case R x of None \<Rightarrow> 0 | Some od \<Rightarrow> ucast (ro_quantity od)) + displayed R xs"
  "displayed R (xs @ ys) = displayed R xs + displayed R ys"
  by (simp_all add: displayed_def)

lemma displayed_cong:
  "(\<And>x. x \<in> set xs \<Longrightarrow> R x = R' x) \<Longrightarrow> displayed R xs = displayed R' xs"
  by (induction xs) simp_all

lemma displayed_remove1:
  assumes "x \<in> set xs" "R x = Some od" "distinct xs"
  shows "displayed (R(x := r)) (remove1 x xs) = displayed R xs - ucast (ro_quantity od)"
proof -
  have "displayed R xs = displayed R (remove1 x xs) + ucast (ro_quantity od)"
    using assms by (induction xs) (auto simp: algebra_simps)
  moreover have "displayed (R(x := r)) (remove1 x xs) = displayed R (remove1 x xs)"
    using assms(3) by (intro displayed_cong) auto
  ultimately show ?thesis by simp
qed

lemma displayed_update:
  assumes "x \<in> set xs" "R x = Some od" "distinct xs"
  shows "displayed (R(x \<mapsto> od')) xs =
    displayed R xs - ucast (ro_quantity od) + ucast (ro_quantity od')"
  using assms
proof (induction xs)
  case (Cons y ys)
  show ?case
  proof (cases "y = x")
    case True
    with Cons.prems have "displayed (R(x \<mapsto> od')) ys = displayed R ys"
      by (intro displayed_cong) auto
    with True Cons.prems show ?thesis by (simp add: fun_upd_same del: fun_upd_apply)
  next
    case False
    with Cons show ?thesis by (simp add: algebra_simps)
  qed
qed simp

text \<open>A queue of distinct 64-bit ids that misses one is shorter than the width of its counter.\<close>

lemma length_lt_size:
  fixes xs :: "order_id list"
  assumes "distinct xs" "x \<notin> set xs"
  shows "length xs < 2 ^ 64"
proof -
  have "card (set xs) < card (UNIV :: order_id set)"
    using assms(2) by (intro psubset_card_mono) (auto simp: finite)
  then show ?thesis using assms(1) by (simp add: distinct_card card_word)
qed

lemma count_zero_iff:
  fixes xs :: "order_id list"
  assumes "distinct xs" "x \<notin> set xs"
  shows "(of_nat (length xs) :: size_t) = 0 \<longleftrightarrow> xs = []"
  using length_lt_size [OF assms]
  by (auto simp: word_of_nat_eq_0_iff dest: nat_dvd_not_less)

lemma unat_ucast_quantity [simp]: "unat (ucast q :: u64) = unat q" for q :: quantity
proof -
  have "unat q < 2 ^ 64" using unsigned_less [of q, where 'a = nat] by simp
  then have "take_bit 64 (unat q) = unat q" by (simp only: take_bit_nat_eq_self)
  then show ?thesis by (simp add: unsigned_ucast_eq)
qed

lemma ucast_diff: "q \<le> r \<Longrightarrow> (ucast (r - q) :: u64) = ucast r - ucast q" for q r :: quantity
proof -
  assume le: "q \<le> r"
  then have ul: "ucast q \<le> (ucast r :: u64)" by (simp add: word_le_nat_alt)
  show ?thesis
    by (rule unsigned_word_eqI [where 'a = nat]) (simp add: unat_sub [OF le] unat_sub [OF ul])
qed

subsection \<open>The refinement relation\<close>

definition resting_of :: "order_node \<Rightarrow> resting_order" where
  "resting_of n = \<lparr>ro_side = node_side n, ro_price = node_price n, ro_quantity = node_quantity n\<rparr>"

lemma resting_of_simps [simp]:
  "ro_side (resting_of n) = node_side n" "ro_price (resting_of n) = node_price n"
  "ro_quantity (resting_of n) = node_quantity n"
  by (simp_all add: resting_of_def)

definition level_holds ::
  "(order_id \<Rightarrow> order_node option) \<Rightarrow> (order_id \<Rightarrow> resting_order option) \<Rightarrow> side \<Rightarrow> price \<Rightarrow>
     order_id list \<Rightarrow> price_level option \<Rightarrow> bool" where
  "level_holds ord R s p xs lo \<longleftrightarrow>
     (case lo of
        None \<Rightarrow> xs = []
      | Some l \<Rightarrow> level_price l = p \<and> level_quantity l = displayed R xs \<and>
          level_links ord (side_index s, p) xs l)"

text \<open>
  \<open>book_state b m F A\<close>: the book \<open>b\<close> holds the abstract book \<open>m\<close>, but for the
  nodes \<open>F\<close>, which are in \<^verbatim>\<open>orders\<close> and in no queue, and the prices
  \<open>A\<close>, which are in the index whether or not their queue is empty. Between two public calls
  both sets are empty.
\<close>

definition orders_hold :: "order_book \<Rightarrow> market \<Rightarrow> order_id set \<Rightarrow> bool" where
  "orders_hold b m F \<longleftrightarrow>
     (\<forall>x. x \<notin> F \<longrightarrow> map_option resting_of (get_order b x) = resting m x) \<and>
     (\<forall>x \<in> F. get_order b x \<noteq> None \<and> resting m x = None) \<and>
     (\<forall>x n. get_order b x = Some n \<longrightarrow> node_id n = x)"

definition index_holds :: "order_book \<Rightarrow> market \<Rightarrow> (side \<times> price) set \<Rightarrow> bool" where
  "index_holds b m A \<longleftrightarrow>
     (\<forall>s. index_inv (indices b (side_index s)) \<and>
        index_prices (indices b (side_index s)) = {p. queue m s p \<noteq> [] \<or> (s, p) \<in> A})"

definition book_state ::
  "order_book \<Rightarrow> market \<Rightarrow> order_id set \<Rightarrow> (side \<times> price) set \<Rightarrow> bool" where
  "book_state b m F A \<longleftrightarrow> market_inv m \<and> orders_hold b m F \<and> index_holds b m A \<and>
     (\<forall>s p. level_holds (get_order b) (resting m) s p (queue m s p) (get_level b (side_index s, p)))"

abbreviation book_holds :: "order_book \<Rightarrow> market \<Rightarrow> bool" where
  "book_holds b m \<equiv> book_state b m {} {}"

lemma new_book_holds: "book_holds new_book empty_market"
  by (simp add: book_state_def orders_hold_def index_holds_def level_holds_def empty_market_def
      market_inv_def new_index_correct)

lemma level_links_cong:
  assumes "\<And>x. x \<in> set xs \<Longrightarrow> ord x = ord' x"
  shows "level_links ord lr xs l = level_links ord' lr xs l"
  using segment_cong [of xs ord ord'] assms by (simp add: level_links_def)

lemma level_holds_cong:
  assumes "\<And>x. x \<in> set xs \<Longrightarrow> ord x = ord' x" "\<And>x. x \<in> set xs \<Longrightarrow> R x = R' x"
  shows "level_holds ord R s p xs lo = level_holds ord' R' s p xs lo"
  using level_links_cong [of xs ord ord'] displayed_cong [of xs R R'] assms
  by (simp add: level_holds_def split: option.splits)

lemma book_stateD:
  assumes "book_state b m F A"
  shows "market_inv m" "orders_hold b m F" "index_holds b m A"
    and "level_holds (get_order b) (resting m) s p (queue m s p) (get_level b (side_index s, p))"
  using assms by (simp_all add: book_state_def)

lemma orders_holdD:
  assumes "orders_hold b m F"
  shows "x \<notin> F \<Longrightarrow> resting m x = map_option resting_of (get_order b x)"
    and "x \<in> F \<Longrightarrow> resting m x = None" "x \<in> F \<Longrightarrow> \<exists>n. get_order b x = Some n"
    and "get_order b x = Some n \<Longrightarrow> node_id n = x"
    and "resting m x = Some od \<Longrightarrow> \<exists>n. get_order b x = Some n \<and> od = resting_of n \<and> x \<notin> F"
  using assms by (auto simp: orders_hold_def) (metis option.simps(3) map_option_eq_Some)+

text \<open>Where a resting order is.\<close>

lemma resting_position:
  assumes "book_state b m F A" "get_order b x = Some n" "x \<notin> F"
  shows "resting m x = Some (resting_of n)"
    and "x \<in> set (queue m (node_side n) (node_price n))"
    and "node_level n = Some (side_index (node_side n), node_price n)"
    and "\<exists>l. get_level b (side_index (node_side n), node_price n) = Some l"
proof -
  show r: "resting m x = Some (resting_of n)"
    using orders_holdD(1) [OF book_stateD(2) [OF assms(1)] assms(3)] assms(2) by simp
  show q: "x \<in> set (queue m (node_side n) (node_price n))"
    using market_inv_D(2) [OF book_stateD(1) [OF assms(1)]] r by (simp add: resting_of_def)
  from book_stateD(4) [OF assms(1), of "node_side n" "node_price n"] q
  obtain l where l: "get_level b (side_index (node_side n), node_price n) = Some l"
    "level_links (get_order b) (side_index (node_side n), node_price n)
       (queue m (node_side n) (node_price n)) l"
    by (auto simp: level_holds_def split: option.splits)
  then show "\<exists>l. get_level b (side_index (node_side n), node_price n) = Some l" by simp
  from l(2) q segment_member assms(2)
  show "node_level n = Some (side_index (node_side n), node_price n)"
    by (fastforce simp: level_links_def)
qed

text \<open>The data of the nodes is all \<open>orders_hold\<close> reads.\<close>

lemma node_data_eq:
  "node_data n = node_data n' \<longleftrightarrow> node_id n = node_id n' \<and> resting_of n = resting_of n'"
  by (auto simp: node_data_def resting_of_def)

lemma same_data_orders:
  assumes "\<And>y. map_option node_data (get_order b' y) = map_option node_data (get_order b y)"
  shows "orders_hold b' m F \<longleftrightarrow> orders_hold b m F"
proof -
  have *: "map_option resting_of (get_order b' y) = map_option resting_of (get_order b y)"
    "get_order b' y = None \<longleftrightarrow> get_order b y = None"
    "(\<forall>n. get_order b' y = Some n \<longrightarrow> node_id n = y) \<longleftrightarrow>
     (\<forall>n. get_order b y = Some n \<longrightarrow> node_id n = y)" for y
    using assms [of y] by (auto simp: map_option_case node_data_eq split: option.splits)
  show ?thesis unfolding orders_hold_def by (simp add: *)
qed

end
