(* ===== verification/Book_Steps.thy ===== *)
theory Book_Steps
  imports Book_View
begin

unbundle bit_operations_syntax

section \<open>The steps of a book operation\<close>

text \<open>
  How \<open>book_state\<close> moves through the statements of the public operations: an order node is
  created or dropped, a level created or retired, a price entered into the index, an order linked
  into its queue or unlinked from it, a quantity reduced in place.
\<close>

subsection \<open>Nodes, levels and the index\<close>

lemma index_holds_extra:
  "index_holds b m A \<Longrightarrow> queue m s p \<noteq> [] \<Longrightarrow> index_holds b m (insert (s, p) A)"
  by (auto simp: index_holds_def)

lemma index_holds_drop_extra:
  "index_holds b m (insert (s, p) A) \<Longrightarrow> queue m s p \<noteq> [] \<Longrightarrow> index_holds b m A"
  by (auto simp: index_holds_def)

lemma book_state_extra_iff:
  "queue m s p \<noteq> [] \<Longrightarrow> book_state b m F (insert (s, p) A) \<longleftrightarrow> book_state b m F A"
  using index_holds_extra [of b m A s p] index_holds_drop_extra [of b m s p A]
  unfolding book_state_def by blast

lemma not_queued:
  assumes "book_state b m F A" "resting m x = None"
  shows "x \<notin> set (queue m s p)"
  using market_inv_D(2) [OF book_stateD(1) [OF assms(1)], where x = x and s = s and p = p] assms(2)
  by simp

lemma book_state_insert_node:
  assumes "book_state b m F A" "get_order b x = None" "node_id n = x"
  shows "book_state (set_order b x n) m (insert x F) A"
proof -
  have x: "resting m x = None" "x \<notin> F"
    using orders_holdD [OF book_stateD(2) [OF assms(1)]] assms(2) by fastforce+
  have "orders_hold (set_order b x n) m (insert x F)"
    using book_stateD(2) [OF assms(1)] assms(2,3) x by (auto simp: orders_hold_def)
  moreover have "level_holds (get_order (set_order b x n)) (resting m) s p (queue m s p) lo =
      level_holds (get_order b) (resting m) s p (queue m s p) lo" for s p lo
    using not_queued [OF assms(1) x(1)] by (intro level_holds_cong) auto
  ultimately show ?thesis using assms(1) by (simp add: book_state_def index_holds_def)
qed

lemma book_state_set_floating:
  assumes "book_state b m F A" "x \<in> F" "node_id n = x"
  shows "book_state (set_order b x n) m F A"
proof -
  have x: "resting m x = None" using orders_holdD(2) [OF book_stateD(2) [OF assms(1)] assms(2)] .
  have "orders_hold (set_order b x n) m F"
    using book_stateD(2) [OF assms(1)] assms(2,3) by (auto simp: orders_hold_def)
  moreover have "level_holds (get_order (set_order b x n)) (resting m) s p (queue m s p) lo =
      level_holds (get_order b) (resting m) s p (queue m s p) lo" for s p lo
    using not_queued [OF assms(1) x] by (intro level_holds_cong) auto
  ultimately show ?thesis using assms(1) by (simp add: book_state_def index_holds_def)
qed

lemma drop_order_store [simp]:
  "get_order (drop_order b x) y = (if y = x then None else get_order b y)"
  "get_level (drop_order b x) lr = get_level b lr" "indices (drop_order b x) = indices b"
  by (simp_all add: drop_order_def get_order_def get_level_def)

lemma book_state_drop_node:
  assumes "book_state b m F A" "x \<in> F"
  shows "book_state (drop_order b x) m (F - {x}) A"
proof -
  have x: "resting m x = None" using orders_holdD(2) [OF book_stateD(2) [OF assms(1)] assms(2)] .
  have "orders_hold (drop_order b x) m (F - {x})"
    using book_stateD(2) [OF assms(1)] x by (auto simp: orders_hold_def)
  moreover have "level_holds (get_order (drop_order b x)) (resting m) s p (queue m s p) lo =
      level_holds (get_order b) (resting m) s p (queue m s p) lo" for s p lo
    using not_queued [OF assms(1) x] by (intro level_holds_cong) auto
  ultimately show ?thesis using assms(1) by (simp add: book_state_def index_holds_def)
qed

lemma new_level_holds: "level_holds ord R s p [] (Some (new_level p))"
  by (simp add: level_holds_def new_level_def level_links_def)

lemma book_state_new_level:
  assumes "book_state b m F A" "get_level b (side_index s, p) = None"
  shows "book_state (set_level b (side_index s, p) (new_level p)) m F A"
proof -
  have "queue m s p = []"
    using book_stateD(4) [OF assms(1), of s p] assms(2) by (simp add: level_holds_def)
  moreover have "get_order (set_level b lr l) = get_order b" for lr l by (rule ext) simp
  ultimately show ?thesis
    using assms(1) new_level_holds by (auto simp: book_state_def orders_hold_def index_holds_def)
qed

lemma get_or_create_level_sat:
  assumes "book_state b m F A"
  shows "outcome_sat
    (\<lambda>lr b' k'. lr = (side_index s, p) \<and> book_state b' m F A \<and> get_order b' = get_order b \<and>
       (\<exists>l. get_level b' lr = Some l) \<and> k \<le> k' + 3)
    (\<lambda>b'. b' = b \<and> k < 3) (get_or_create_level b s p k)"
  using book_state_new_level [OF assms, of s p] assms
  by (auto simp: get_or_create_level_def Let_def outcome_simps split: option.splits)

lemma set_index_store [simp]:
  "get_order (set_index b i ix) x = get_order b x" "get_level (set_index b i ix) lr = get_level b lr"
  "indices (set_index b i ix) = (indices b)(i := ix)"
  by (simp_all add: set_index_def get_order_def get_level_def)

lemma book_state_set_index:
  assumes "book_state b m F A" "index_inv ix" "index_prices ix = {q. queue m s q \<noteq> [] \<or> (s, q) \<in> A'}"
    "\<And>t q. t \<noteq> s \<Longrightarrow> (t, q) \<in> A' \<longleftrightarrow> (t, q) \<in> A"
  shows "book_state (set_index b (side_index s) ix) m F A'"
proof -
  have "get_order (set_index b i ix) = get_order b" for i by (rule ext) simp
  with assms show ?thesis by (auto simp: book_state_def orders_hold_def index_holds_def)
qed

lemma index_add_at_sat:
  assumes "book_state b m F A"
  shows "outcome_sat
    (\<lambda>_ b' k'. book_state b' m F (insert (s, p) A) \<and> get_order b' = get_order b \<and>
       get_level b' = get_level b \<and> k \<le> k' + 3)
    (\<lambda>b'. book_state b' m F A \<and> get_order b' = get_order b \<and> k < 3) (index_add_at b s p k)"
proof -
  have ix: "index_inv (indices b (side_index s))"
    "index_prices (indices b (side_index s)) = {q. queue m s q \<noteq> [] \<or> (s, q) \<in> A}"
    using book_stateD(3) [OF assms] by (simp_all add: index_holds_def)
  have store: "get_order (set_index b i ix) = get_order b" "get_level (set_index b i ix) = get_level b"
    for i ix by (rule ext, simp)+
  show ?thesis
    unfolding index_add_at_def outcome_sat_lift
    by (rule outcome_sat_mono [OF price_index.add_sat_budget [OF ix(1)]])
      (use assms ix(2) store in \<open>auto intro!: book_state_set_index [of b m F A]\<close>)
qed

lemma drop_level_store [simp]:
  "get_order (drop_level b lr) x = get_order b x" "indices (drop_level b lr) = indices b"
  "get_level (drop_level b lr) lr' = (if lr' = lr then None else get_level b lr')"
  by (auto simp: drop_level_def get_order_def get_level_def prod_eq_iff)

lemma retire_level_correct:
  assumes "book_state b m F (insert (s, p) A)" "queue m s p = []" "(s, p) \<notin> A"
  shows "\<exists>b'. retire_level b s p = Some b' \<and> book_state b' m F A \<and> get_order b' = get_order b \<and>
    (\<forall>lr. lr \<noteq> (side_index s, p) \<longrightarrow> get_level b' lr = get_level b lr)"
proof -
  have ix: "index_inv (indices b (side_index s))"
    "index_prices (indices b (side_index s)) = {q. queue m s q \<noteq> [] \<or> (s, q) \<in> insert (s, p) A}"
    using book_stateD(3) [OF assms(1)] by (simp_all add: index_holds_def)
  then obtain ix' where ix': "index_remove (indices b (side_index s)) p = Some ix'" "index_inv ix'"
    "index_prices ix' = index_prices (indices b (side_index s)) - {p}"
    using price_index.remove_active [of "indices b (side_index s)" p] by auto
  let ?b = "set_index b (side_index s) ix'"
  have "book_state ?b m F A"
    using assms ix(2) ix' by (intro book_state_set_index [of b m F "insert (s, p) A"]) auto
  moreover have "get_order (drop_level ?b (side_index s, p)) = get_order ?b" by (rule ext) simp
  ultimately have "book_state (drop_level ?b (side_index s, p)) m F A"
    using assms(2) by (auto simp: book_state_def orders_hold_def index_holds_def level_holds_def)
  with ix'(1) show ?thesis by (auto simp: retire_level_def)
qed

subsection \<open>Linking and unlinking an order\<close>

lemma queue_step_order:
  "queue_step lr S b b' \<Longrightarrow> y \<notin> S \<Longrightarrow> get_order b' y = get_order b y"
  by (simp add: queue_step_def)

lemma queue_step_level:
  "queue_step lr S b b' \<Longrightarrow> lr' \<noteq> lr \<Longrightarrow> get_level b' lr' = get_level b lr'"
  unfolding queue_step_def by blast

lemma queue_step_data:
  "queue_step lr S b b' \<Longrightarrow>
    map_option node_data (get_order b' y) = map_option node_data (get_order b y)"
  by (simp add: queue_step_def)

text \<open>Queues of different levels share no order.\<close>

lemma queues_disjoint:
  assumes "book_state b m F A" "x \<in> set (queue m s p)" "(t, q) \<noteq> (s, p)"
  shows "x \<notin> set (queue m t q)"
  using market_inv_D(2) [OF book_stateD(1) [OF assms(1)]] assms(2,3) by (metis option.inject)

text \<open>
  A floating node, its level ready and its price in the index, is appended: it rests in the
  abstract book, at the tail of its queue.
\<close>

lemma link_order:
  assumes "book_state b m {x} {(s, p)}" "get_order b x = Some n" "node_side n = s" "node_price n = p"
    "node_quantity n \<noteq> 0" "get_level b (side_index s, p) = Some l"
  shows "\<exists>b'. append_order b (side_index s, p) x = Some b' \<and>
    book_holds b' (rest_order x (resting_of n) m)"
proof -
  let ?lr = "(side_index s, p)" and ?m = "rest_order x (resting_of n) m"
  note st = book_stateD [OF assms(1)]
  have x: "resting m x = None" using orders_holdD(2) [OF st(2)] by simp
  have xq: "x \<notin> set (queue m t q)" for t q using not_queued [OF assms(1) x] .
  have l: "level_price l = p" "level_quantity l = displayed (resting m) (queue m s p)"
    "level_links (get_order b) ?lr (queue m s p) l"
    using st(4) [of s p] assms(6) by (simp_all add: level_holds_def)
  obtain b' l' where b': "append_order b ?lr x = Some b'" "get_level b' ?lr = Some l'"
    "level_links (get_order b') ?lr (queue m s p @ [x]) l'" "level_price l' = p"
    "level_quantity l' = displayed (resting m) (queue m s p) + ucast (node_quantity n)"
    "queue_step ?lr (insert x (set (queue m s p))) b b'"
    using append_order_correct [OF assms(6) l(3) assms(2) xq market_inv_D(1) [OF st(1)]] l by metis
  have q: "queue ?m t q = (if t = s \<and> q = p then queue m s p @ [x] else queue m t q)" for t q
    using assms(3,4) by (auto simp: rest_order_def)
  have R: "resting ?m = (resting m)(x \<mapsto> resting_of n)" by (simp add: rest_order_def)
  have disp: "displayed ((resting m)(x \<mapsto> r)) (queue m t q) = displayed (resting m) (queue m t q)" for r t q
    using xq [of t q] by (intro displayed_cong) auto
  have "market_inv ?m" using st(1) x assms(5) by (intro rest_order_inv) simp_all
  moreover have "orders_hold b' ?m {}"
  proof -
    have "orders_hold b ?m {}"
      using st(2) assms(2) by (auto simp: orders_hold_def R)
    then show ?thesis using same_data_orders [of b' b] queue_step_data [OF b'(6)] by simp
  qed
  moreover have "index_holds b' ?m {}"
    using st(3) b'(6) by (auto simp: index_holds_def q queue_step_def)
  moreover have "level_holds (get_order b') (resting ?m) t r (queue ?m t r)
      (get_level b' (side_index t, r))" for t r
  proof (cases "t = s \<and> r = p")
    case True
    then show ?thesis
      using b' disp by (auto simp: q R level_holds_def)
  next
    case False
    then have "level_holds (get_order b') (resting m) t r (queue m t r) (get_level b' (side_index t, r))"
      using st(4) [of t r] queue_step_level [OF b'(6), of "(side_index t, r)"]
        level_holds_cong [of "queue m t r" "get_order b'" "get_order b" "resting m" "resting m"]
        queue_step_order [OF b'(6)] queues_disjoint [OF assms(1)] xq by (metis Pair_inject insert_iff side_index_eq_iff)
    with False disp show ?thesis by (auto simp: q R level_holds_def split: option.splits)
  qed
  ultimately show ?thesis using b'(1) by (auto simp: book_state_def)
qed

text \<open>
  Unlinking: the level gives up the order's quantity and the node leaves the queue. The order is
  gone from the abstract book and its node floats; its price stays in the index.
\<close>

lemma get_order_set_level_eq [simp]: "get_order (set_level b lr l) = get_order b"
  by (rule ext) simp

lemma unlink_level:
  assumes "book_state b m {} A" "get_order b x = Some n"
  defines "lr \<equiv> (side_index (node_side n), node_price n)"
  defines "xs \<equiv> queue m (node_side n) (node_price n)"
  shows "\<exists>b1 b2 l n'. update_level b lr (reduce_level (node_quantity n)) = Some b1 \<and>
    detach_order b1 lr x = Some b2 \<and> get_level b2 lr = Some l \<and>
    level_links (get_order b2) lr (remove1 x xs) l \<and> level_price l = node_price n \<and>
    level_quantity l = displayed ((resting m)(x := None)) (remove1 x xs) \<and>
    get_order b2 x = Some n' \<and> node_data n' = node_data n \<and> queue_step lr (set xs) b b2"
proof -
  note pos = resting_position [OF assms(1,2)]
  obtain l where l: "get_level b lr = Some l" using pos(4) by (auto simp: lr_def)
  from book_stateD(4) [OF assms(1), of "node_side n" "node_price n"] l
  have links: "level_links (get_order b) lr xs l" and price: "level_price l = node_price n"
    and qty: "level_quantity l = displayed (resting m) xs"
    by (simp_all add: level_holds_def lr_def xs_def)
  have xs: "distinct xs" "x \<in> set xs"
    using market_inv_D(1) [OF book_stateD(1) [OF assms(1)]] pos(2) by (simp_all add: xs_def)
  then obtain as bs where split: "xs = as @ x # bs" by (meson split_list)
  with xs have rem: "remove1 x xs = as @ bs" by (auto simp: remove1_append)
  let ?l = "reduce_level (node_quantity n) l" and ?b = "set_level b lr (reduce_level (node_quantity n) l)"
  have l1: "level_links (get_order ?b) lr (as @ x # bs) ?l"
    using links split by (simp add: level_links_def reduce_level_def)
  obtain b2 l' n' where d: "detach_order ?b lr x = Some b2" "get_level b2 lr = Some l'"
    "level_links (get_order b2) lr (as @ bs) l'" "level_price l' = level_price ?l"
    "level_quantity l' = level_quantity ?l" "get_order b2 x = Some n'"
    "queue_step lr (set (as @ x # bs)) ?b b2"
    using detach_order_correct [of ?b lr ?l as x bs] l1 xs(1) split by auto
  have "queue_step lr (set xs) b b2"
    using d(7) by (auto simp: queue_step_def split)
  moreover have "level_quantity l' = displayed ((resting m)(x := None)) (remove1 x xs)"
    using displayed_remove1 [OF xs(2) _ xs(1), of "resting m" "resting_of n" None] pos(1) qty d(5)
    by (simp add: reduce_level_def)
  moreover have "node_data n' = node_data n"
    using queue_step_data [OF d(7), of x] d(6) assms(2) by simp
  ultimately show ?thesis
    using l d price rem by (auto simp: update_level_def reduce_level_def)
qed

lemma unlink_order:
  assumes "book_state b m {} A" "get_order b x = Some n"
  defines "s \<equiv> node_side n" and "p \<equiv> node_price n"
  shows "\<exists>b1 b2 l n'. update_level b (side_index s, p) (reduce_level (node_quantity n)) = Some b1 \<and>
    detach_order b1 (side_index s, p) x = Some b2 \<and> get_level b2 (side_index s, p) = Some l \<and>
    (level_order_count l = 0 \<longleftrightarrow> queue (remove_order x m) s p = []) \<and>
    book_state b2 (remove_order x m) {x} (insert (s, p) A) \<and>
    get_order b2 x = Some n' \<and> node_data n' = node_data n \<and>
    (\<forall>lr. lr \<noteq> (side_index s, p) \<longrightarrow> get_level b2 lr = get_level b lr)"
proof -
  let ?m = "remove_order x m"
  note st = book_stateD [OF assms(1)] and pos = resting_position [OF assms(1,2), folded s_def p_def]
  obtain b1 b2 l n' where u: "update_level b (side_index s, p) (reduce_level (node_quantity n)) = Some b1"
    "detach_order b1 (side_index s, p) x = Some b2" "get_level b2 (side_index s, p) = Some l"
    "level_links (get_order b2) (side_index s, p) (remove1 x (queue m s p)) l" "level_price l = p"
    "level_quantity l = displayed ((resting m)(x := None)) (remove1 x (queue m s p))"
    "get_order b2 x = Some n'" "node_data n' = node_data n"
    "queue_step (side_index s, p) (set (queue m s p)) b b2"
    using unlink_level [OF assms(1,2)] unfolding s_def p_def by blast
  have dist: "distinct (queue m t q)" for t q by (rule market_inv_D(1) [OF st(1)])
  have other: "x \<notin> set (queue m t q)" if "(t, q) \<noteq> (s, p)" for t q
    using queues_disjoint [OF assms(1) _ that] pos(2) by simp
  have q: "queue ?m t q = (if t = s \<and> q = p then remove1 x (queue m s p) else queue m t q)" for t q
    using other [of t q] by (auto simp: remove_order_def remove1_idem)
  have R: "resting ?m = (resting m)(x := None)" by (simp add: remove_order_def)
  have "level_order_count l = 0 \<longleftrightarrow> remove1 x (queue m s p) = []"
    using u(4) count_zero_iff [of "remove1 x (queue m s p)" x] dist by (simp add: level_links_def)
  moreover have "book_state b2 ?m {x} (insert (s, p) A)"
  proof -
    have "orders_hold b ?m {x}"
      using st(2) assms(2) by (auto simp: orders_hold_def R)
    then have "orders_hold b2 ?m {x}"
      using same_data_orders [of b2 b] queue_step_data [OF u(9)] by simp
    moreover have "index_holds b2 ?m (insert (s, p) A)"
      using st(3) u(9) pos(2) by (auto simp: index_holds_def q queue_step_def)
    moreover have "level_holds (get_order b2) (resting ?m) t r (queue ?m t r)
        (get_level b2 (side_index t, r))" for t r
    proof (cases "t = s \<and> r = p")
      case True
      then show ?thesis using u by (simp add: q R level_holds_def)
    next
      case False
      then have "get_level b2 (side_index t, r) = get_level b (side_index t, r)"
        using queue_step_level [OF u(9)] by auto
      moreover have "get_order b2 y = get_order b y" "((resting m)(x := None)) y = resting m y"
        if "y \<in> set (queue m t r)" for y
        using queue_step_order [OF u(9), of y] queues_disjoint [OF assms(1), of y s p t r]
          other [of t r] that False by (auto simp del: Pair_inject)
      ultimately show ?thesis
        using False st(4) [of t r] level_holds_cong [of "queue m t r" "get_order b2" "get_order b"
            "(resting m)(x := None)" "resting m"] by (simp only: q R if_False)
    qed
    ultimately show ?thesis using remove_order_inv [OF st(1)] by (simp add: book_state_def)
  qed
  ultimately show ?thesis
    using u queue_step_level [OF u(9)] by (auto simp: q)
qed

subsection \<open>Reducing a quantity in place\<close>

lemma set_order_set_level:
  "set_order (set_level b lr l) x n = set_level (set_order b x n) lr l"
  by (simp add: set_order_def set_level_def)

lemma segment_resize:
  assumes "\<And>y. map_option (\<lambda>n. (node_level n, node_previous n, node_next n)) (ord' y) =
    map_option (\<lambda>n. (node_level n, node_previous n, node_next n)) (ord y)"
  shows "segment ord' lr p xs q \<longleftrightarrow> segment ord lr p xs q"
proof (induction xs arbitrary: p)
  case (Cons x xs)
  have "(\<exists>n. ord' x = Some n \<and> node_level n = Some lr \<and> node_previous n = p \<and> node_next n = r) \<longleftrightarrow>
    (\<exists>n. ord x = Some n \<and> node_level n = Some lr \<and> node_previous n = p \<and> node_next n = r)" for r
    using assms [of x] by (cases "ord x"; cases "ord' x") auto
  with Cons show ?case by simp
qed simp

lemma resize_in_place:
  assumes "book_state b m {} A" "get_order b x = Some n" "q \<noteq> 0" "q \<le> node_quantity n"
    "get_level b (side_index (node_side n), node_price n) = Some l"
  shows "book_state
    (set_level (set_order b x (n\<lparr>node_quantity := q\<rparr>)) (side_index (node_side n), node_price n)
      (reduce_level (node_quantity n - q) l)) (resize_order x q m) {} A" (is "book_state ?b ?m {} A")
proof -
  note st = book_stateD [OF assms(1)] and pos = resting_position [OF assms(1,2)]
  let ?s = "node_side n" and ?p = "node_price n"
  have R: "resting ?m = (resting m)(x \<mapsto> resting_of (n\<lparr>node_quantity := q\<rparr>))"
    using pos(1) by (simp add: resize_order_def resting_of_def)
  have Q: "queue ?m = queue m" by (simp add: resize_order_def)
  have "orders_hold ?b ?m {}"
    using st(2) assms(2) by (auto simp: orders_hold_def R)
  moreover have "index_holds ?b ?m A"
    using st(3) by (simp add: index_holds_def Q)
  moreover have "level_holds (get_order ?b) (resting ?m) t r (queue ?m t r)
      (get_level ?b (side_index t, r))" for t r
  proof (cases "t = ?s \<and> r = ?p")
    case True
    have l: "level_price l = ?p" "level_quantity l = displayed (resting m) (queue m ?s ?p)"
      "level_links (get_order b) (side_index ?s, ?p) (queue m ?s ?p) l"
      using st(4) [of ?s ?p] assms(5) by (simp_all add: level_holds_def)
    have "segment (get_order ?b) lr pr xs nx = segment (get_order b) lr pr xs nx" for lr pr xs nx
      by (rule segment_resize) (auto simp: assms(2))
    with l(3) have "level_links (get_order ?b) (side_index ?s, ?p) (queue m ?s ?p)
        (reduce_level (node_quantity n - q) l)"
      unfolding level_links_def reduce_level_def by simp
    moreover have "displayed (resting ?m) (queue m ?s ?p) =
        displayed (resting m) (queue m ?s ?p) - ucast (node_quantity n) + ucast q"
      using displayed_update [OF pos(2) _ market_inv_D(1) [OF st(1)]] pos(1) by (simp add: R)
    ultimately show ?thesis
      using True l ucast_diff [OF assms(4)] by (simp add: level_holds_def Q reduce_level_def)
  next
    case False
    then have lr: "get_level ?b (side_index t, r) = get_level b (side_index t, r)" by auto
    have x: "x \<notin> set (queue m t r)"
      using queues_disjoint [OF assms(1) pos(2), of t r] False by auto
    have "level_holds (get_order ?b) (resting ?m) t r (queue m t r) lo =
        level_holds (get_order b) (resting m) t r (queue m t r) lo" for lo
      using x by (intro level_holds_cong) (auto simp: R)
    with lr st(4) [of t r] show ?thesis by (simp only: Q)
  qed
  ultimately show ?thesis using resize_order_inv [OF st(1) assms(3)] by (simp add: book_state_def)
qed

end
