(* ===== verification/Book_Refinement.thy ===== *)
theory Book_Refinement
  imports Book_Steps
begin

unbundle bit_operations_syntax

section \<open>The order book refines the abstract book\<close>

text \<open>
  The abstract operations, and for every operation of \<^verbatim>\<open>OrderBook\<close> the lemma that it
  implements its abstract counterpart: from a state that holds an abstract book it never runs into
  undefined behaviour, returns the abstract result in a state that holds the abstract successor,
  and if an allocation fails leaves a state that holds the book it started with. The lemmas also
  bound the allocations an operation needs.
\<close>

subsection \<open>The abstract operations\<close>

definition market_add :: "order_id \<Rightarrow> side \<Rightarrow> price \<Rightarrow> quantity \<Rightarrow> market \<Rightarrow> bool \<times> market" where
  "market_add x s p q m =
     (if q = 0 \<or> resting m x \<noteq> None then (False, m)
      else (True, rest_order x \<lparr>ro_side = s, ro_price = p, ro_quantity = q\<rparr> m))"

definition market_erase :: "order_id \<Rightarrow> market \<Rightarrow> bool \<times> market" where
  "market_erase x m = (if resting m x = None then (False, m) else (True, remove_order x m))"

definition market_cancel :: "order_id \<Rightarrow> quantity \<Rightarrow> market \<Rightarrow> bool \<times> market" where
  "market_cancel x q m =
     (case resting m x of
        None \<Rightarrow> (False, m)
      | Some od \<Rightarrow>
          if q = 0 \<or> q > ro_quantity od then (False, m)
          else if q = ro_quantity od then (True, remove_order x m)
          else (True, resize_order x (ro_quantity od - q) m))"

definition market_modify :: "order_id \<Rightarrow> price \<Rightarrow> quantity \<Rightarrow> market \<Rightarrow> bool \<times> market" where
  "market_modify x p q m =
     (case resting m x of
        None \<Rightarrow> (False, m)
      | Some od \<Rightarrow>
          if q = 0 then (False, m)
          else if p = ro_price od \<and> q \<le> ro_quantity od then (True, resize_order x q m)
          else (True, rest_order x (od\<lparr>ro_price := p, ro_quantity := q\<rparr>) (remove_order x m)))"

definition market_replace ::
  "order_id \<Rightarrow> order_id \<Rightarrow> price \<Rightarrow> quantity \<Rightarrow> market \<Rightarrow> bool \<times> market" where
  "market_replace old_id new_id p q m =
     (case resting m old_id of
        None \<Rightarrow> (False, m)
      | Some od \<Rightarrow>
          if q = 0 then (False, m)
          else if old_id = new_id then market_modify old_id p q m
          else if resting m new_id \<noteq> None then (False, m)
          else (True, remove_order old_id
                  (rest_order new_id \<lparr>ro_side = ro_side od, ro_price = p, ro_quantity = q\<rparr> m)))"

definition implements ::
  "market \<Rightarrow> bool \<times> market \<Rightarrow> nat \<Rightarrow> nat \<Rightarrow> (order_book, bool) outcome \<Rightarrow> bool" where
  "implements m r need k res \<longleftrightarrow>
     outcome_sat (\<lambda>v b' k'. v = fst r \<and> book_holds b' (snd r) \<and> k \<le> k' + need)
       (\<lambda>b'. book_holds b' m \<and> k < need) res"

lemma resting_iff:
  assumes "book_holds b m"
  shows "resting m x = map_option resting_of (get_order b x)"
  using orders_holdD(1) [OF book_stateD(2) [OF assms]] by simp

lemma of_option_sat [outcome_simps]:
  "outcome_sat Q E (of_option r k) \<longleftrightarrow> (\<exists>v s. r = Some (v, s) \<and> Q v s k)"
  by (auto simp: of_option_def split: option.splits)

lemma of_option_True:
  assumes "\<exists>b'. r = Some (True, b') \<and> book_holds b' m'" "k \<le> j + c"
  shows "outcome_sat (\<lambda>v b' k'. v \<and> book_holds b' m' \<and> k \<le> k' + c) E (of_option r j)"
  using assms by (auto simp: of_option_sat)

subsection \<open>Erase and cancel\<close>

lemma erase_node_correct:
  assumes "book_holds b m" "get_order b x = Some n"
  shows "\<exists>b'. erase_node b x = Some b' \<and> book_holds b' (remove_order x m)"
proof -
  let ?s = "node_side n" and ?p = "node_price n" and ?m = "remove_order x m"
  note pos = resting_position [OF assms]
  obtain b1 b2 l where u: "update_level b (side_index ?s, ?p) (reduce_level (node_quantity n)) = Some b1"
    "detach_order b1 (side_index ?s, ?p) x = Some b2" "get_level b2 (side_index ?s, ?p) = Some l"
    "level_order_count l = 0 \<longleftrightarrow> queue ?m ?s ?p = []" "book_state b2 ?m {x} {(?s, ?p)}"
    using unlink_order [OF assms] by auto
  obtain b3 where b3: "(if level_order_count l = 0 then retire_level b2 ?s ?p else Some b2) = Some b3"
    "book_state b3 ?m {x} {}"
  proof (cases "queue ?m ?s ?p = []")
    case True
    then show ?thesis using retire_level_correct [OF u(5) True] u(4) that by auto
  next
    case False
    then show ?thesis using u(4,5) book_state_extra_iff [OF False] that by auto
  qed
  have "book_holds (drop_order b3 x) ?m" using book_state_drop_node [OF b3(2)] by simp
  with u b3(1) pos(3) assms(2) show ?thesis by (simp add: erase_node_def)
qed

lemma book_erase_correct:
  assumes "book_holds b m"
  shows "\<exists>b'. book_erase b x = Some (fst (market_erase x m), b') \<and>
    book_holds b' (snd (market_erase x m))"
  using assms erase_node_correct [OF assms, of x] resting_iff [OF assms, of x]
  by (auto simp: book_erase_def market_erase_def split: option.splits)

lemma book_cancel_correct:
  assumes "book_holds b m"
  shows "\<exists>b'. book_cancel b x q = Some (fst (market_cancel x q m), b') \<and>
    book_holds b' (snd (market_cancel x q m))"
proof (cases "get_order b x")
  case None
  with assms resting_iff [OF assms, of x] show ?thesis
    by (simp add: book_cancel_def market_cancel_def)
next
  case (Some n)
  note r = resting_iff [OF assms, of x] and pos = resting_position [OF assms Some]
  consider "q = 0 \<or> q > node_quantity n" | "q = node_quantity n" "q \<noteq> 0"
    | "q \<noteq> 0" "q < node_quantity n" by fastforce
  then show ?thesis
  proof cases
    case 1
    with Some r assms show ?thesis by (auto simp: book_cancel_def market_cancel_def)
  next
    case 2
    with Some r erase_node_correct [OF assms Some] show ?thesis
      by (auto simp: book_cancel_def market_cancel_def)
  next
    case 3
    obtain l where l: "get_level b (side_index (node_side n), node_price n) = Some l"
      using pos(4) by auto
    have ne: "node_quantity n - q \<noteq> 0" "node_quantity n - q \<le> node_quantity n"
      using 3 word_sub_le [of q "node_quantity n"] by auto
    have "node_quantity n - (node_quantity n - q) = q" by simp
    with resize_in_place [OF assms Some ne l] Some r l pos(3) 3 show ?thesis
      by (auto simp: book_cancel_def market_cancel_def)
  qed
qed

lemma book_execute_correct:
  assumes "book_holds b m"
  shows "\<exists>b'. book_execute b x q = Some (fst (market_cancel x q m), b') \<and>
    book_holds b' (snd (market_cancel x q m))"
  using book_cancel_correct [OF assms] by (simp add: book_execute_def)

subsection \<open>Add\<close>

lemma implements_unchanged:
  "book_holds b m \<Longrightarrow> implements m (False, m) need k (Done False b k)"
  by (simp add: implements_def)

text \<open>The level a new order goes to, its price entered into the index when it was empty.\<close>

lemma index_ready_sat:
  assumes "book_state b m F {}" "get_level b (side_index s, p) = Some l" "x \<notin> set (queue m s p)"
  shows "outcome_sat
    (\<lambda>_ b' k'. book_state b' m F {(s, p)} \<and> get_order b' = get_order b \<and>
       get_level b' = get_level b \<and> k \<le> k' + 3)
    (\<lambda>b'. book_state b' m F {} \<and> get_order b' = get_order b \<and> k < 3)
    (if level_order_count l = 0 then index_add_at b s p k else Done () b k)"
proof -
  have "level_links (get_order b) (side_index s, p) (queue m s p) l"
    using book_stateD(4) [OF assms(1), of s p] assms(2) by (simp add: level_holds_def)
  then have empty: "level_order_count l = 0 \<longleftrightarrow> queue m s p = []"
    using count_zero_iff [OF market_inv_D(1) [OF book_stateD(1) [OF assms(1)]] assms(3)]
    by (simp add: level_links_def)
  show ?thesis
  proof (cases "queue m s p = []")
    case True
    then show ?thesis using empty index_add_at_sat [OF assms(1), of s p k] by simp
  next
    case False
    then show ?thesis using empty assms(1) book_state_extra_iff [OF False] by simp
  qed
qed

lemma catch_erase_sat [outcome_simps]:
  "outcome_sat Q E (catch_erase x r) \<longleftrightarrow> outcome_sat Q (\<lambda>b. E (drop_order b x)) r"
  by (cases r) (simp_all add: catch_erase_def)

lemma book_add_correct:
  assumes "book_holds b m"
  shows "implements m (market_add x s p q m) 9 k (book_add b x s p q k)"
proof (cases "q = 0 \<or> get_order b x \<noteq> None")
  case True
  with resting_iff [OF assms, of x] have "market_add x s p q m = (False, m)"
    by (auto simp: market_add_def)
  with True assms show ?thesis by (simp add: book_add_def implements_unchanged)
next
  case False
  then have new: "get_order b x = None" "resting m x = None" "q \<noteq> 0"
    using resting_iff [OF assms, of x] by auto
  let ?lr = "(side_index s, p)"
  let ?n = "\<lparr>node_id = x, node_side = s, node_price = p, node_quantity = q,
    node_level = None, node_previous = None, node_next = None\<rparr>"
  let ?m = "rest_order x (resting_of ?n) m"
  let ?Q = "\<lambda>v b' k'. v \<and> book_holds b' ?m \<and> k \<le> k' + 9"
  let ?E = "\<lambda>b'. book_holds b' m \<and> k < 9"
  have r: "market_add x s p q m = (True, ?m)"
    using new by (simp add: market_add_def resting_of_def)
  have link: "outcome_sat ?Q ?E (of_option (map_option (Pair True) (append_order b3 ?lr x)) k3)"
    if "book_state b3 m {x} {(s, p)}" "get_order b3 x = Some ?n" "get_level b3 ?lr = Some l" "k \<le> k3 + 9"
    for b3 l k3
    using link_order [OF that(1,2) _ _ _ that(3)] new(3) that(4) by (auto simp: outcome_simps)
  have index: "outcome_sat ?Q ?E
      (bind_outcome (catch_erase x (if level_order_count l = 0 then index_add_at b2 s p k2 else Done () b2 k2))
        (\<lambda>_ b k. of_option (map_option (Pair True) (append_order b ?lr x)) k))"
    if b2: "book_state b2 m {x} {}" "get_order b2 x = Some ?n" "get_level b2 ?lr = Some l" "k \<le> k2 + 6"
    for b2 l k2
    unfolding outcome_sat_bind catch_erase_sat
    by (rule outcome_sat_mono [OF index_ready_sat [OF b2(1,3) not_queued [OF b2(1) new(2)], of k2]])
      (use b2 link book_state_drop_node [of _ m "{x}" "{}" x] in auto)
  have emplace: "outcome_sat ?Q ?E (bind_outcome (allocate b1 k1) (\<lambda>_ b k.
      bind_outcome (emplace_order b x ?n k) (\<lambda>did_insert b k.
        if \<not> did_insert then Done False b k
        else case get_level b ?lr of None \<Rightarrow> Undefined
          | Some level \<Rightarrow>
              bind_outcome (catch_erase x
                (if level_order_count level = 0 then index_add_at b s p k else Done () b k))
              (\<lambda>_ b k. of_option (map_option (Pair True) (append_order b ?lr x)) k))))"
    if b1: "book_holds b1 m" "get_order b1 = get_order b" "get_level b1 ?lr = Some l" "k \<le> k1 + 3"
    for b1 l k1
    using b1 new(1) book_state_insert_node [OF b1(1), of x ?n] index [of "set_order b1 x ?n" l]
    by (auto simp: emplace_order_def outcome_sat_bind outcome_sat_allocate)
  show ?thesis
    unfolding implements_def r book_add_def Let_def fst_conv snd_conv if_not_P [OF False]
      outcome_sat_bind [of _ _ "get_or_create_level _ _ _ _"]
    using get_or_create_level_sat [OF assms, of s p k] emplace assms
    by (auto elim!: outcome_sat_mono)
qed

subsection \<open>Modify and replace\<close>

lemma modify_in_place_correct:
  assumes "book_holds b m" "get_order b x = Some n" "q \<noteq> 0" "q \<le> node_quantity n"
  shows "\<exists>b'. modify_in_place b x (side_index (node_side n), node_price n) q = Some (True, b') \<and>
    book_holds b' (resize_order x q m)"
  using resize_in_place [OF assms] resting_position(4) [OF assms(1,2)] assms(2)
  by (auto simp: modify_in_place_def set_order_set_level)

lemma modify_move_correct:
  assumes "book_state b m {} {(node_side n, p)}" "get_order b x = Some n"
    "get_level b (side_index (node_side n), p) = Some l" "q \<noteq> 0"
  shows "\<exists>b'. modify_move b x (side_index (node_side n), node_price n) (side_index (node_side n), p) p q =
      Some (True, b') \<and>
    book_holds b' (rest_order x ((resting_of n)\<lparr>ro_price := p, ro_quantity := q\<rparr>) (remove_order x m))"
proof -
  let ?s = "node_side n" and ?m = "remove_order x m"
  let ?old = "(side_index ?s, node_price n)" and ?new = "(side_index ?s, p)"
  obtain b1 b2 lo n' where u: "update_level b ?old (reduce_level (node_quantity n)) = Some b1"
    "detach_order b1 ?old x = Some b2" "get_level b2 ?old = Some lo"
    "level_order_count lo = 0 \<longleftrightarrow> queue ?m ?s (node_price n) = []"
    "book_state b2 ?m {x} {(?s, node_price n), (?s, p)}"
    "get_order b2 x = Some n'" "node_data n' = node_data n"
    "\<And>lr. lr \<noteq> ?old \<Longrightarrow> get_level b2 lr = get_level b lr"
    using unlink_order [OF assms(1,2)] by auto
  obtain b3 l3 where b3: "(if level_order_count lo = 0 \<and> ?old \<noteq> ?new
      then retire_level b2 ?s (node_price n) else Some b2) = Some b3"
    "book_state b3 ?m {x} {(?s, p)}" "get_order b3 = get_order b2" "get_level b3 ?new = Some l3"
  proof (cases "node_price n = p")
    case True
    then show ?thesis using that [of b2 lo] u by auto
  next
    case False
    then have lv: "get_level b2 ?new = Some l" using u(8) assms(3) by simp
    show ?thesis
    proof (cases "queue ?m ?s (node_price n) = []")
      case True
      then show ?thesis
        using retire_level_correct [OF u(5) True] False u(4) lv that by auto
    next
      case ne: False
      then show ?thesis using u(4,5) book_state_extra_iff [OF ne] lv that [of b2 l] by auto
    qed
  qed
  let ?n = "n'\<lparr>node_price := p, node_quantity := q\<rparr>"
  have data: "node_id n' = x" "resting_of n' = resting_of n"
    using u(6,7) orders_holdD(4) [OF book_stateD(2) [OF u(5)]] by (auto simp: node_data_eq)
  then have side: "node_side n' = ?s" by (auto simp: resting_of_def)
  have "book_state (set_order b3 x ?n) ?m {x} {(?s, p)}"
    using b3(2) data(1) by (intro book_state_set_floating) simp_all
  then obtain b4 where "append_order (set_order b3 x ?n) ?new x = Some b4"
    "book_holds b4 (rest_order x (resting_of ?n) ?m)"
    using link_order [of "set_order b3 x ?n" ?m x ?s p ?n l3] b3(4) side assms(4) by auto
  moreover have "resting_of ?n = (resting_of n)\<lparr>ro_price := p, ro_quantity := q\<rparr>"
    using data(2) by (simp add: resting_of_def)
  moreover have "update_order b3 x (\<lambda>n. n\<lparr>node_price := p, node_quantity := q\<rparr>) = Some (set_order b3 x ?n)"
    using u(6) b3(3) by simp
  ultimately show ?thesis
    using assms(2) u(1-3) b3(1) by (simp add: modify_move_def)
qed

lemma book_modify_correct:
  assumes "book_holds b m"
  shows "implements m (market_modify x p q m) 6 k (book_modify b x p q k)"
proof (cases "get_order b x")
  case None
  with resting_iff [OF assms, of x] assms show ?thesis
    by (simp add: book_modify_def market_modify_def implements_unchanged)
next
  case (Some n)
  note r = resting_iff [OF assms, of x] and pos = resting_position [OF assms Some]
  consider "q = 0" | "q \<noteq> 0" "p = node_price n \<and> q \<le> node_quantity n"
    | "q \<noteq> 0" "\<not> (p = node_price n \<and> q \<le> node_quantity n)" by blast
  then show ?thesis
  proof cases
    case 1
    with Some r assms show ?thesis
      by (simp add: book_modify_def market_modify_def implements_unchanged)
  next
    case 2
    with modify_in_place_correct [OF assms Some, of q] Some r pos(3) show ?thesis
      by (auto simp: book_modify_def market_modify_def implements_def outcome_simps)
  next
    case 3
    let ?s = "node_side n" and ?old = "(side_index (node_side n), node_price n)"
    let ?new = "(side_index (node_side n), p)"
    let ?m = "rest_order x ((resting_of n)\<lparr>ro_price := p, ro_quantity := q\<rparr>) (remove_order x m)"
    let ?Q = "\<lambda>v b' k'. v \<and> book_holds b' ?m \<and> k \<le> k' + 6"
    let ?E = "\<lambda>b'. book_holds b' m \<and> k < 6"
    have res: "market_modify x p q m = (True, ?m)"
      using 3 Some r by (auto simp: market_modify_def)
    have index: "outcome_sat
        (\<lambda>_ b' k'. book_state b' m {} {(?s, p)} \<and> get_order b' = get_order b1 \<and>
           get_level b' = get_level b1 \<and> k1 \<le> k' + 3)
        (\<lambda>b'. book_state b' m {} {} \<and> get_order b' = get_order b1 \<and> k1 < 3)
        (if ?new \<noteq> ?old \<and> level_order_count l = 0 then index_add_at b1 ?s p k1 else Done () b1 k1)"
      if b1: "book_holds b1 m" "get_level b1 ?new = Some l" for b1 l k1
    proof (cases "p = node_price n")
      case True
      then have "queue m ?s p \<noteq> []" using pos(2) by auto
      with True b1(1) book_state_extra_iff show ?thesis by simp
    next
      case False
      then have "x \<notin> set (queue m ?s p)" using queues_disjoint [OF assms pos(2), of ?s p] by simp
      with False index_ready_sat [OF b1] show ?thesis by simp
    qed
    have move: "outcome_sat ?Q ?E (case get_level b1 ?new of None \<Rightarrow> Undefined
        | Some level \<Rightarrow>
            bind_outcome (if ?new \<noteq> ?old \<and> level_order_count level = 0
              then index_add_at b1 ?s p k1 else Done () b1 k1)
            (\<lambda>_ b k. of_option (modify_move b x ?old ?new p q) k))"
      if b1: "book_holds b1 m" "get_order b1 = get_order b" "get_level b1 ?new = Some l" "k \<le> k1 + 3"
      for b1 l k1
      unfolding b1(3) option.case outcome_sat_bind
      by (rule outcome_sat_mono [OF index [OF b1(1,3), of k1]])
        (use b1 Some 3(1) modify_move_correct [of _ m n p x l q] in \<open>auto intro!: of_option_True\<close>)
    have "outcome_sat ?Q ?E (bind_outcome (get_or_create_level b ?s p k) (\<lambda>new_lr b k.
        case get_level b new_lr of None \<Rightarrow> Undefined
        | Some level \<Rightarrow>
            bind_outcome (if new_lr \<noteq> ?old \<and> level_order_count level = 0
              then index_add_at b ?s p k else Done () b k)
            (\<lambda>_ b k. of_option (modify_move b x ?old new_lr p q) k)))"
      unfolding outcome_sat_bind [of _ _ "get_or_create_level _ _ _ _"]
      by (rule outcome_sat_mono [OF get_or_create_level_sat [OF assms, of ?s p k]])
        (use assms move in auto)
    with 3 Some pos(3) show ?thesis
      by (auto simp: implements_def res book_modify_def)
  qed
qed

lemma book_replace_correct:
  assumes "book_holds b m"
  shows "implements m (market_replace x y p q m) 9 k (book_replace b x y p q k)"
proof (cases "get_order b x = None \<or> q = 0 \<or> (x \<noteq> y \<and> get_order b y \<noteq> None)")
  case True
  with resting_iff [OF assms, of x] resting_iff [OF assms, of y]
  have "market_replace x y p q m = (False, m)" "book_replace b x y p q k = Done False b k"
    by (auto simp: market_replace_def book_replace_def market_modify_def book_modify_def
        split: option.splits)
  with assms show ?thesis by (simp add: implements_unchanged)
next
  case False
  then obtain n where n: "get_order b x = Some n" "q \<noteq> 0" by auto
  show ?thesis
  proof (cases "x = y")
    case True
    with n resting_iff [OF assms, of x] have "market_replace x y p q m = market_modify x p q m"
      "book_replace b x y p q k = book_modify b x p q k"
      by (simp_all add: market_replace_def book_replace_def)
    with book_modify_correct [OF assms, of x p q k] show ?thesis
      by (auto simp: implements_def elim!: outcome_sat_mono)
  next
    case ne: False
    let ?od = "\<lparr>ro_side = node_side n, ro_price = p, ro_quantity = q\<rparr>"
    have y: "get_order b y = None" "resting m y = None"
      using False ne resting_iff [OF assms, of y] by auto
    have res: "market_replace x y p q m = (True, remove_order x (rest_order y ?od m))"
      using n ne y resting_iff [OF assms, of x] by (simp add: market_replace_def)
    have added: "market_add y (node_side n) p q m = (True, rest_order y ?od m)"
      using n y by (simp add: market_add_def)
    have "resting (rest_order y ?od m) x \<noteq> None"
      using n(1) ne resting_iff [OF assms, of x] by (simp add: rest_order_def)
    then have erased: "market_erase x (rest_order y ?od m) = (True, remove_order x (rest_order y ?od m))"
      by (simp add: market_erase_def)
    have "implements m (market_replace x y p q m) 9 k
      (bind_outcome (book_add b y (node_side n) p q k)
        (\<lambda>added b k. if \<not> added then Done False b k else of_option (book_erase b x) k))"
      unfolding implements_def outcome_sat_bind res fst_conv snd_conv
      by (rule outcome_sat_mono [OF book_add_correct [OF assms, of y "node_side n" p q k,
            unfolded implements_def added fst_conv snd_conv]])
        (use book_erase_correct [of _ "rest_order y ?od m" x] erased in \<open>auto intro!: of_option_True\<close>)
    with n ne y show ?thesis by (simp add: book_replace_def)
  qed
qed

subsection \<open>The queries\<close>

definition market_view :: "order_id \<Rightarrow> resting_order \<Rightarrow> order_view" where
  "market_view x od = \<lparr>view_id = x, view_side = ro_side od, view_price = ro_price od,
     view_quantity = ro_quantity od\<rparr>"

definition active_prices :: "side \<Rightarrow> market \<Rightarrow> price set" where
  "active_prices s m = {p. queue m s p \<noteq> []}"

definition market_best :: "side \<Rightarrow> market \<Rightarrow> price option" where
  "market_best s m =
     (if active_prices s m = {} then None
      else Some (if s = Buy then Max (active_prices s m) else Min (active_prices s m)))"

definition market_depth :: "side \<Rightarrow> price \<Rightarrow> market \<Rightarrow> depth option" where
  "market_depth s p m =
     (if queue m s p = [] then None
      else Some \<lparr>depth_price = p, depth_quantity = displayed (resting m) (queue m s p),
                 depth_order_count = of_nat (length (queue m s p))\<rparr>)"

definition market_front :: "side \<Rightarrow> price \<Rightarrow> market \<Rightarrow> order_view option" where
  "market_front s p m =
     (case queue m s p of [] \<Rightarrow> None | x # _ \<Rightarrow> map_option (market_view x) (resting m x))"

lemma view_of_market_view:
  "node_id n = x \<Longrightarrow> view_of n = market_view x (resting_of n)"
  by (simp add: view_of_def market_view_def)

lemma book_contains_correct:
  "book_holds b m \<Longrightarrow> book_contains b x \<longleftrightarrow> resting m x \<noteq> None"
  by (simp add: book_contains_def resting_iff)

lemma book_order_correct:
  assumes "book_holds b m"
  shows "book_order b x = map_option (market_view x) (resting m x)"
  using orders_holdD(4) [OF book_stateD(2) [OF assms]] resting_iff [OF assms, of x]
  by (cases "get_order b x") (simp_all add: book_order_def view_of_market_view)

lemma dom_resting:
  assumes "book_holds b m"
  shows "dom (resting m) = fmdom' (orders b)"
  using resting_iff [OF assms] by (auto simp: get_order_def dom_def fmlookup_dom'_iff)

lemma book_order_count_correct:
  assumes "book_holds b m"
  shows "book_order_count b = of_nat (card (dom (resting m)))"
  by (simp add: book_order_count_def dom_resting [OF assms] fmdom'_alt_def fcard.rep_eq)

definition best_price :: "side \<Rightarrow> order_book \<Rightarrow> price option option" where
  "best_price s b = (if s = Buy then best_bid b else best_ask b)"

lemma best_price_correct:
  assumes "book_holds b m"
  shows "best_price s b = Some (market_best s m)"
proof -
  have "index_inv (indices b (side_index s))"
    "index_prices (indices b (side_index s)) = active_prices s m"
    using book_stateD(3) [OF assms] by (simp_all add: index_holds_def active_prices_def)
  then show ?thesis
    by (cases s) (simp_all add: best_price_def best_bid_def best_ask_def index_maximum_def
        index_minimum_def price_index.find_extreme market_best_def)
qed

lemma best_bid_correct: "book_holds b m \<Longrightarrow> best_bid b = Some (market_best Buy m)"
  using best_price_correct [of b m Buy] by (simp add: best_price_def)

lemma best_ask_correct: "book_holds b m \<Longrightarrow> best_ask b = Some (market_best Sell m)"
  using best_price_correct [of b m Sell] by (simp add: best_price_def)

text \<open>
  The depth of a level counts its orders at the width of \<^verbatim>\<open>size_t\<close>: the count is exact
  as long as one of the 64-bit ids is not in the queue.
\<close>

lemma book_depth_correct:
  assumes "book_holds b m" "\<exists>y. resting m y = None"
  shows "book_depth b s p = market_depth s p m"
proof -
  obtain y where "resting m y = None" using assms(2) by blast
  then have "y \<notin> set (queue m s p)" by (rule not_queued [OF assms(1)])
  from count_zero_iff [OF market_inv_D(1) [OF book_stateD(1) [OF assms(1)]] this]
    book_stateD(4) [OF assms(1), of s p]
  show ?thesis
    by (auto simp: book_depth_def market_depth_def level_holds_def level_links_def split: option.splits)
qed

text \<open>Two books that hold the same market show the same depth, however large the market is.\<close>

lemma book_depth_same:
  assumes "book_holds b m" "book_holds b' m"
  shows "book_depth b' s p = book_depth b s p"
proof -
  have "level_holds (get_order c) (resting m) s p (queue m s p) (get_level c (side_index s, p))"
    if "book_holds c m" for c
    by (rule book_stateD(4) [OF that])
  from this [OF assms(1)] this [OF assms(2)] show ?thesis
    by (auto simp: book_depth_def level_holds_def level_links_def split: option.splits)
qed

lemma front_order_correct:
  assumes "book_holds b m"
  shows "front_order b s p = Some (market_front s p m)"
proof (cases "get_level b (side_index s, p)")
  case None
  then have "queue m s p = []" using book_stateD(4) [OF assms, of s p] by (simp add: level_holds_def)
  with None show ?thesis by (simp add: front_order_def market_front_def)
next
  case (Some l)
  then have head: "level_head l = front_of (queue m s p) None"
    using book_stateD(4) [OF assms, of s p] by (simp add: level_holds_def level_links_def)
  show ?thesis
  proof (cases "queue m s p")
    case Nil
    with Some head show ?thesis by (simp add: front_order_def market_front_def)
  next
    case (Cons x xs)
    then have "x \<in> set (queue m s p)" by simp
    then obtain od where "resting m x = Some od"
      using market_inv_D(2) [OF book_stateD(1) [OF assms], where x = x and s = s and p = p] by auto
    then obtain n where n: "get_order b x = Some n" "od = resting_of n"
      using orders_holdD(5) [OF book_stateD(2) [OF assms]] by blast
    moreover have "node_id n = x" using orders_holdD(4) [OF book_stateD(2) [OF assms] n(1)] .
    ultimately show ?thesis
      using Some head Cons \<open>resting m x = Some od\<close>
      by (simp add: front_order_def market_front_def view_of_market_view)
  qed
qed

lemma book_clear_correct:
  "book_holds (book_clear b) empty_market"
proof -
  have "index_inv (indices (book_clear b) (side_index s))"
    "index_prices (indices (book_clear b) (side_index s)) = {}" for s
    by (cases s; simp add: book_clear_def index_reset_correct)+
  moreover have "get_level (book_clear b) (side_index s, p) = None" for s p
    by (cases s) (simp_all add: book_clear_def get_level_def)
  moreover have "get_order (book_clear b) x = None" for x
    by (simp add: book_clear_def get_order_def)
  ultimately show ?thesis
    by (simp add: book_state_def orders_hold_def index_holds_def level_holds_def)
      (simp add: empty_market_def)
qed

end
