(* ===== verification/Reference_Book.thy ===== *)
theory Reference_Book
  imports Book_Refinement
begin

section \<open>The reference book of the tests\<close>

text \<open>
  \<^verbatim>\<open>ReferenceBook\<close> of \<^verbatim>\<open>tests/order_book_model_test.cpp\<close>: the
  ordered maps of FIFO queues the test suite compares the engine's book with. A failed
  \<^verbatim>\<open>require\<close> ends the test program and is \<open>None\<close>. The reference book
  implements the same abstract operations; with the refinement of the optimised book this gives
  their equivalence over every sequence of operations, which the tests sample.
\<close>

record reference_order =
  ref_side :: side
  ref_price :: price
  ref_quantity :: quantity

record reference_book =
  ref_orders :: "(order_id, reference_order) fmap"
  ref_bids :: "(price, order_id list) fmap"
  ref_asks :: "(price, order_id list) fmap"

definition new_reference :: reference_book where
  "new_reference = \<lparr>ref_orders = fmempty, ref_bids = fmempty, ref_asks = fmempty\<rparr>"

definition levels_for :: "side \<Rightarrow> reference_book \<Rightarrow> (price, order_id list) fmap" where
  "levels_for s r = (if s = Buy then ref_bids r else ref_asks r)"

definition with_levels ::
  "side \<Rightarrow> (price, order_id list) fmap \<Rightarrow> reference_book \<Rightarrow> reference_book" where
  "with_levels s l r = (if s = Buy then r\<lparr>ref_bids := l\<rparr> else r\<lparr>ref_asks := l\<rparr>)"

text \<open>\<^verbatim>\<open>levels(side)[price].push_back(id)\<close>\<close>

definition push_back :: "side \<Rightarrow> price \<Rightarrow> order_id \<Rightarrow> reference_book \<Rightarrow> reference_book" where
  "push_back s p x r =
     with_levels s
       (fmupd p ((case fmlookup (levels_for s r) p of None \<Rightarrow> [] | Some xs \<Rightarrow> xs) @ [x]) (levels_for s r)) r"

definition remove_from_level ::
  "order_id \<Rightarrow> reference_order \<Rightarrow> reference_book \<Rightarrow> reference_book option" where
  "remove_from_level x od r =
     (case fmlookup (levels_for (ref_side od) r) (ref_price od) of
        None \<Rightarrow> None
      | Some xs \<Rightarrow>
          if x \<notin> set xs then None
          else
            let xs' = remove1 x xs in
            Some (with_levels (ref_side od)
              (if xs' = [] then fmdrop (ref_price od) (levels_for (ref_side od) r)
               else fmupd (ref_price od) xs' (levels_for (ref_side od) r)) r))"

definition ref_add ::
  "order_id \<Rightarrow> side \<Rightarrow> price \<Rightarrow> quantity \<Rightarrow> reference_book \<Rightarrow> bool \<times> reference_book" where
  "ref_add x s p q r =
     (if q = 0 \<or> fmlookup (ref_orders r) x \<noteq> None then (False, r)
      else (True, push_back s p x
        (r\<lparr>ref_orders := fmupd x \<lparr>ref_side = s, ref_price = p, ref_quantity = q\<rparr> (ref_orders r)\<rparr>)))"

definition ref_erase :: "order_id \<Rightarrow> reference_book \<Rightarrow> (bool \<times> reference_book) option" where
  "ref_erase x r =
     (case fmlookup (ref_orders r) x of
        None \<Rightarrow> Some (False, r)
      | Some found \<Rightarrow>
          map_option (\<lambda>r. (True, r\<lparr>ref_orders := fmdrop x (ref_orders r)\<rparr>))
            (remove_from_level x found r))"

definition ref_cancel ::
  "order_id \<Rightarrow> quantity \<Rightarrow> reference_book \<Rightarrow> (bool \<times> reference_book) option" where
  "ref_cancel x q r =
     (case fmlookup (ref_orders r) x of
        None \<Rightarrow> Some (False, r)
      | Some found \<Rightarrow>
          if q = 0 \<or> q > ref_quantity found then Some (False, r)
          else if q = ref_quantity found then ref_erase x r
          else Some (True, r\<lparr>ref_orders :=
            fmupd x (found\<lparr>ref_quantity := ref_quantity found - q\<rparr>) (ref_orders r)\<rparr>))"

definition ref_execute ::
  "order_id \<Rightarrow> quantity \<Rightarrow> reference_book \<Rightarrow> (bool \<times> reference_book) option" where
  "ref_execute x q r = ref_cancel x q r"

definition ref_modify ::
  "order_id \<Rightarrow> price \<Rightarrow> quantity \<Rightarrow> reference_book \<Rightarrow> (bool \<times> reference_book) option" where
  "ref_modify x p q r =
     (case fmlookup (ref_orders r) x of
        None \<Rightarrow> Some (False, r)
      | Some found \<Rightarrow>
          if q = 0 then Some (False, r)
          else if p = ref_price found \<and> q \<le> ref_quantity found then
            Some (True, r\<lparr>ref_orders := fmupd x (found\<lparr>ref_quantity := q\<rparr>) (ref_orders r)\<rparr>)
          else
            map_option (\<lambda>r. (True, push_back (ref_side found) p x
                (r\<lparr>ref_orders := fmupd x (found\<lparr>ref_price := p, ref_quantity := q\<rparr>) (ref_orders r)\<rparr>)))
              (remove_from_level x found r))"

definition ref_replace ::
  "order_id \<Rightarrow> order_id \<Rightarrow> price \<Rightarrow> quantity \<Rightarrow> reference_book \<Rightarrow> (bool \<times> reference_book) option" where
  "ref_replace old_id new_id p q r =
     (case fmlookup (ref_orders r) old_id of
        None \<Rightarrow> Some (False, r)
      | Some old \<Rightarrow>
          if q = 0 then Some (False, r)
          else if old_id = new_id then ref_modify old_id p q r
          else if fmlookup (ref_orders r) new_id \<noteq> None then Some (False, r)
          else
            let (added, r) = ref_add new_id (ref_side old) p q r in
            if \<not> added then None else ref_erase old_id r)"

definition ref_order :: "reference_book \<Rightarrow> order_id \<Rightarrow> reference_order option" where
  "ref_order r x = fmlookup (ref_orders r) x"

definition ref_order_count :: "reference_book \<Rightarrow> size_t" where
  "ref_order_count r = of_nat (fcard (fmdom (ref_orders r)))"

definition ref_best :: "side \<Rightarrow> reference_book \<Rightarrow> price option" where
  "ref_best s r =
     (let prices = fmdom' (levels_for s r) in
      if prices = {} then None else Some (if s = Buy then Max prices else Min prices))"

subsection \<open>The reference book implements the abstract book\<close>

definition resting_of_ref :: "reference_order \<Rightarrow> resting_order" where
  "resting_of_ref od = \<lparr>ro_side = ref_side od, ro_price = ref_price od, ro_quantity = ref_quantity od\<rparr>"

definition ref_market :: "reference_book \<Rightarrow> market" where
  "ref_market r =
     \<lparr>resting = (\<lambda>x. map_option resting_of_ref (fmlookup (ref_orders r) x)),
      queue = (\<lambda>s p. case fmlookup (levels_for s r) p of None \<Rightarrow> [] | Some xs \<Rightarrow> xs)\<rparr>"

definition no_empty_level :: "reference_book \<Rightarrow> bool" where
  "no_empty_level r \<longleftrightarrow> (\<forall>s p. fmlookup (levels_for s r) p \<noteq> Some [])"

definition ref_inv :: "reference_book \<Rightarrow> bool" where
  "ref_inv r \<longleftrightarrow> market_inv (ref_market r) \<and> no_empty_level r"

lemma resting_of_ref_simps [simp]:
  "ro_side (resting_of_ref od) = ref_side od" "ro_price (resting_of_ref od) = ref_price od"
  "ro_quantity (resting_of_ref od) = ref_quantity od"
  "resting_of_ref \<lparr>ref_side = s, ref_price = p, ref_quantity = q\<rparr> =
     \<lparr>ro_side = s, ro_price = p, ro_quantity = q\<rparr>"
  "resting_of_ref (od\<lparr>ref_quantity := q\<rparr>) = (resting_of_ref od)\<lparr>ro_quantity := q\<rparr>"
  "resting_of_ref (od\<lparr>ref_price := p\<rparr>) = (resting_of_ref od)\<lparr>ro_price := p\<rparr>"
  by (simp_all add: resting_of_ref_def)

lemma levels_for_simps [simp]:
  "levels_for s (with_levels s' l r) = (if s = s' then l else levels_for s r)"
  "ref_orders (with_levels s l r) = ref_orders r"
  "levels_for s (r\<lparr>ref_orders := om\<rparr>) = levels_for s r"
  by (cases s; cases s'; simp add: levels_for_def with_levels_def)
     (simp_all add: levels_for_def with_levels_def)

lemma new_reference_inv: "ref_inv new_reference" "ref_market new_reference = empty_market"
proof -
  show "ref_market new_reference = empty_market"
    by (simp add: ref_market_def new_reference_def empty_market_def levels_for_def fun_eq_iff)
  then show "ref_inv new_reference"
    by (simp add: ref_inv_def no_empty_level_def) (simp add: new_reference_def levels_for_def)
qed

lemma ref_resting:
  "resting (ref_market r) x = map_option resting_of_ref (fmlookup (ref_orders r) x)"
  by (simp add: ref_market_def)

lemma ref_queue:
  "queue (ref_market r) s p = (case fmlookup (levels_for s r) p of None \<Rightarrow> [] | Some xs \<Rightarrow> xs)"
  by (simp add: ref_market_def)

lemma market_eqI:
  fixes m m' :: market
  assumes "\<And>x. resting m x = resting m' x" "\<And>s p. queue m s p = queue m' s p"
  shows "m = m'"
  using assms by (cases m; cases m') (auto simp: fun_eq_iff)

definition ref_implements :: "market \<Rightarrow> bool \<times> market \<Rightarrow> (bool \<times> reference_book) option \<Rightarrow> bool" where
  "ref_implements m r res \<longleftrightarrow> (\<exists>r'. res = Some (fst r, r') \<and> ref_inv r' \<and> ref_market r' = snd r)"

lemma push_back_market:
  assumes "ro_side od = s" "ro_price od = p" "resting_of_ref od' = od"
  shows "ref_market (push_back s p x (r\<lparr>ref_orders := fmupd x od' (ref_orders r)\<rparr>)) =
    rest_order x od (ref_market r)"
  using assms
  by (intro market_eqI)
    (simp_all add: ref_resting ref_queue push_back_def rest_order_def split: option.splits)

lemma push_back_no_empty [simp]:
  "no_empty_level r \<Longrightarrow> no_empty_level (push_back s p x (r\<lparr>ref_orders := om\<rparr>))"
  "no_empty_level r \<Longrightarrow> no_empty_level (r\<lparr>ref_orders := om\<rparr>)"
  by (simp_all add: no_empty_level_def push_back_def)

lemma ref_implementsI:
  assumes "res = Some (v, r')" "v = fst m'" "ref_market r' = snd m'" "no_empty_level r'" "market_inv (snd m')"
  shows "ref_implements m m' res"
  using assms by (simp add: ref_implements_def ref_inv_def)

lemma ref_unchanged:
  "ref_inv r \<Longrightarrow> ref_implements m (False, ref_market r) (Some (False, r))"
  by (simp add: ref_implements_def)

lemma ref_add_correct:
  assumes "ref_inv r"
  shows "ref_implements (ref_market r) (market_add x s p q (ref_market r)) (Some (ref_add x s p q r))"
proof (cases "q = 0 \<or> fmlookup (ref_orders r) x \<noteq> None")
  case True
  with assms show ?thesis
    by (auto simp: ref_implements_def ref_add_def market_add_def ref_resting)
next
  case False
  let ?od = "\<lparr>ref_side = s, ref_price = p, ref_quantity = q\<rparr>"
  let ?r = "push_back s p x (r\<lparr>ref_orders := fmupd x ?od (ref_orders r)\<rparr>)"
  have "ref_market ?r = rest_order x \<lparr>ro_side = s, ro_price = p, ro_quantity = q\<rparr> (ref_market r)"
    by (rule push_back_market) simp_all
  moreover have "market_inv (rest_order x \<lparr>ro_side = s, ro_price = p, ro_quantity = q\<rparr> (ref_market r))"
    using assms False by (intro rest_order_inv) (simp_all add: ref_inv_def ref_resting)
  ultimately show ?thesis using assms False
    by (intro ref_implementsI [where r' = ?r])
       (auto simp: ref_add_def market_add_def ref_resting ref_inv_def)
qed

text \<open>The only \<^verbatim>\<open>require\<close>s the reference book contains do not fail.\<close>

lemma remove_from_level_correct:
  assumes "ref_inv r" "fmlookup (ref_orders r) x = Some od"
  shows "\<exists>r'. remove_from_level x od r = Some r' \<and> ref_orders r' = ref_orders r \<and> no_empty_level r' \<and>
    (\<forall>s p. queue (ref_market r') s p = remove1 x (queue (ref_market r) s p))"
proof -
  let ?l = "levels_for (ref_side od) r"
  note inv = market_inv_D [OF conjunct1 [OF assms(1) [unfolded ref_inv_def]]]
  have mem: "x \<in> set (queue (ref_market r) s p) \<longleftrightarrow> s = ref_side od \<and> p = ref_price od" for s p
    using inv(2) [where x = x and s = s and p = p] assms(2) by (auto simp: ref_resting)
  obtain xs where xs: "fmlookup ?l (ref_price od) = Some xs" "x \<in> set xs"
    using mem [of "ref_side od" "ref_price od"]
    by (cases "fmlookup ?l (ref_price od)") (auto simp: ref_queue)
  let ?r = "with_levels (ref_side od) (if remove1 x xs = [] then fmdrop (ref_price od) ?l
      else fmupd (ref_price od) (remove1 x xs) ?l) r"
  have "queue (ref_market ?r) s p = remove1 x (queue (ref_market r) s p)" for s p
  proof (cases "s = ref_side od \<and> p = ref_price od")
    case True
    with xs show ?thesis by (simp add: ref_queue)
  next
    case False
    with mem [of s p] have "remove1 x (queue (ref_market r) s p) = queue (ref_market r) s p"
      by (simp add: remove1_idem)
    with False show ?thesis by (auto simp: ref_queue)
  qed
  moreover have "no_empty_level ?r"
    using assms(1) by (simp add: ref_inv_def no_empty_level_def)
  ultimately show ?thesis using xs by (simp add: remove_from_level_def Let_def)
qed

lemma ref_erase_correct:
  assumes "ref_inv r"
  shows "ref_implements (ref_market r) (market_erase x (ref_market r)) (ref_erase x r)"
proof (cases "fmlookup (ref_orders r) x")
  case None
  with assms show ?thesis by (simp add: ref_erase_def market_erase_def ref_resting ref_unchanged)
next
  case (Some od)
  obtain r' where r': "remove_from_level x od r = Some r'" "ref_orders r' = ref_orders r"
    "no_empty_level r'" "\<forall>s p. queue (ref_market r') s p = remove1 x (queue (ref_market r) s p)"
    using remove_from_level_correct [OF assms Some] by blast
  let ?r = "r'\<lparr>ref_orders := fmdrop x (ref_orders r')\<rparr>"
  have "ref_market ?r = remove_order x (ref_market r)"
    using r'(2,4) by (intro market_eqI) (simp_all add: remove_order_def ref_resting ref_queue)
  with r' Some assms show ?thesis
    by (intro ref_implementsI [where r' = ?r])
      (simp_all add: ref_erase_def market_erase_def ref_resting ref_inv_def remove_order_inv)
qed

lemma set_quantity_market:
  assumes "fmlookup (ref_orders r) x = Some od"
  shows "ref_market (r\<lparr>ref_orders := fmupd x (od\<lparr>ref_quantity := q\<rparr>) (ref_orders r)\<rparr>) =
    resize_order x q (ref_market r)"
  using assms by (intro market_eqI) (simp_all add: resize_order_def ref_resting ref_queue)

lemma set_quantity_correct:
  assumes "ref_inv r" "fmlookup (ref_orders r) x = Some od" "q \<noteq> 0"
  shows "ref_implements m (True, resize_order x q (ref_market r))
    (Some (True, r\<lparr>ref_orders := fmupd x (od\<lparr>ref_quantity := q\<rparr>) (ref_orders r)\<rparr>))"
  using assms
  by (intro ref_implementsI [OF refl]) (simp_all add: set_quantity_market ref_inv_def resize_order_inv)

lemma ref_cancel_correct:
  assumes "ref_inv r"
  shows "ref_implements (ref_market r) (market_cancel x q (ref_market r)) (ref_cancel x q r)"
proof (cases "fmlookup (ref_orders r) x")
  case None
  with assms show ?thesis by (simp add: ref_cancel_def market_cancel_def ref_resting ref_unchanged)
next
  case (Some od)
  consider "q = 0 \<or> q > ref_quantity od" | "q = ref_quantity od" "q \<noteq> 0"
    | "q \<noteq> 0" "q < ref_quantity od" by fastforce
  then show ?thesis
  proof cases
    case 1
    with Some assms show ?thesis
      by (auto simp: ref_cancel_def market_cancel_def ref_resting ref_unchanged)
  next
    case 2
    with Some ref_erase_correct [OF assms, of x] show ?thesis
      by (simp add: ref_cancel_def market_cancel_def market_erase_def ref_resting)
  next
    case 3
    then have "ref_quantity od - q \<noteq> 0" by simp
    with 3 Some set_quantity_correct [OF assms Some this] show ?thesis
      by (auto simp: ref_cancel_def market_cancel_def ref_resting)
  qed
qed

lemma ref_modify_correct:
  assumes "ref_inv r"
  shows "ref_implements (ref_market r) (market_modify x p q (ref_market r)) (ref_modify x p q r)"
proof (cases "fmlookup (ref_orders r) x")
  case None
  with assms show ?thesis by (simp add: ref_modify_def market_modify_def ref_resting ref_unchanged)
next
  case (Some od)
  consider "q = 0" | "q \<noteq> 0" "p = ref_price od \<and> q \<le> ref_quantity od"
    | "q \<noteq> 0" "\<not> (p = ref_price od \<and> q \<le> ref_quantity od)" by blast
  then show ?thesis
  proof cases
    case 1
    with Some assms show ?thesis
      by (simp add: ref_modify_def market_modify_def ref_resting ref_unchanged)
  next
    case 2
    with Some set_quantity_correct [OF assms Some 2(1)] show ?thesis
      by (simp add: ref_modify_def market_modify_def ref_resting)
  next
    case 3
    obtain r' where r': "remove_from_level x od r = Some r'" "ref_orders r' = ref_orders r"
      "no_empty_level r'" "\<forall>s p. queue (ref_market r') s p = remove1 x (queue (ref_market r) s p)"
      using remove_from_level_correct [OF assms Some] by blast
    let ?od = "od\<lparr>ref_price := p, ref_quantity := q\<rparr>"
    let ?r = "push_back (ref_side od) p x (r'\<lparr>ref_orders := fmupd x ?od (ref_orders r')\<rparr>)"
    let ?m = "rest_order x (resting_of_ref ?od) (remove_order x (ref_market r))"
    have "ref_market ?r = rest_order x (resting_of_ref ?od) (ref_market r')"
      by (rule push_back_market) simp_all
    also have "\<dots> = ?m"
      using r'(2,4) by (intro market_eqI) (simp_all add: rest_order_def remove_order_def ref_resting)
    finally have m: "ref_market ?r = ?m" .
    have "market_inv ?m"
      using assms 3(1) by (intro rest_order_inv remove_order_inv)
        (simp_all add: ref_inv_def remove_order_def)
    with m r' 3 Some show ?thesis
      by (intro ref_implementsI [where r' = ?r])
         (auto simp: ref_modify_def market_modify_def ref_resting)
  qed
qed

lemma ref_replace_correct:
  assumes "ref_inv r"
  shows "ref_implements (ref_market r) (market_replace x y p q (ref_market r)) (ref_replace x y p q r)"
proof (cases "fmlookup (ref_orders r) x = None \<or> q = 0 \<or> (x \<noteq> y \<and> fmlookup (ref_orders r) y \<noteq> None)")
  case True
  then have "market_replace x y p q (ref_market r) = (False, ref_market r)"
    "ref_replace x y p q r = Some (False, r)"
    by (auto simp: market_replace_def ref_replace_def market_modify_def ref_modify_def ref_resting
        split: option.splits)
  with assms show ?thesis by (simp add: ref_unchanged)
next
  case False
  then obtain od where od: "fmlookup (ref_orders r) x = Some od" "q \<noteq> 0" by auto
  show ?thesis
  proof (cases "x = y")
    case True
    with od ref_modify_correct [OF assms, of x p q] show ?thesis
      by (simp add: market_replace_def ref_replace_def ref_resting)
  next
    case ne: False
    with False have y: "fmlookup (ref_orders r) y = None" by auto
    let ?m = "rest_order y \<lparr>ro_side = ref_side od, ro_price = p, ro_quantity = q\<rparr> (ref_market r)"
    have "market_add y (ref_side od) p q (ref_market r) = (True, ?m)"
      using od y by (simp add: market_add_def ref_resting)
    with ref_add_correct [OF assms, of y "ref_side od" p q]
    obtain r1 where r1: "ref_add y (ref_side od) p q r = (True, r1)" "ref_inv r1" "ref_market r1 = ?m"
      by (auto simp: ref_implements_def)
    have "resting ?m x \<noteq> None" using od ne by (simp add: rest_order_def ref_resting)
    then have "market_erase x ?m = market_replace x y p q (ref_market r)"
      using od ne y by (simp add: market_erase_def market_replace_def ref_resting)
    with ref_erase_correct [OF r1(2), of x] r1 od ne y show ?thesis
      by (simp add: ref_replace_def ref_implements_def)
  qed
qed

end
