(* ===== verification/Book_Runs.thy ===== *)
theory Book_Runs
  imports Reference_Book
begin

section \<open>Runs of the order book against the reference book\<close>

text \<open>
  Sequences of public operations, each with the allocation budget it meets, on the book and on the
  reference book; the observations the two are compared by; and the properties of every run. A run
  is over any operations and any budgets, so that what is proved here holds in every state the
  class can reach, allocation failures included.
\<close>

datatype book_op =
    Op_Add order_id side price quantity
  | Op_Cancel order_id quantity
  | Op_Execute order_id quantity
  | Op_Erase order_id
  | Op_Modify order_id price quantity
  | Op_Replace order_id order_id price quantity
  | Op_Clear

definition book_step :: "book_op \<Rightarrow> order_book \<Rightarrow> nat \<Rightarrow> (order_book, bool) outcome" where
  "book_step op b k =
     (case op of
        Op_Add x s p q \<Rightarrow> book_add b x s p q k
      | Op_Cancel x q \<Rightarrow> of_option (book_cancel b x q) k
      | Op_Execute x q \<Rightarrow> of_option (book_execute b x q) k
      | Op_Erase x \<Rightarrow> of_option (book_erase b x) k
      | Op_Modify x p q \<Rightarrow> book_modify b x p q k
      | Op_Replace x y p q \<Rightarrow> book_replace b x y p q k
      | Op_Clear \<Rightarrow> Done True (book_clear b) k)"

definition ref_step :: "book_op \<Rightarrow> reference_book \<Rightarrow> (bool \<times> reference_book) option" where
  "ref_step op r =
     (case op of
        Op_Add x s p q \<Rightarrow> Some (ref_add x s p q r)
      | Op_Cancel x q \<Rightarrow> ref_cancel x q r
      | Op_Execute x q \<Rightarrow> ref_execute x q r
      | Op_Erase x \<Rightarrow> ref_erase x r
      | Op_Modify x p q \<Rightarrow> ref_modify x p q r
      | Op_Replace x y p q \<Rightarrow> ref_replace x y p q r
      | Op_Clear \<Rightarrow> Some (True, new_reference))"

definition market_step :: "book_op \<Rightarrow> market \<Rightarrow> bool \<times> market" where
  "market_step op m =
     (case op of
        Op_Add x s p q \<Rightarrow> market_add x s p q m
      | Op_Cancel x q \<Rightarrow> market_cancel x q m
      | Op_Execute x q \<Rightarrow> market_cancel x q m
      | Op_Erase x \<Rightarrow> market_erase x m
      | Op_Modify x p q \<Rightarrow> market_modify x p q m
      | Op_Replace x y p q \<Rightarrow> market_replace x y p q m
      | Op_Clear \<Rightarrow> (True, empty_market))"

text \<open>
  A run returns the results in order, \<open>None\<close> for an operation that threw, and the final
  book; it is \<open>None\<close> if an operation runs into undefined behaviour. The reference book is
  given the operations that did not throw.
\<close>

fun book_run :: "order_book \<Rightarrow> (book_op \<times> nat) list \<Rightarrow> (bool option list \<times> order_book) option" where
  "book_run b [] = Some ([], b)"
| "book_run b ((op, k) # ops) =
     (case book_step op b k of
        Undefined \<Rightarrow> None
      | Done v b' _ \<Rightarrow> map_option (\<lambda>(vs, e). (Some v # vs, e)) (book_run b' ops)
      | Thrown b' \<Rightarrow> map_option (\<lambda>(vs, e). (None # vs, e)) (book_run b' ops))"

fun ref_run ::
  "reference_book \<Rightarrow> (book_op \<times> bool) list \<Rightarrow> (bool option list \<times> reference_book) option" where
  "ref_run r [] = Some ([], r)"
| "ref_run r ((op, completed) # ops) =
     (if completed then
        (case ref_step op r of
           None \<Rightarrow> None
         | Some (v, r') \<Rightarrow> map_option (\<lambda>(vs, e). (Some v # vs, e)) (ref_run r' ops))
      else map_option (\<lambda>(vs, e). (None # vs, e)) (ref_run r ops))"

fun market_run :: "market \<Rightarrow> (book_op \<times> bool) list \<Rightarrow> bool option list \<times> market" where
  "market_run m [] = ([], m)"
| "market_run m ((op, completed) # ops) =
     (let (v, m') = (if completed then map_prod Some id (market_step op m) else (None, m));
          (vs, e) = market_run m' ops in (v # vs, e))"

definition completions :: "(book_op \<times> nat) list \<Rightarrow> bool option list \<Rightarrow> (book_op \<times> bool) list" where
  "completions ops vs = zip (map fst ops) (map (\<lambda>v. v \<noteq> None) vs)"

subsection \<open>Steps\<close>

lemma implements_of_option:
  assumes "\<exists>b'. r = Some (fst a, b') \<and> book_holds b' (snd a)"
  shows "implements m a need k (of_option r k)"
  using assms by (auto simp: implements_def of_option_sat)

lemma implements_mono:
  "implements m a need k res \<Longrightarrow> need \<le> need' \<Longrightarrow> implements m a need' k res"
  by (auto simp: implements_def elim!: outcome_sat_mono)

lemma book_step_correct:
  assumes "book_holds b m"
  shows "implements m (market_step op m) 9 k (book_step op b k)"
  using book_add_correct [OF assms] book_replace_correct [OF assms]
    implements_mono [OF book_modify_correct [OF assms], of 9]
    book_cancel_correct [OF assms] book_execute_correct [OF assms] book_erase_correct [OF assms]
    book_clear_correct [of b]
  by (cases op) (simp_all add: book_step_def market_step_def implements_of_option,
      simp add: implements_def)

lemma ref_step_correct:
  assumes "ref_inv r"
  shows "ref_implements (ref_market r) (market_step op (ref_market r)) (ref_step op r)"
  using ref_add_correct [OF assms] ref_replace_correct [OF assms] ref_modify_correct [OF assms]
    ref_cancel_correct [OF assms] ref_erase_correct [OF assms] new_reference_inv
  by (cases op) (simp_all add: ref_step_def market_step_def ref_execute_def,
      simp add: ref_implements_def)

lemma market_run_Cons:
  "market_run m ((op, True) # cs) =
     (Some (fst (market_step op m)) # fst (market_run (snd (market_step op m)) cs),
      snd (market_run (snd (market_step op m)) cs))"
  "market_run m ((op, False) # cs) = (None # fst (market_run m cs), snd (market_run m cs))"
  by (simp_all add: Let_def split_beta)

lemma completions_simps:
  "completions ((op, k) # ops) (Some v # vs) = (op, True) # completions ops vs"
  "completions ((op, k) # ops) (None # vs) = (op, False) # completions ops vs"
  by (simp_all add: completions_def)

lemma book_run_correct:
  assumes "book_holds b m"
  shows "\<exists>vs b'. book_run b ops = Some (vs, b') \<and> length vs = length ops \<and>
    fst (market_run m (completions ops vs)) = vs \<and>
    book_holds b' (snd (market_run m (completions ops vs)))"
  using assms
proof (induction ops arbitrary: b m)
  case Nil
  then show ?case by (simp add: completions_def)
next
  case (Cons a ops)
  obtain op k where a: "a = (op, k)" by (cases a)
  note step = book_step_correct [OF Cons.prems, of op k, unfolded implements_def]
  show ?case
  proof (cases "book_step op b k")
    case (Done v b1 k1)
    with step have b1: "v = fst (market_step op m)" "book_holds b1 (snd (market_step op m))" by simp_all
    obtain vs e where run: "book_run b1 ops = Some (vs, e)" "length vs = length ops"
      "fst (market_run (snd (market_step op m)) (completions ops vs)) = vs"
      "book_holds e (snd (market_run (snd (market_step op m)) (completions ops vs)))"
      using Cons.IH [OF b1(2)] by blast
    have "book_run b (a # ops) = Some (Some v # vs, e)" using Done a run(1) by simp
    with run b1(1) a show ?thesis
      by (simp add: completions_simps market_run_Cons del: market_run.simps)
  next
    case (Thrown b1)
    with step have "book_holds b1 m" by simp
    then obtain vs e where run: "book_run b1 ops = Some (vs, e)" "length vs = length ops"
      "fst (market_run m (completions ops vs)) = vs" "book_holds e (snd (market_run m (completions ops vs)))"
      using Cons.IH by blast
    have "book_run b (a # ops) = Some (None # vs, e)" using Thrown a run(1) by simp
    with run a show ?thesis
      by (simp add: completions_simps market_run_Cons del: market_run.simps)
  next
    case Undefined
    with step show ?thesis by simp
  qed
qed

lemma ref_run_correct:
  assumes "ref_inv r"
  shows "\<exists>r'. ref_run r cs = Some (fst (market_run (ref_market r) cs), r') \<and> ref_inv r' \<and>
    ref_market r' = snd (market_run (ref_market r) cs)"
  using assms
proof (induction cs arbitrary: r)
  case (Cons c cs)
  obtain op d where c: "c = (op, d)" by (cases c)
  show ?case
  proof (cases d)
    case True
    obtain r1 where r1: "ref_step op r = Some (fst (market_step op (ref_market r)), r1)" "ref_inv r1"
      "ref_market r1 = snd (market_step op (ref_market r))"
      using ref_step_correct [OF Cons.prems, of op] by (auto simp: ref_implements_def)
    from Cons.IH [OF r1(2)] obtain e where "ref_run r1 cs = Some (fst (market_run (ref_market r1) cs), e)"
      "ref_inv e" "ref_market e = snd (market_run (ref_market r1) cs)" by blast
    with r1 c True show ?thesis by (simp add: market_run_Cons del: market_run.simps)
  next
    case False
    from Cons.IH [OF Cons.prems] obtain e where "ref_run r cs = Some (fst (market_run (ref_market r) cs), e)"
      "ref_inv e" "ref_market e = snd (market_run (ref_market r) cs)" by blast
    with c False show ?thesis by (simp add: market_run_Cons del: market_run.simps)
  qed
qed simp

subsection \<open>Observations\<close>

text \<open>The ids of a queue, read off the nodes' pointers from one end of the level.\<close>

fun walk :: "nat \<Rightarrow> (order_node \<Rightarrow> order_id option) \<Rightarrow> order_book \<Rightarrow> order_id option \<Rightarrow>
    order_id list option" where
  "walk k link b None = Some []"
| "walk 0 link b (Some x) = None"
| "walk (Suc k) link b (Some x) =
     (case get_order b x of
        None \<Rightarrow> None
      | Some n \<Rightarrow> map_option ((#) x) (walk k link b (link n)))"

definition forward_ids :: "order_book \<Rightarrow> side \<Rightarrow> price \<Rightarrow> order_id list option" where
  "forward_ids b s p =
     (case get_level b (side_index s, p) of
        None \<Rightarrow> Some []
      | Some l \<Rightarrow> walk (fcard (fmdom (orders b))) node_next b (level_head l))"

definition backward_ids :: "order_book \<Rightarrow> side \<Rightarrow> price \<Rightarrow> order_id list option" where
  "backward_ids b s p =
     (case get_level b (side_index s, p) of
        None \<Rightarrow> Some []
      | Some l \<Rightarrow> walk (fcard (fmdom (orders b))) node_previous b (level_tail l))"

lemma walk_forward:
  "segment (get_order b) lr p xs None \<Longrightarrow> length xs \<le> k \<Longrightarrow>
     walk k node_next b (front_of xs None) = Some xs"
proof (induction xs arbitrary: p k)
  case (Cons x xs)
  then show ?case by (cases k) auto
qed simp

lemma walk_backward:
  "segment (get_order b) lr None xs q \<Longrightarrow> length xs \<le> k \<Longrightarrow>
     walk k node_previous b (back_of xs None) = Some (rev xs)"
proof (induction xs arbitrary: q k rule: rev_induct)
  case (snoc x xs)
  then show ?case by (cases k) auto
qed simp

lemma queue_length_le:
  assumes "book_holds b m"
  shows "length (queue m s p) \<le> fcard (fmdom (orders b))"
proof -
  have "set (queue m s p) \<subseteq> dom (resting m)"
    using market_inv_D(2) [OF book_stateD(1) [OF assms], where s = s and p = p] by auto
  then have "card (set (queue m s p)) \<le> card (dom (resting m))" by (intro card_mono) auto
  then show ?thesis
    using market_inv_D(1) [OF book_stateD(1) [OF assms], of s p]
    by (simp add: distinct_card dom_resting [OF assms] fmdom'_alt_def fcard.rep_eq)
qed

lemma ids_correct:
  assumes "book_holds b m"
  shows "forward_ids b s p = Some (queue m s p)" "backward_ids b s p = Some (rev (queue m s p))"
  using book_stateD(4) [OF assms, of s p] queue_length_le [OF assms, of s p]
    walk_forward walk_backward
  by (auto simp: forward_ids_def backward_ids_def level_holds_def level_links_def
      split: option.splits)

text \<open>
  The comparison of the tests: every order, the number of orders, the best prices and, at every
  price of either side, the aggregate depth and the front order. Beyond the tests it reads the
  whole queue in both directions.
\<close>

definition ref_queue_at :: "reference_book \<Rightarrow> side \<Rightarrow> price \<Rightarrow> order_id list" where
  "ref_queue_at r s p = (case fmlookup (levels_for s r) p of None \<Rightarrow> [] | Some xs \<Rightarrow> xs)"

definition ref_view :: "reference_book \<Rightarrow> order_id \<Rightarrow> order_view option" where
  "ref_view r x =
     map_option (\<lambda>od. \<lparr>view_id = x, view_side = ref_side od, view_price = ref_price od,
       view_quantity = ref_quantity od\<rparr>) (ref_order r x)"

definition ref_depth :: "reference_book \<Rightarrow> side \<Rightarrow> price \<Rightarrow> depth option" where
  "ref_depth r s p =
     (let fifo = ref_queue_at r s p in
      if fifo = [] then None
      else Some \<lparr>depth_price = p,
        depth_quantity = (\<Sum>x\<leftarrow>fifo. case ref_order r x of None \<Rightarrow> 0 | Some od \<Rightarrow> ucast (ref_quantity od)),
        depth_order_count = of_nat (length fifo)\<rparr>)"

definition ref_front :: "reference_book \<Rightarrow> side \<Rightarrow> price \<Rightarrow> order_view option" where
  "ref_front r s p = (case ref_queue_at r s p of [] \<Rightarrow> None | x # _ \<Rightarrow> ref_view r x)"

definition same_observations :: "order_book \<Rightarrow> reference_book \<Rightarrow> bool" where
  "same_observations b r \<longleftrightarrow>
     (\<forall>x. book_contains b x \<longleftrightarrow> ref_order r x \<noteq> None) \<and>
     (\<forall>x. book_order b x = ref_view r x) \<and>
     book_order_count b = ref_order_count r \<and>
     best_bid b = Some (ref_best Buy r) \<and> best_ask b = Some (ref_best Sell r) \<and>
     (\<forall>s p. front_order b s p = Some (ref_front r s p)) \<and>
     (\<forall>s p. forward_ids b s p = Some (ref_queue_at r s p)) \<and>
     (\<forall>s p. backward_ids b s p = Some (rev (ref_queue_at r s p)))"

lemma ref_observations:
  assumes "ref_inv r"
  shows "ref_view r x = map_option (market_view x) (resting (ref_market r) x)"
    and "ref_queue_at r s p = queue (ref_market r) s p"
    and "ref_best s r = market_best s (ref_market r)"
    and "ref_depth r s p = market_depth s p (ref_market r)"
    and "ref_order_count r = of_nat (card (dom (resting (ref_market r))))"
proof -
  show view: "ref_view r x = map_option (market_view x) (resting (ref_market r) x)" for x
    by (cases "fmlookup (ref_orders r) x")
      (simp_all add: ref_view_def ref_order_def ref_resting market_view_def)
  show q: "ref_queue_at r s p = queue (ref_market r) s p" for s p
    by (simp add: ref_queue_at_def ref_queue)
  have "active_prices s (ref_market r) = fmdom' (levels_for s r)" for s
    using assms by (auto simp: active_prices_def ref_queue fmlookup_dom'_iff ref_inv_def
        no_empty_level_def split: option.splits)
  then show "ref_best s r = market_best s (ref_market r)"
    by (simp add: ref_best_def market_best_def Let_def)
  have "(\<Sum>x\<leftarrow>xs. case ref_order r x of None \<Rightarrow> 0 | Some od \<Rightarrow> ucast (ref_quantity od)) =
    displayed (resting (ref_market r)) xs" for xs
    by (induction xs) (simp_all add: ref_order_def ref_resting split: option.splits)
  then show "ref_depth r s p = market_depth s p (ref_market r)"
    by (simp add: ref_depth_def market_depth_def q Let_def)
  have "dom (resting (ref_market r)) = fmdom' (ref_orders r)"
    by (auto simp: ref_resting fmlookup_dom'_iff)
  then show "ref_order_count r = of_nat (card (dom (resting (ref_market r))))"
    by (simp add: ref_order_count_def fmdom'_alt_def fcard.rep_eq)
qed

lemma same_observationsI:
  assumes "book_holds b (ref_market r)" "ref_inv r"
  shows "same_observations b r"
  using assms
  by (simp add: same_observations_def book_contains_correct book_order_correct ids_correct
      book_order_count_correct best_bid_correct best_ask_correct front_order_correct
      ref_observations ref_front_def market_front_def ref_resting ref_order_def
      split: list.splits)

text \<open>Two books that no query can tell apart.\<close>

definition unchanged :: "order_book \<Rightarrow> order_book \<Rightarrow> bool" where
  "unchanged b b' \<longleftrightarrow>
     (\<forall>x. book_contains b' x = book_contains b x \<and> book_order b' x = book_order b x) \<and>
     book_order_count b' = book_order_count b \<and>
     best_bid b' = best_bid b \<and> best_ask b' = best_ask b \<and>
     (\<forall>s p. front_order b' s p = front_order b s p \<and> forward_ids b' s p = forward_ids b s p \<and>
       backward_ids b' s p = backward_ids b s p \<and> book_depth b' s p = book_depth b s p) \<and>
     best_bid_depth b' = best_bid_depth b \<and> best_ask_depth b' = best_ask_depth b"

lemma unchangedI:
  assumes "book_holds b m" "book_holds b' m"
  shows "unchanged b b'"
proof -
  have depth: "book_depth b' = book_depth b" using book_depth_same [OF assms] by (intro ext)
  have best: "best_bid b' = best_bid b" "best_ask b' = best_ask b"
    using assms by (simp_all add: best_bid_correct best_ask_correct)
  with depth have "best_bid_depth b' = best_bid_depth b" "best_ask_depth b' = best_ask_depth b"
    by (simp_all only: best_bid_depth_def best_ask_depth_def)
  with depth best assms show ?thesis
    by (simp add: unchanged_def book_contains_correct book_order_correct ids_correct
        book_order_count_correct front_order_correct)
qed

subsection \<open>How many orders a run can leave\<close>

lemma market_step_dom:
  "card (dom (resting (snd (market_step op m)))) \<le> Suc (card (dom (resting m)))"
proof -
  have upd: "card (dom (R(x \<mapsto> od))) \<le> Suc (card (dom R))" for R :: "order_id \<Rightarrow> resting_order option" and x od
    by (simp add: card_insert_if)
  have drop: "card (dom (R(x := None))) \<le> Suc (card (dom R))" for R :: "order_id \<Rightarrow> resting_order option" and x
    using card_Diff1_le [of "dom R" x] by simp
  have drop_upd: "card (dom ((R(x := None))(x \<mapsto> od))) \<le> Suc (card (dom R))"
    for R :: "order_id \<Rightarrow> resting_order option" and x od
    using upd [of R x od] by simp
  have upd_drop: "card (dom ((R(y \<mapsto> od))(x := None))) \<le> Suc (card (dom R))"
    for R :: "order_id \<Rightarrow> resting_order option" and x y od
    using upd [of R y od] card_Diff1_le [of "dom (R(y \<mapsto> od))" x] by simp
  have resize: "dom (resting (resize_order x q m)) = dom (resting m)" for x q and m :: market
    by (auto simp: resize_order_def split: if_splits)
  show ?thesis
  proof (cases op)
    case (Op_Replace x y p q)
    then show ?thesis
      using upd_drop drop_upd resize
      by (auto simp: market_step_def market_replace_def market_modify_def rest_order_def
          remove_order_def simp del: fun_upd_apply dom_fun_upd fun_upd_upd split: option.splits)
  next
    case (Op_Modify x p q)
    then show ?thesis
      using drop_upd resize
      by (auto simp: market_step_def market_modify_def rest_order_def remove_order_def
          simp del: fun_upd_apply dom_fun_upd fun_upd_upd split: option.splits)
  qed (use upd drop resize in \<open>auto simp: market_step_def market_add_def market_cancel_def market_erase_def
      rest_order_def remove_order_def empty_market_def
      simp del: fun_upd_apply dom_fun_upd split: option.splits\<close>)
qed

lemma market_run_dom:
  "card (dom (resting (snd (market_run m cs)))) \<le> card (dom (resting m)) + length cs"
proof (induction cs arbitrary: m)
  case (Cons c cs)
  obtain op d where c: "c = (op, d)" by (cases c)
  show ?case
  proof (cases d)
    case True
    with Cons.IH [of "snd (market_step op m)"] market_step_dom [of op m] c show ?thesis
      by (simp add: market_run_Cons del: market_run.simps)
  next
    case False
    with Cons.IH [of m] c show ?thesis by (simp add: market_run_Cons del: market_run.simps)
  qed
qed simp

lemma free_id:
  fixes R :: "order_id \<Rightarrow> 'a option"
  assumes "card (dom R) < 2 ^ 64"
  shows "\<exists>y. R y = None"
proof (rule ccontr)
  assume "\<not> (\<exists>y. R y = None)"
  then have "dom R = UNIV" by auto
  with assms show False by (simp add: card_word)
qed

text \<open>Every run from a new book holds an abstract book, which the reference book holds too.\<close>

lemma run_holds:
  obtains vs b r where "book_run new_book ops = Some (vs, b)" "length vs = length ops"
    "ref_run new_reference (completions ops vs) = Some (vs, r)"
    "book_holds b (ref_market r)" "ref_inv r"
    "card (dom (resting (ref_market r))) \<le> length ops"
proof -
  obtain vs b where b: "book_run new_book ops = Some (vs, b)" "length vs = length ops"
    "fst (market_run empty_market (completions ops vs)) = vs"
    "book_holds b (snd (market_run empty_market (completions ops vs)))"
    using book_run_correct [OF new_book_holds] by blast
  obtain r where r: "ref_run new_reference (completions ops vs) = Some (vs, r)" "ref_inv r"
    "ref_market r = snd (market_run empty_market (completions ops vs))"
    using ref_run_correct [OF new_reference_inv(1), of "completions ops vs"] b(3)
    by (auto simp: new_reference_inv(2))
  have "card (dom (resting (ref_market r))) \<le> length ops"
    using market_run_dom [of empty_market "completions ops vs"] r(3) b(2)
    by (simp add: empty_market_def completions_def)
  with b r that show ?thesis by metis
qed

lemma run_book:
  assumes "book_run new_book ops = Some (vs, b)"
  obtains m where "book_holds b m"
proof -
  obtain vs' b' r where "book_run new_book ops = Some (vs', b')" "book_holds b' (ref_market r)"
    by (rule run_holds [of ops])
  with assms that show thesis by simp
qed

end
