(* ===== verification/Book_Properties.thy ===== *)
theory Book_Properties
  imports Book_Runs
begin

section \<open>What the order book promises\<close>

text \<open>
  The properties of the order book and its price index, each over every state a run of public
  operations reaches from a new object.
\<close>

subsection \<open>Equivalence with the reference book\<close>

text \<open>
  C1: over any sequence of operations and any pattern of allocation failures the order book never
  runs into undefined behaviour, and the reference book of the tests, given the operations that
  completed, returns the same results and shows the same orders, counts, best prices, front orders
  and queues, the queues read through the nodes' pointers in both directions.
\<close>

theorem book_equals_reference:
  "\<exists>vs b r. book_run new_book ops = Some (vs, b) \<and>
     ref_run new_reference (completions ops vs) = Some (vs, r) \<and> same_observations b r"
proof -
  obtain vs b r where "book_run new_book ops = Some (vs, b)"
    "ref_run new_reference (completions ops vs) = Some (vs, r)" "book_holds b (ref_market r)" "ref_inv r"
    by (rule run_holds)
  then show ?thesis using same_observationsI by blast
qed

text \<open>
  C9: after a run of fewer than \<open>2 ^ 64\<close> operations the aggregate depth of every price
  (quantity summed at 64 bits, number of orders) is the one computed from the reference queue, and
  the depths at the best prices are the depths of the reference's best prices.
\<close>

theorem depth_equals_reference:
  assumes "length ops < 2 ^ 64"
  shows "\<exists>vs b r. book_run new_book ops = Some (vs, b) \<and>
     ref_run new_reference (completions ops vs) = Some (vs, r) \<and>
     (\<forall>s p. book_depth b s p = ref_depth r s p) \<and>
     best_bid_depth b = Some (Option.bind (ref_best Buy r) (ref_depth r Buy)) \<and>
     best_ask_depth b = Some (Option.bind (ref_best Sell r) (ref_depth r Sell))"
proof -
  obtain vs b r where run: "book_run new_book ops = Some (vs, b)"
    "ref_run new_reference (completions ops vs) = Some (vs, r)" "book_holds b (ref_market r)"
    "ref_inv r" "card (dom (resting (ref_market r))) \<le> length ops"
    by (rule run_holds)
  have "\<exists>y. resting (ref_market r) y = None"
    using run(5) assms by (intro free_id) simp
  then have d: "book_depth b s p = ref_depth r s p" for s p
    using book_depth_correct [OF run(3)] ref_observations(4) [OF run(4)] by simp
  have "best_bid_depth b = Some (Option.bind (ref_best Buy r) (ref_depth r Buy))"
    "best_ask_depth b = Some (Option.bind (ref_best Sell r) (ref_depth r Sell))"
    using best_bid_correct [OF run(3)] best_ask_correct [OF run(3)] d ref_observations(3) [OF run(4)]
    by (simp_all add: best_bid_depth_def best_ask_depth_def split: option.splits)
  with run(1,2) d show ?thesis by blast
qed

lemma depth_equals_reference_witness:
  "\<exists>vs b r. book_run new_book [(Op_Add 1 Buy 100 5, 9), (Op_Add 2 Buy 100 7, 9)] = Some (vs, b) \<and>
     ref_run new_reference (completions [(Op_Add 1 Buy 100 5, 9), (Op_Add 2 Buy 100 7, 9)] vs) =
       Some (vs, r) \<and>
     (\<forall>s p. book_depth b s p = ref_depth r s p) \<and>
     best_bid_depth b = Some (Option.bind (ref_best Buy r) (ref_depth r Buy)) \<and>
     best_ask_depth b = Some (Option.bind (ref_best Sell r) (ref_depth r Sell))"
  by (rule depth_equals_reference) simp

subsection \<open>Exception safety\<close>

text \<open>
  C14: an operation whose allocation fails leaves every observation of the book as it was (the
  strong guarantee): orders, counts, best prices, front orders, queues in both directions, the depth
  of every price and the depths at the best prices. And it can only fail when fewer than nine
  requests for memory are granted to it: level, node and bucket array of the level's map, order, node
  and bucket array of the map of orders, and three nodes of the price index.
\<close>

theorem failed_allocation_changes_nothing:
  assumes "book_run new_book ops = Some (vs, b)" "book_step op b k = Thrown b'"
  shows "unchanged b b' \<and> k < 9"
proof -
  obtain m where m: "book_holds b m" using run_book [OF assms(1)] .
  then have "book_holds b' m" "k < 9"
    using book_step_correct [OF m, of op k] assms(2) by (simp_all add: implements_def)
  with m show ?thesis using unchangedI by blast
qed

lemma failed_allocation_changes_nothing_witness:
  "\<exists>b'. book_step (Op_Add 1 Buy 100 5) new_book 1 = Thrown b' \<and> unchanged new_book b' \<and> (1 :: nat) < 9"
proof -
  have "book_step (Op_Add 1 Buy 100 5) new_book 1 = Thrown new_book"
    by (simp add: book_step_def book_add_def get_or_create_level_def Let_def)
  with failed_allocation_changes_nothing [of "[]" "[]" new_book "Op_Add 1 Buy 100 5" 1 new_book]
  show ?thesis by simp
qed

lemma run_without_failure:
  assumes "book_holds b m" "\<forall>(op, k) \<in> set ops. 9 \<le> k"
  shows "\<exists>vs b'. book_run b ops = Some (vs, b') \<and> None \<notin> set vs"
  using assms
proof (induction ops arbitrary: b m)
  case (Cons a ops)
  obtain op k where a: "a = (op, k)" by (cases a)
  with Cons.prems book_step_correct [OF Cons.prems(1), of op k]
  obtain v b1 k1 where "book_step op b k = Done v b1 k1" "book_holds b1 (snd (market_step op m))"
    by (cases "book_step op b k") (auto simp: implements_def)
  with Cons.IH [of b1 "snd (market_step op m)"] Cons.prems a show ?case by fastforce
qed simp

text \<open>
  C16: when every operation is granted at least nine requests for memory, none of them throws, even if
  every insertion into a hash map rehashes: the run returns a result for each.
\<close>

theorem nine_allocations_suffice:
  assumes "\<forall>(op, k) \<in> set ops. 9 \<le> k"
  shows "\<exists>vs b. book_run new_book ops = Some (vs, b) \<and> None \<notin> set vs"
  using assms by (rule run_without_failure [OF new_book_holds])

lemma nine_allocations_suffice_witness:
  "\<exists>vs b. book_run new_book [(Op_Add 1 Buy 100 5, 9), (Op_Modify 1 200 9, 10)] = Some (vs, b) \<and>
     None \<notin> set vs"
  by (rule nine_allocations_suffice) simp

subsection \<open>Price-time priority\<close>

lemma done_step:
  assumes "book_run new_book ops = Some (vs, b)" "book_step op b k = Done v b' k'"
  obtains m where "book_holds b m" "book_holds b' (snd (market_step op m))" "v = fst (market_step op m)"
proof -
  obtain m where m: "book_holds b m" using run_book [OF assms(1)] .
  with book_step_correct [OF m, of op k] assms(2) that show thesis by (simp add: implements_def)
qed

text \<open>
  An accepted add puts the order at the back of the queue of its side and price and leaves
  every other queue as it was.
\<close>

lemma add_joins_the_tail:
  assumes "book_run new_book ops = Some (vs, b)" "book_step (Op_Add x s p q) b k = Done True b' k'"
  shows "book_order b' x = Some \<lparr>view_id = x, view_side = s, view_price = p, view_quantity = q\<rparr> \<and>
    (\<exists>xs. forward_ids b s p = Some xs \<and> forward_ids b' s p = Some (xs @ [x])) \<and>
    (\<forall>s' p'. (s', p') \<noteq> (s, p) \<longrightarrow> forward_ids b' s' p' = forward_ids b s' p')"
proof -
  obtain m where m: "book_holds b m" "book_holds b' (snd (market_add x s p q m))"
    "fst (market_add x s p q m)"
    using done_step [OF assms] by (auto simp: market_step_def)
  then show ?thesis
    by (auto simp: market_add_def ids_correct book_order_correct rest_order_def market_view_def
        split: if_splits)
qed

text \<open>A book of two bids, for the examples: the operations that make it return true.\<close>

definition two_bids :: "(book_op \<times> nat) list" where
  "two_bids = [(Op_Add 1 Buy 100 5, 9), (Op_Add 2 Buy 100 9, 9)]"

lemma step_done:
  assumes "book_holds b m" "9 \<le> k"
  obtains b' k' where "book_step op b k = Done (fst (market_step op m)) b' k'"
    "book_holds b' (snd (market_step op m))"
  using book_step_correct [OF assms(1), of op k] assms(2)
  by (cases "book_step op b k") (auto simp: implements_def)

lemma two_bids_book:
  obtains b m where "book_run new_book two_bids = Some ([Some True, Some True], b)" "book_holds b m"
    "resting m 1 = Some \<lparr>ro_side = Buy, ro_price = 100, ro_quantity = 5\<rparr>"
    "resting m 2 = Some \<lparr>ro_side = Buy, ro_price = 100, ro_quantity = 9\<rparr>"
    "\<And>x. x \<noteq> 1 \<Longrightarrow> x \<noteq> 2 \<Longrightarrow> resting m x = None" "queue m Buy 100 = [1, 2]"
proof -
  obtain b1 k1 where b1: "book_step (Op_Add 1 Buy 100 5) new_book 9 = Done True b1 k1"
    "book_holds b1 (snd (market_step (Op_Add 1 Buy 100 5) empty_market))"
    using step_done [OF new_book_holds, of 9 "Op_Add 1 Buy 100 5"]
    by (auto simp: market_step_def market_add_def empty_market_def)
  then obtain b2 k2 where b2: "book_step (Op_Add 2 Buy 100 9) b1 9 = Done True b2 k2"
    "book_holds b2 (snd (market_step (Op_Add 2 Buy 100 9) (snd (market_step (Op_Add 1 Buy 100 5) empty_market))))"
    using step_done [OF b1(2), of 9 "Op_Add 2 Buy 100 9"]
    by (auto simp: market_step_def market_add_def empty_market_def rest_order_def)
  have "book_run new_book two_bids = Some ([Some True, Some True], b2)"
    using b1(1) b2(1) by (simp add: two_bids_def)
  then show thesis using b2(2)
    by (rule that) (simp_all add: market_step_def market_add_def empty_market_def rest_order_def)
qed

text \<open>
  C17: an accepted modify keeps the place in the queue exactly when the price stays and the quantity
  does not grow; otherwise the order leaves its queue and joins the back of the queue at the new
  price. No other queue changes.
\<close>

theorem modify_priority:
  assumes "book_run new_book ops = Some (vs, b)" "book_order b x = Some v"
    "book_step (Op_Modify x p q) b k = Done True b' k'"
  shows "book_order b' x = Some (v\<lparr>view_price := p, view_quantity := q\<rparr>) \<and>
    (if p = view_price v \<and> q \<le> view_quantity v
     then \<forall>s' p'. forward_ids b' s' p' = forward_ids b s' p'
     else \<forall>s' p'. forward_ids b' s' p' =
       map_option (\<lambda>xs. remove1 x xs @ (if s' = view_side v \<and> p' = p then [x] else []))
         (forward_ids b s' p'))"
proof -
  obtain m where m: "book_holds b m" "book_holds b' (snd (market_modify x p q m))"
    "fst (market_modify x p q m)"
    using done_step [OF assms(1,3)] by (auto simp: market_step_def)
  then obtain od where od: "resting m x = Some od" "v = market_view x od" "q \<noteq> 0"
    using assms(2) by (auto simp: market_modify_def book_order_correct split: option.splits if_splits)
  show ?thesis
  proof (cases "p = ro_price od \<and> q \<le> ro_quantity od")
    case True
    with od have "snd (market_modify x p q m) = resize_order x q m" by (simp add: market_modify_def)
    with m(1,2) od True show ?thesis
      by (simp add: ids_correct book_order_correct resize_order_def market_view_def)
  next
    case False
    with od have "snd (market_modify x p q m) =
      rest_order x (od\<lparr>ro_price := p, ro_quantity := q\<rparr>) (remove_order x m)"
      by (auto simp: market_modify_def)
    with m(1,2) od False show ?thesis
      by (auto simp: ids_correct book_order_correct rest_order_def remove_order_def market_view_def)
  qed
qed

lemma modify_priority_witness:
  "\<exists>b b' k'. book_run new_book two_bids = Some ([Some True, Some True], b) \<and>
     book_step (Op_Modify 1 100 8) b 9 = Done True b' k' \<and>
     forward_ids b Buy 100 = Some [1, 2] \<and> forward_ids b' Buy 100 = Some [2, 1]"
proof -
  obtain b m where b: "book_run new_book two_bids = Some ([Some True, Some True], b)" "book_holds b m"
    "resting m 1 = Some \<lparr>ro_side = Buy, ro_price = 100, ro_quantity = 5\<rparr>" "queue m Buy 100 = [1, 2]"
    by (rule two_bids_book)
  obtain b' k' where d: "book_step (Op_Modify 1 100 8) b 9 = Done True b' k'"
    using step_done [OF b(2), of 9 "Op_Modify 1 100 8" thesis] b(3)
    by (simp add: market_step_def market_modify_def)
  have v: "book_order b 1 = Some \<lparr>view_id = 1, view_side = Buy, view_price = 100, view_quantity = 5\<rparr>"
    using b(2,3) by (simp add: book_order_correct market_view_def)
  show ?thesis using modify_priority [OF b(1) v d] b(1,2,4) d by (simp add: ids_correct)
qed

text \<open>
  C19: a replace by a fresh id takes the old order out of its queue and puts the new one at the back
  of the queue of the new price; a replace by the order's own id is a modify, so that it keeps its
  priority when the price stays and the quantity does not grow.
\<close>

theorem replace_priority:
  assumes "book_run new_book ops = Some (vs, b)" "book_order b x = Some v"
    "book_step (Op_Replace x y p q) b k = Done True b' k'"
  shows "if x = y then
      (p = view_price v \<and> q \<le> view_quantity v \<longrightarrow>
        (\<forall>s' p'. forward_ids b' s' p' = forward_ids b s' p'))
    else book_order b' x = None \<and>
      book_order b' y = Some \<lparr>view_id = y, view_side = view_side v, view_price = p, view_quantity = q\<rparr> \<and>
      (\<forall>s' p'. forward_ids b' s' p' =
         map_option (\<lambda>xs. remove1 x xs @ (if s' = view_side v \<and> p' = p then [y] else []))
           (forward_ids b s' p'))"
proof -
  obtain m where m: "book_holds b m" "book_holds b' (snd (market_replace x y p q m))"
    "fst (market_replace x y p q m)"
    using done_step [OF assms(1,3)] by (auto simp: market_step_def)
  then obtain od where od: "resting m x = Some od" "v = market_view x od" "q \<noteq> 0"
    using assms(2) by (auto simp: market_replace_def book_order_correct split: option.splits if_splits)
  show ?thesis
  proof (cases "x = y")
    case True
    with od m have "p = ro_price od \<and> q \<le> ro_quantity od \<Longrightarrow>
      snd (market_replace x y p q m) = resize_order x q m"
      by (simp add: market_replace_def market_modify_def)
    with m(1,2) od True show ?thesis
      by (auto simp: ids_correct market_view_def resize_order_def)
  next
    case False
    with od m(3) have "snd (market_replace x y p q m) =
      remove_order x (rest_order y \<lparr>ro_side = ro_side od, ro_price = p, ro_quantity = q\<rparr> m)"
      by (auto simp: market_replace_def split: if_splits)
    with m(1,2) od False show ?thesis
      by (auto simp: ids_correct book_order_correct rest_order_def remove_order_def market_view_def
          remove1_append remove1_idem)
  qed
qed

lemma replace_priority_witness:
  "\<exists>b b' k'. book_run new_book two_bids = Some ([Some True, Some True], b) \<and>
     book_step (Op_Replace 1 1 100 4) b 9 = Done True b' k' \<and>
     forward_ids b Buy 100 = Some [1, 2] \<and> forward_ids b' Buy 100 = Some [1, 2]"
proof -
  obtain b m where b: "book_run new_book two_bids = Some ([Some True, Some True], b)" "book_holds b m"
    "resting m 1 = Some \<lparr>ro_side = Buy, ro_price = 100, ro_quantity = 5\<rparr>" "queue m Buy 100 = [1, 2]"
    by (rule two_bids_book)
  obtain b' k' where d: "book_step (Op_Replace 1 1 100 4) b 9 = Done True b' k'"
    using step_done [OF b(2), of 9 "Op_Replace 1 1 100 4" thesis] b(3)
    by (simp add: market_step_def market_replace_def market_modify_def)
  have v: "book_order b 1 = Some \<lparr>view_id = 1, view_side = Buy, view_price = 100, view_quantity = 5\<rparr>"
    using b(2,3) by (simp add: book_order_correct market_view_def)
  show ?thesis using replace_priority [OF b(1) v d] b(1,2,4) d by (simp add: ids_correct)
qed

subsection \<open>Invariants\<close>

text \<open>
  C21: in every reachable book each queue lists, once each, exactly the resting orders of its side
  and price, and no resting order has quantity zero.
\<close>

theorem queues_partition_orders:
  assumes "book_run new_book ops = Some (vs, b)" "forward_ids b s p = Some xs"
  shows "distinct xs \<and>
    (\<forall>x. x \<in> set xs \<longleftrightarrow> (\<exists>v. book_order b x = Some v \<and> view_side v = s \<and> view_price v = p)) \<and>
    (\<forall>x v. book_order b x = Some v \<longrightarrow> view_id v = x \<and> view_quantity v \<noteq> 0)"
proof -
  obtain m where m: "book_holds b m" using run_book [OF assms(1)] .
  note inv = market_inv_D [OF book_stateD(1) [OF m]]
  have "xs = queue m s p" using assms(2) m by (simp add: ids_correct)
  with inv(1) [of s p] inv(2) [where s = s and p = p] inv(3) show ?thesis
    by (auto simp: book_order_correct [OF m] market_view_def)
qed

lemma queues_partition_orders_witness:
  "\<exists>b. book_run new_book two_bids = Some ([Some True, Some True], b) \<and>
     forward_ids b Buy 100 = Some [1, 2] \<and> distinct [1, 2 :: order_id] \<and>
     (\<forall>x v. book_order b x = Some v \<longrightarrow> view_quantity v \<noteq> 0)"
proof -
  obtain b m where b: "book_run new_book two_bids = Some ([Some True, Some True], b)" "book_holds b m"
    "queue m Buy 100 = [1, 2]"
    by (rule two_bids_book)
  then have q: "forward_ids b Buy 100 = Some [1, 2]" by (simp add: ids_correct)
  show ?thesis using queues_partition_orders [OF b(1) q] b(1) q by blast
qed

text \<open>
  C20: the best price of a side has a front order, which rests on that side at that price, and no
  order of the side rests at a better one; when there is no best price the side has no order. The
  matching loop relies on this.
\<close>

theorem best_price_has_front:
  assumes "book_run new_book ops = Some (vs, b)"
  shows "\<exists>best. best_price s b = Some best \<and>
    (case best of
       None \<Rightarrow> \<forall>x v. book_order b x = Some v \<longrightarrow> view_side v \<noteq> s
     | Some p \<Rightarrow>
         (\<exists>v. front_order b s p = Some (Some v) \<and> view_side v = s \<and> view_price v = p) \<and>
         (\<forall>x v. book_order b x = Some v \<and> view_side v = s \<longrightarrow>
            (if s = Buy then view_price v \<le> p else p \<le> view_price v)))"
proof -
  obtain m where m: "book_holds b m" using run_book [OF assms] .
  note inv = market_inv_D [OF book_stateD(1) [OF m]]
  have active: "ro_price od \<in> active_prices s m" if "resting m x = Some od" "ro_side od = s" for x od
    using inv(2) [where x = x and s = s and p = "ro_price od"] that by (auto simp: active_prices_def)
  show ?thesis
  proof (cases "active_prices s m = {}")
    case True
    with active have "\<forall>x v. book_order b x = Some v \<longrightarrow> view_side v \<noteq> s"
      by (fastforce simp: book_order_correct [OF m] market_view_def)
    with True m show ?thesis by (simp add: best_price_correct market_best_def)
  next
    case False
    let ?p = "if s = Buy then Max (active_prices s m) else Min (active_prices s m)"
    have best: "market_best s m = Some ?p" using False by (simp add: market_best_def)
    have "Max (active_prices s m) \<in> active_prices s m" "Min (active_prices s m) \<in> active_prices s m"
      by (rule Max_in [OF finite False], rule Min_in [OF finite False])
    then have "?p \<in> active_prices s m" by (cases s) simp_all
    then obtain x xs where q: "queue m s ?p = x # xs" by (auto simp: active_prices_def neq_Nil_conv)
    then obtain od where od: "resting m x = Some od" "ro_side od = s" "ro_price od = ?p"
      using inv(2) [where x = x and s = s and p = ?p] by auto
    have "\<forall>x v. book_order b x = Some v \<and> view_side v = s \<longrightarrow>
      (if s = Buy then view_price v \<le> ?p else ?p \<le> view_price v)"
      using active m by (auto simp: book_order_correct market_view_def)
    moreover have "front_order b s ?p = Some (Some (market_view x od))"
      using front_order_correct [OF m, of s ?p] q od(1) by (simp add: market_front_def)
    ultimately show ?thesis using best od best_price_correct [OF m, of s]
      by (auto simp: market_view_def)
  qed
qed

lemma best_price_has_front_witness:
  "\<exists>b v. book_run new_book two_bids = Some ([Some True, Some True], b) \<and>
     best_price Buy b = Some (Some 100) \<and> front_order b Buy 100 = Some (Some v) \<and> view_side v = Buy"
proof -
  obtain b m where b: "book_run new_book two_bids = Some ([Some True, Some True], b)" "book_holds b m"
    "resting m 1 = Some \<lparr>ro_side = Buy, ro_price = 100, ro_quantity = 5\<rparr>"
    "resting m 2 = Some \<lparr>ro_side = Buy, ro_price = 100, ro_quantity = 9\<rparr>"
    "\<And>x. x \<noteq> 1 \<Longrightarrow> x \<noteq> 2 \<Longrightarrow> resting m x = None"
    by (rule two_bids_book) blast
  have o1: "book_order b 1 = Some \<lparr>view_id = 1, view_side = Buy, view_price = 100, view_quantity = 5\<rparr>"
    using b(2,3) by (simp add: book_order_correct market_view_def)
  obtain p v where p: "best_price Buy b = Some (Some p)" "front_order b Buy p = Some (Some v)"
    "view_side v = Buy" "view_price v = p"
    using best_price_has_front [OF b(1), of Buy] o1 by (fastforce split: option.splits)
  have "\<exists>x. queue m Buy p = x # tl (queue m Buy p) \<and> resting m x \<noteq> None"
    using front_order_correct [OF b(2), of Buy p] p(2)
    by (cases "queue m Buy p"; cases "resting m (hd (queue m Buy p))") (auto simp: market_front_def)
  then obtain x od where "x \<in> set (queue m Buy p)" "resting m x = Some od"
    by (metis list.set_intros(1) not_None_eq)
  then have "p = 100"
    using market_inv_D(2) [OF book_stateD(1) [OF b(2)], where x = x and s = Buy and p = p] b(3,4,5)
    by (cases "x = 1"; cases "x = 2") auto
  with b(1) p show ?thesis by auto
qed

subsection \<open>The price index\<close>

text \<open>
  Runs of the index: additions with the budget they meet, and removals, which the book only makes
  for a price in the index. The set is the specification; a failed addition leaves it alone.
\<close>

datatype index_op = Index_Add price nat | Index_Remove price

fun index_run ::
  "price_index \<Rightarrow> price set \<Rightarrow> index_op list \<Rightarrow> (price_index \<times> price set) option" where
  "index_run ix S [] = Some (ix, S)"
| "index_run ix S (Index_Add p k # ops) =
     (case index_add ix p k of
        Undefined \<Rightarrow> None
      | Done _ ix' _ \<Rightarrow> index_run ix' (insert p S) ops
      | Thrown ix' \<Rightarrow> index_run ix' S ops)"
| "index_run ix S (Index_Remove p # ops) =
     (if p \<notin> S then index_run ix S ops
      else case index_remove ix p of None \<Rightarrow> None | Some ix' \<Rightarrow> index_run ix' (S - {p}) ops)"

lemma index_run_correct:
  "index_inv ix \<Longrightarrow> index_prices ix = S \<Longrightarrow>
     \<exists>ix' S'. index_run ix S ops = Some (ix', S') \<and> index_inv ix' \<and> index_prices ix' = S'"
proof (induction ix S ops rule: index_run.induct)
  case (2 ix S p k ops)
  with price_index.add_sat [OF 2(3), of p k] show ?case by (cases "index_add ix p k") auto
next
  case (3 ix S p ops)
  with price_index.remove_active [OF 3(3), of p] show ?case by (cases "p \<in> S") auto
qed auto

text \<open>
  C23: after any additions and removals the index finds the least and the greatest of the active
  prices, or nothing when there is none, without running into an absent block.
\<close>

theorem index_finds_extremes:
  "\<exists>ix S. index_run new_index {} ops = Some (ix, S) \<and>
     index_minimum ix = Some (if S = {} then None else Some (Min S)) \<and>
     index_maximum ix = Some (if S = {} then None else Some (Max S))"
proof -
  obtain ix S where ix: "index_run new_index {} ops = Some (ix, S)" "index_inv ix" "index_prices ix = S"
    using index_run_correct [OF new_index_correct] by blast
  then have "index_find ix reverse =
    Some (if S = {} then None else Some (if reverse then Max S else Min S))" for reverse
    using price_index.find_extreme by metis
  with ix(1) show ?thesis by (simp add: index_minimum_def index_maximum_def)
qed

text \<open>Runs of a mask: a byte is entered (\<open>True\<close>) or taken out (\<open>False\<close>).\<close>

fun mask_run :: "mask \<Rightarrow> 8 word set \<Rightarrow> (bool \<times> 8 word) list \<Rightarrow> mask \<times> 8 word set" where
  "mask_run m S [] = (m, S)"
| "mask_run m S ((enter, v) # ops) =
     (if enter then mask_run (mask_set m v) (insert v S) ops
      else mask_run (mask_clear m v) (S - {v}) ops)"

lemma mask_run_correct:
  "mask_inv m \<Longrightarrow> mask_bytes m = S \<Longrightarrow>
     mask_inv (fst (mask_run m S ops)) \<and> mask_bytes (fst (mask_run m S ops)) = snd (mask_run m S ops)"
  by (induction m S ops rule: mask_run.induct) (simp_all add: mask_bytes_set mask_bytes_clear)

text \<open>
  C24: after any updates of a 256-bit occupancy mask \<^verbatim>\<open>any\<close> tells whether a byte is
  in it, and \<^verbatim>\<open>lowest\<close> and \<^verbatim>\<open>highest\<close>, found by counting zeros of its words,
  are the least and the greatest of its bytes.
\<close>

theorem mask_finds_extremes:
  "let (m, S) = mask_run empty_mask {} ops in
     (if S = {} then \<not> mask_any m
      else mask_any m \<and> lowest m = Min S \<and> highest m = Max S)"
proof -
  obtain m S where r: "mask_run empty_mask {} ops = (m, S)" by (cases "mask_run empty_mask {} ops")
  with mask_run_correct [of empty_mask "{}" ops] have "mask_inv m" "mask_bytes m = S" by simp_all
  with r show ?thesis
    by (simp add: mask_any_iff mask.least_eq_Min mask.greatest_eq_Max)
qed

end
