(* ===== verification/Itch_Messages.thy ===== *)
theory Itch_Messages
  imports Prelude "HOL-Library.Monad_Syntax"
begin

unbundle bit_operations_syntax

section \<open>Messages of the ITCH feed and their bytes\<close>

text \<open>
  The message types of \<^verbatim>\<open>include/lob/itch.hpp\<close>, one record per struct and one datatype
  for the variant; the byte reads of \<^verbatim>\<open>src/itch/itch.cpp\<close> (lines 16 to 55); and the
  wire layout they invert. A \<^verbatim>\<open>char\<close> is its byte, a fixed-width text the list of its
  bytes. A read outside of its span is \<open>None\<close>.
\<close>

type_synonym text_byte = u8

definition ascii :: "char \<Rightarrow> text_byte" where
  "ascii c = of_char c"

record message_header =
  mh_stock_locate :: stock_locate
  mh_tracking_number :: u16
  mh_timestamp :: timestamp_ns

record system_event =
  se_header :: message_header
  se_event_code :: text_byte

record stock_directory =
  sd_header :: message_header
  sd_stock :: "text_byte list"
  sd_market_category :: text_byte
  sd_financial_status_indicator :: text_byte
  sd_round_lot_size :: u32
  sd_round_lots_only :: text_byte
  sd_issue_classification :: text_byte
  sd_issue_sub_type :: "text_byte list"
  sd_authenticity :: text_byte
  sd_short_sale_threshold_indicator :: text_byte
  sd_ipo_flag :: text_byte
  sd_luld_reference_price_tier :: text_byte
  sd_etp_flag :: text_byte
  sd_etp_leverage_factor :: u32
  sd_inverse_indicator :: text_byte

record trading_action =
  ta_header :: message_header
  ta_stock :: "text_byte list"
  ta_trading_state :: text_byte
  ta_reserved :: text_byte
  ta_reason :: "text_byte list"

record add_order =
  ao_header :: message_header
  ao_order_reference :: order_id
  ao_side :: side
  ao_shares :: quantity
  ao_stock :: "text_byte list"
  ao_price :: price

record add_attributed_order =
  aa_header :: message_header
  aa_order_reference :: order_id
  aa_side :: side
  aa_shares :: quantity
  aa_stock :: "text_byte list"
  aa_price :: price
  aa_attribution :: "text_byte list"

record order_executed =
  oe_header :: message_header
  oe_order_reference :: order_id
  oe_executed_shares :: quantity
  oe_match_number :: match_id

record order_executed_with_price =
  op_header :: message_header
  op_order_reference :: order_id
  op_executed_shares :: quantity
  op_match_number :: match_id
  op_printable :: text_byte
  op_execution_price :: price

record order_cancel =
  oc_header :: message_header
  oc_order_reference :: order_id
  oc_canceled_shares :: quantity

record order_delete =
  od_header :: message_header
  od_order_reference :: order_id

record order_replace =
  or_header :: message_header
  or_original_order_reference :: order_id
  or_new_order_reference :: order_id
  or_shares :: quantity
  or_price :: price

record trade =
  tr_header :: message_header
  tr_order_reference :: order_id
  tr_side :: side
  tr_shares :: quantity
  tr_stock :: "text_byte list"
  tr_price :: price
  tr_match_number :: match_id

record cross_trade =
  ct_header :: message_header
  ct_shares :: u64
  ct_stock :: "text_byte list"
  ct_cross_price :: price
  ct_match_number :: match_id
  ct_cross_type :: text_byte

record broken_trade =
  bt_header :: message_header
  bt_match_number :: match_id

record net_order_imbalance =
  ni_header :: message_header
  ni_paired_shares :: u64
  ni_imbalance_shares :: u64
  ni_imbalance_direction :: text_byte
  ni_stock :: "text_byte list"
  ni_far_price :: price
  ni_near_price :: price
  ni_current_reference_price :: price
  ni_cross_type :: text_byte
  ni_price_variation_indicator :: text_byte

record skipped_message =
  sk_message_type :: text_byte
  sk_header :: "message_header option"

datatype itch_event =
    SystemEvent system_event
  | StockDirectory stock_directory
  | TradingAction trading_action
  | AddOrder add_order
  | AddAttributedOrder add_attributed_order
  | OrderExecuted order_executed
  | OrderExecutedWithPrice order_executed_with_price
  | OrderCancel order_cancel
  | OrderDelete order_delete
  | OrderReplace order_replace
  | Trade trade
  | CrossTrade cross_trade
  | BrokenTrade broken_trade
  | NetOrderImbalance net_order_imbalance
  | SkippedMessage skipped_message

subsection \<open>Reading\<close>

definition at :: "u8 list \<Rightarrow> nat \<Rightarrow> u8 option" where
  "at xs i = (if i < length xs then Some (xs ! i) else None)"

fun read_from :: "nat \<Rightarrow> u8 list \<Rightarrow> nat \<Rightarrow> 'a::len word \<Rightarrow> 'a word option" where
  "read_from 0 xs offset value = Some value"
| "read_from (Suc n) xs offset value = do {
     b \<leftarrow> at xs offset;
     read_from n xs (Suc offset) (push_bit 8 value OR ucast b)
   }"

definition read_u16 :: "u8 list \<Rightarrow> nat \<Rightarrow> u16 option" where
  "read_u16 xs offset = read_from 2 xs offset 0"

definition read_u32 :: "u8 list \<Rightarrow> nat \<Rightarrow> u32 option" where
  "read_u32 xs offset = read_from 4 xs offset 0"

definition read_u64 :: "u8 list \<Rightarrow> nat \<Rightarrow> u64 option" where
  "read_u64 xs offset = read_from 8 xs offset 0"

definition read_timestamp :: "u8 list \<Rightarrow> nat \<Rightarrow> timestamp_ns option" where
  "read_timestamp xs offset = read_from 6 xs offset 0"

fun read_chars :: "nat \<Rightarrow> u8 list \<Rightarrow> nat \<Rightarrow> text_byte list option" where
  "read_chars 0 xs offset = Some []"
| "read_chars (Suc n) xs offset = do {
     b \<leftarrow> at xs offset;
     bs \<leftarrow> read_chars n xs (Suc offset);
     Some (b # bs)
   }"

definition read_header :: "u8 list \<Rightarrow> message_header option" where
  "read_header message = do {
     locate \<leftarrow> read_u16 message 1;
     tracking \<leftarrow> read_u16 message 3;
     timestamp \<leftarrow> read_timestamp message 5;
     Some \<lparr>mh_stock_locate = locate, mh_tracking_number = tracking, mh_timestamp = timestamp\<rparr>
   }"

subsection \<open>Big-endian words\<close>

definition slice :: "u8 list \<Rightarrow> nat \<Rightarrow> nat \<Rightarrow> u8 list" where
  "slice xs i n = take n (drop i xs)"

definition be_word :: "'a::len word \<Rightarrow> u8 list \<Rightarrow> 'a word" where
  "be_word = foldl (\<lambda>v b. push_bit 8 v OR ucast b)"

fun put_be :: "nat \<Rightarrow> 'a::len word \<Rightarrow> u8 list" where
  "put_be 0 w = []"
| "put_be (Suc n) w = ucast (drop_bit (8 * n) w) # put_be n w"

lemma ascii_simps [simp]:
  "ascii CHR ''A'' = 0x41" "ascii CHR ''B'' = 0x42" "ascii CHR ''C'' = 0x43" "ascii CHR ''D'' = 0x44"
  "ascii CHR ''E'' = 0x45" "ascii CHR ''F'' = 0x46" "ascii CHR ''H'' = 0x48" "ascii CHR ''I'' = 0x49"
  "ascii CHR ''P'' = 0x50" "ascii CHR ''Q'' = 0x51" "ascii CHR ''R'' = 0x52" "ascii CHR ''S'' = 0x53"
  "ascii CHR ''U'' = 0x55" "ascii CHR ''X'' = 0x58"
  by (simp_all add: ascii_def)

lemma at_eq [simp]: "i < length xs \<Longrightarrow> at xs i = Some (xs ! i)"
  by (simp add: at_def)

lemma slice_Suc: "i < length xs \<Longrightarrow> slice xs i (Suc n) = xs ! i # slice xs (Suc i) n"
  by (simp add: slice_def Cons_nth_drop_Suc [symmetric])

lemma slice_append: "slice xs i n @ slice xs (i + n) m = slice xs i (n + m)"
  by (simp add: slice_def take_add drop_drop add.commute [of n i])

lemma slice_all: "n = length xs \<Longrightarrow> slice xs 0 n = xs"
  by (simp add: slice_def)

lemma length_slice: "i + n \<le> length xs \<Longrightarrow> length (slice xs i n) = n"
  by (simp add: slice_def)

lemma be_word_simps [simp]:
  "be_word v [] = v" "be_word v (b # bs) = be_word (push_bit 8 v OR ucast b) bs"
  "be_word v (bs @ [b]) = push_bit 8 (be_word v bs) OR ucast b"
  by (simp_all add: be_word_def)

lemma read_from_eq: "offset + n \<le> length xs \<Longrightarrow> read_from n xs offset v = Some (be_word v (slice xs offset n))"
  by (induction n arbitrary: offset v) (simp_all add: slice_Suc, simp add: slice_def)

lemma read_chars_eq [simp]: "offset + n \<le> length xs \<Longrightarrow> read_chars n xs offset = Some (slice xs offset n)"
  by (induction n arbitrary: offset) (simp_all add: slice_Suc, simp add: slice_def)

lemma read_word_eq [simp]:
  "offset + 2 \<le> length xs \<Longrightarrow> read_u16 xs offset = Some (be_word 0 (slice xs offset 2))"
  "offset + 4 \<le> length xs \<Longrightarrow> read_u32 xs offset = Some (be_word 0 (slice xs offset 4))"
  "offset + 8 \<le> length xs \<Longrightarrow> read_u64 xs offset = Some (be_word 0 (slice xs offset 8))"
  "offset + 6 \<le> length xs \<Longrightarrow> read_timestamp xs offset = Some (be_word 0 (slice xs offset 6))"
  by (simp_all add: read_u16_def read_u32_def read_u64_def read_timestamp_def read_from_eq)

lemma length_put_be [simp]: "length (put_be n w) = n"
  by (induction n) simp_all

lemma be_word_put_be: "be_word v (put_be n w) = push_bit (8 * n) v OR take_bit (8 * n) w"
proof (induction n arbitrary: v)
  case (Suc n)
  have "push_bit (8 * n) (push_bit 8 v OR ucast (ucast (drop_bit (8 * n) w) :: u8)) OR take_bit (8 * n) w =
    push_bit (8 * n + 8) v OR take_bit (8 * n + 8) w"
    by (rule bit_word_eqI) (auto simp: bit_simps)
  with Suc show ?case by (simp add: add.commute)
qed simp

lemma be_word_put_be_full:
  "8 * n = LENGTH('a) \<Longrightarrow> be_word 0 (put_be n w) = w" for w :: "'a::len word"
  by (simp add: be_word_put_be)

lemma bit_be_word: "bit (be_word 0 bs :: 'a::len word) i \<Longrightarrow> i < 8 * length bs"
proof (induction bs arbitrary: i rule: rev_induct)
  case (snoc b bs)
  then show ?case by (fastforce simp: bit_simps dest: bit_imp_le_length)
qed simp

lemma be_word_less: "unat (be_word 0 bs :: 'a::len word) < 2 ^ (8 * length bs)"
proof -
  have "take_bit (8 * length bs) (be_word 0 bs :: 'a word) = be_word 0 bs"
    by (rule bit_word_eqI) (use bit_be_word [where 'a = 'a, of bs] in \<open>auto simp: bit_simps\<close>)
  then have "unat (be_word 0 bs :: 'a word) = take_bit (8 * length bs) (unat (be_word 0 bs :: 'a word))"
    by (metis unsigned_take_bit_eq)
  then show ?thesis by (metis take_bit_nat_less_exp)
qed

lemma put_be_snoc: "put_be (Suc n) w = put_be n (drop_bit 8 w) @ [ucast w]"
  by (induction n) (simp_all add: add.commute)

lemma put_be_be_word:
  "8 * length bs \<le> LENGTH('a) \<Longrightarrow> put_be (length bs) (be_word 0 bs :: 'a::len word) = bs"
proof (induction bs rule: rev_induct)
  case (snoc b bs)
  let ?w = "be_word 0 bs :: 'a word"
  have "drop_bit 8 (push_bit 8 ?w OR ucast b) = ?w"
  proof (rule bit_word_eqI)
    fix i assume "i < LENGTH('a)"
    have "bit ?w i \<Longrightarrow> 8 + i < LENGTH('a)" using bit_be_word [where 'a = 'a, of bs i] snoc.prems by auto
    then show "bit (drop_bit 8 (push_bit 8 ?w OR ucast b)) i = bit ?w i"
      by (auto simp: bit_simps dest: bit_imp_le_length)
  qed
  moreover have "(ucast (push_bit 8 ?w OR ucast b :: 'a word) :: u8) = b"
    using snoc.prems by (intro bit_word_eqI) (auto simp: bit_simps)
  ultimately show ?case using snoc by (simp add: put_be_snoc del: put_be.simps)
qed simp

lemma put_be_slice:
  assumes "i + n \<le> length xs" "8 * n \<le> LENGTH('a)"
  shows "put_be n (be_word 0 (slice xs i n) :: 'a::len word) = slice xs i n"
  using put_be_be_word [where 'a = 'a, of "slice xs i n"] assms by (simp add: length_slice)

end
