(* ===== verification/Itch_Decoder.thy ===== *)
theory Itch_Decoder
  imports Itch_Messages
begin

unbundle bit_operations_syntax

section \<open>The ITCH decoder\<close>

text \<open>
  \<^verbatim>\<open>decode_message\<close> and \<^verbatim>\<open>ItchDecoder::decode_next\<close>
  (\<^verbatim>\<open>src/itch/itch.cpp\<close>, lines 57 to 326). The outer option is undefined behaviour, a
  read outside of the input. Each message type has its own definition, the body of its case.
\<close>

subsection \<open>Results\<close>

datatype decode_status = Complete | NeedMoreData | Error

datatype decode_error_code =
    InvalidFrameLength
  | TruncatedFrame
  | UnexpectedMessageLength
  | UnsupportedMessageType
  | InvalidSide

record decode_error =
  de_code :: decode_error_code
  de_offset :: nat
  de_reason :: string

record decoded_message =
  dm_event :: itch_event
  dm_bytes_consumed :: nat

record decode_result =
  dr_status :: decode_status
  dr_message :: "decoded_message option"
  dr_error :: "decode_error option"

definition frame_prefix_bytes :: nat where "frame_prefix_bytes = 2"

definition common_header_bytes :: nat where "common_header_bytes = 11"

definition need_more_data :: decode_result where
  "need_more_data = \<lparr>dr_status = NeedMoreData, dr_message = None, dr_error = None\<rparr>"

definition decode_failure :: "decode_error_code \<Rightarrow> nat \<Rightarrow> string \<Rightarrow> decode_result" where
  "decode_failure code offset reason =
     \<lparr>dr_status = Error, dr_message = None,
      dr_error = Some \<lparr>de_code = code, de_offset = offset, de_reason = reason\<rparr>\<rparr>"

definition complete :: "itch_event \<Rightarrow> nat \<Rightarrow> decode_result" where
  "complete event consumed =
     \<lparr>dr_status = Complete, dr_message = Some \<lparr>dm_event = event, dm_bytes_consumed = consumed\<rparr>,
      dr_error = None\<rparr>"

definition side_byte :: "side \<Rightarrow> text_byte" where
  "side_byte s = (case s of Buy \<Rightarrow> ascii CHR ''B'' | Sell \<Rightarrow> ascii CHR ''S'')"

definition valid_side :: "text_byte \<Rightarrow> bool" where
  "valid_side c \<longleftrightarrow> c = side_byte Buy \<or> c = side_byte Sell"

definition to_side :: "text_byte \<Rightarrow> side" where
  "to_side c = (if c = side_byte Buy then Buy else Sell)"

definition wrong_size :: decode_result where
  "wrong_size = decode_failure UnexpectedMessageLength frame_prefix_bytes
     ''message length does not match ITCH 5.0 type''"

subsection \<open>The cases of the message types\<close>

text \<open>
  \<open>sized n xs body\<close> is the guard every case opens with; \<open>sided\<close> the check of the
  side at offset 19 that three of them make.
\<close>

definition sized :: "nat \<Rightarrow> u8 list \<Rightarrow> decode_result option \<Rightarrow> decode_result option" where
  "sized expected xs body = (if length xs \<noteq> expected then Some wrong_size else body)"

definition sided :: "string \<Rightarrow> u8 list \<Rightarrow> (side \<Rightarrow> decode_result option) \<Rightarrow> decode_result option" where
  "sided reason xs body = do {
     c \<leftarrow> at xs 19;
     if \<not> valid_side c then Some (decode_failure InvalidSide (frame_prefix_bytes + 19) reason)
     else body (to_side c)
   }"

definition decode_system_event :: "u8 list \<Rightarrow> nat \<Rightarrow> decode_result option" where
  "decode_system_event xs used = sized 12 xs (do {
     header \<leftarrow> read_header xs;
     code \<leftarrow> at xs 11;
     Some (complete (SystemEvent \<lparr>se_header = header, se_event_code = code\<rparr>) used)
   })"

definition decode_stock_directory :: "u8 list \<Rightarrow> nat \<Rightarrow> decode_result option" where
  "decode_stock_directory xs used = sized 39 xs (do {
     header \<leftarrow> read_header xs;
     stock \<leftarrow> read_chars 8 xs 11;
     category \<leftarrow> at xs 19;
     status \<leftarrow> at xs 20;
     lot \<leftarrow> read_u32 xs 21;
     lots_only \<leftarrow> at xs 25;
     classification \<leftarrow> at xs 26;
     sub_type \<leftarrow> read_chars 2 xs 27;
     authenticity \<leftarrow> at xs 29;
     threshold \<leftarrow> at xs 30;
     ipo \<leftarrow> at xs 31;
     tier \<leftarrow> at xs 32;
     etp \<leftarrow> at xs 33;
     leverage \<leftarrow> read_u32 xs 34;
     inverse \<leftarrow> at xs 38;
     Some (complete (StockDirectory
       \<lparr>sd_header = header, sd_stock = stock, sd_market_category = category,
        sd_financial_status_indicator = status, sd_round_lot_size = lot,
        sd_round_lots_only = lots_only, sd_issue_classification = classification,
        sd_issue_sub_type = sub_type, sd_authenticity = authenticity,
        sd_short_sale_threshold_indicator = threshold, sd_ipo_flag = ipo,
        sd_luld_reference_price_tier = tier, sd_etp_flag = etp, sd_etp_leverage_factor = leverage,
        sd_inverse_indicator = inverse\<rparr>) used)
   })"

definition decode_trading_action :: "u8 list \<Rightarrow> nat \<Rightarrow> decode_result option" where
  "decode_trading_action xs used = sized 25 xs (do {
     header \<leftarrow> read_header xs;
     stock \<leftarrow> read_chars 8 xs 11;
     state \<leftarrow> at xs 19;
     reserved \<leftarrow> at xs 20;
     reason \<leftarrow> read_chars 4 xs 21;
     Some (complete (TradingAction
       \<lparr>ta_header = header, ta_stock = stock, ta_trading_state = state, ta_reserved = reserved,
        ta_reason = reason\<rparr>) used)
   })"

definition decode_add_order :: "u8 list \<Rightarrow> nat \<Rightarrow> decode_result option" where
  "decode_add_order xs used = sized 36 xs (sided ''add order side must be B or S'' xs (\<lambda>side. do {
     header \<leftarrow> read_header xs;
     reference \<leftarrow> read_u64 xs 11;
     shares \<leftarrow> read_u32 xs 20;
     stock \<leftarrow> read_chars 8 xs 24;
     price \<leftarrow> read_u32 xs 32;
     Some (complete (AddOrder
       \<lparr>ao_header = header, ao_order_reference = reference, ao_side = side, ao_shares = shares,
        ao_stock = stock, ao_price = price\<rparr>) used)
   }))"

definition decode_add_attributed_order :: "u8 list \<Rightarrow> nat \<Rightarrow> decode_result option" where
  "decode_add_attributed_order xs used =
    sized 40 xs (sided ''attributed add order side must be B or S'' xs (\<lambda>side. do {
     header \<leftarrow> read_header xs;
     reference \<leftarrow> read_u64 xs 11;
     shares \<leftarrow> read_u32 xs 20;
     stock \<leftarrow> read_chars 8 xs 24;
     price \<leftarrow> read_u32 xs 32;
     attribution \<leftarrow> read_chars 4 xs 36;
     Some (complete (AddAttributedOrder
       \<lparr>aa_header = header, aa_order_reference = reference, aa_side = side, aa_shares = shares,
        aa_stock = stock, aa_price = price, aa_attribution = attribution\<rparr>) used)
   }))"

definition decode_order_executed :: "u8 list \<Rightarrow> nat \<Rightarrow> decode_result option" where
  "decode_order_executed xs used = sized 31 xs (do {
     header \<leftarrow> read_header xs;
     reference \<leftarrow> read_u64 xs 11;
     shares \<leftarrow> read_u32 xs 19;
     match \<leftarrow> read_u64 xs 23;
     Some (complete (OrderExecuted
       \<lparr>oe_header = header, oe_order_reference = reference, oe_executed_shares = shares,
        oe_match_number = match\<rparr>) used)
   })"

definition decode_order_executed_with_price :: "u8 list \<Rightarrow> nat \<Rightarrow> decode_result option" where
  "decode_order_executed_with_price xs used = sized 36 xs (do {
     header \<leftarrow> read_header xs;
     reference \<leftarrow> read_u64 xs 11;
     shares \<leftarrow> read_u32 xs 19;
     match \<leftarrow> read_u64 xs 23;
     printable \<leftarrow> at xs 31;
     price \<leftarrow> read_u32 xs 32;
     Some (complete (OrderExecutedWithPrice
       \<lparr>op_header = header, op_order_reference = reference, op_executed_shares = shares,
        op_match_number = match, op_printable = printable, op_execution_price = price\<rparr>) used)
   })"

definition decode_order_cancel :: "u8 list \<Rightarrow> nat \<Rightarrow> decode_result option" where
  "decode_order_cancel xs used = sized 23 xs (do {
     header \<leftarrow> read_header xs;
     reference \<leftarrow> read_u64 xs 11;
     shares \<leftarrow> read_u32 xs 19;
     Some (complete (OrderCancel
       \<lparr>oc_header = header, oc_order_reference = reference, oc_canceled_shares = shares\<rparr>) used)
   })"

definition decode_order_delete :: "u8 list \<Rightarrow> nat \<Rightarrow> decode_result option" where
  "decode_order_delete xs used = sized 19 xs (do {
     header \<leftarrow> read_header xs;
     reference \<leftarrow> read_u64 xs 11;
     Some (complete (OrderDelete \<lparr>od_header = header, od_order_reference = reference\<rparr>) used)
   })"

definition decode_order_replace :: "u8 list \<Rightarrow> nat \<Rightarrow> decode_result option" where
  "decode_order_replace xs used = sized 35 xs (do {
     header \<leftarrow> read_header xs;
     original \<leftarrow> read_u64 xs 11;
     new \<leftarrow> read_u64 xs 19;
     shares \<leftarrow> read_u32 xs 27;
     price \<leftarrow> read_u32 xs 31;
     Some (complete (OrderReplace
       \<lparr>or_header = header, or_original_order_reference = original, or_new_order_reference = new,
        or_shares = shares, or_price = price\<rparr>) used)
   })"

definition decode_trade :: "u8 list \<Rightarrow> nat \<Rightarrow> decode_result option" where
  "decode_trade xs used = sized 44 xs (sided ''trade side must be B or S'' xs (\<lambda>side. do {
     header \<leftarrow> read_header xs;
     reference \<leftarrow> read_u64 xs 11;
     shares \<leftarrow> read_u32 xs 20;
     stock \<leftarrow> read_chars 8 xs 24;
     price \<leftarrow> read_u32 xs 32;
     match \<leftarrow> read_u64 xs 36;
     Some (complete (Trade
       \<lparr>tr_header = header, tr_order_reference = reference, tr_side = side, tr_shares = shares,
        tr_stock = stock, tr_price = price, tr_match_number = match\<rparr>) used)
   }))"

definition decode_cross_trade :: "u8 list \<Rightarrow> nat \<Rightarrow> decode_result option" where
  "decode_cross_trade xs used = sized 40 xs (do {
     header \<leftarrow> read_header xs;
     shares \<leftarrow> read_u64 xs 11;
     stock \<leftarrow> read_chars 8 xs 19;
     price \<leftarrow> read_u32 xs 27;
     match \<leftarrow> read_u64 xs 31;
     cross_type \<leftarrow> at xs 39;
     Some (complete (CrossTrade
       \<lparr>ct_header = header, ct_shares = shares, ct_stock = stock, ct_cross_price = price,
        ct_match_number = match, ct_cross_type = cross_type\<rparr>) used)
   })"

definition decode_broken_trade :: "u8 list \<Rightarrow> nat \<Rightarrow> decode_result option" where
  "decode_broken_trade xs used = sized 19 xs (do {
     header \<leftarrow> read_header xs;
     match \<leftarrow> read_u64 xs 11;
     Some (complete (BrokenTrade \<lparr>bt_header = header, bt_match_number = match\<rparr>) used)
   })"

definition decode_net_order_imbalance :: "u8 list \<Rightarrow> nat \<Rightarrow> decode_result option" where
  "decode_net_order_imbalance xs used = sized 50 xs (do {
     header \<leftarrow> read_header xs;
     paired \<leftarrow> read_u64 xs 11;
     imbalance \<leftarrow> read_u64 xs 19;
     direction \<leftarrow> at xs 27;
     stock \<leftarrow> read_chars 8 xs 28;
     far \<leftarrow> read_u32 xs 36;
     near \<leftarrow> read_u32 xs 40;
     current \<leftarrow> read_u32 xs 44;
     cross_type \<leftarrow> at xs 48;
     variation \<leftarrow> at xs 49;
     Some (complete (NetOrderImbalance
       \<lparr>ni_header = header, ni_paired_shares = paired, ni_imbalance_shares = imbalance,
        ni_imbalance_direction = direction, ni_stock = stock, ni_far_price = far,
        ni_near_price = near, ni_current_reference_price = current, ni_cross_type = cross_type,
        ni_price_variation_indicator = variation\<rparr>) used)
   })"

definition decode_skipped :: "u8 list \<Rightarrow> text_byte \<Rightarrow> nat \<Rightarrow> decode_result option" where
  "decode_skipped xs type used = do {
     header \<leftarrow> (if length xs \<ge> common_header_bytes then map_option Some (read_header xs) else Some None);
     Some (complete (SkippedMessage \<lparr>sk_message_type = type, sk_header = header\<rparr>) used)
   }"

subsection \<open>The decoder\<close>

definition decode_message :: "u8 list \<Rightarrow> nat \<Rightarrow> decode_result option" where
  "decode_message xs used = do {
     type \<leftarrow> at xs 0;
     if type = ascii CHR ''S'' then decode_system_event xs used
     else if type = ascii CHR ''R'' then decode_stock_directory xs used
     else if type = ascii CHR ''H'' then decode_trading_action xs used
     else if type = ascii CHR ''A'' then decode_add_order xs used
     else if type = ascii CHR ''F'' then decode_add_attributed_order xs used
     else if type = ascii CHR ''E'' then decode_order_executed xs used
     else if type = ascii CHR ''C'' then decode_order_executed_with_price xs used
     else if type = ascii CHR ''X'' then decode_order_cancel xs used
     else if type = ascii CHR ''D'' then decode_order_delete xs used
     else if type = ascii CHR ''U'' then decode_order_replace xs used
     else if type = ascii CHR ''P'' then decode_trade xs used
     else if type = ascii CHR ''Q'' then decode_cross_trade xs used
     else if type = ascii CHR ''B'' then decode_broken_trade xs used
     else if type = ascii CHR ''I'' then decode_net_order_imbalance xs used
     else decode_skipped xs type used
   }"

definition decode_next :: "u8 list \<Rightarrow> decode_result option" where
  "decode_next input =
     (if length input < frame_prefix_bytes then Some need_more_data
      else do {
        word \<leftarrow> read_u16 input 0;
        let message_length = unat word;
        if message_length = 0 then
          Some (decode_failure InvalidFrameLength 0 ''ITCH frame length must include a message type byte'')
        else
          let total_length = frame_prefix_bytes + message_length in
          if length input < total_length then Some need_more_data
          else decode_message (slice input frame_prefix_bytes message_length) total_length
      })"

end
