(* ===== verification/Itch_Codec.thy ===== *)
theory Itch_Codec
  imports Itch_Decoder
begin

unbundle bit_operations_syntax

section \<open>The wire format and the decoder\<close>

text \<open>
  The layout of every modelled message as an encoder, the bytes the tests append for it; that the
  decoder inverts it in both directions; and the general facts about a decode: it is defined on
  every input, accounts for a whole frame, and looks at no byte beyond it.
\<close>

subsection \<open>The encoder\<close>

definition encode_header :: "char \<Rightarrow> message_header \<Rightarrow> u8 list" where
  "encode_header c h =
     ascii c # put_be 2 (mh_stock_locate h) @ put_be 2 (mh_tracking_number h) @ put_be 6 (mh_timestamp h)"

fun encode_event :: "itch_event \<Rightarrow> u8 list" where
  "encode_event (SystemEvent m) = encode_header CHR ''S'' (se_header m) @ [se_event_code m]"
| "encode_event (StockDirectory m) = encode_header CHR ''R'' (sd_header m) @ sd_stock m @
     [sd_market_category m, sd_financial_status_indicator m] @ put_be 4 (sd_round_lot_size m) @
     [sd_round_lots_only m, sd_issue_classification m] @ sd_issue_sub_type m @
     [sd_authenticity m, sd_short_sale_threshold_indicator m, sd_ipo_flag m,
      sd_luld_reference_price_tier m, sd_etp_flag m] @ put_be 4 (sd_etp_leverage_factor m) @
     [sd_inverse_indicator m]"
| "encode_event (TradingAction m) = encode_header CHR ''H'' (ta_header m) @ ta_stock m @
     [ta_trading_state m, ta_reserved m] @ ta_reason m"
| "encode_event (AddOrder m) = encode_header CHR ''A'' (ao_header m) @ put_be 8 (ao_order_reference m) @
     [side_byte (ao_side m)] @ put_be 4 (ao_shares m) @ ao_stock m @ put_be 4 (ao_price m)"
| "encode_event (AddAttributedOrder m) = encode_header CHR ''F'' (aa_header m) @
     put_be 8 (aa_order_reference m) @ [side_byte (aa_side m)] @ put_be 4 (aa_shares m) @ aa_stock m @
     put_be 4 (aa_price m) @ aa_attribution m"
| "encode_event (OrderExecuted m) = encode_header CHR ''E'' (oe_header m) @
     put_be 8 (oe_order_reference m) @ put_be 4 (oe_executed_shares m) @ put_be 8 (oe_match_number m)"
| "encode_event (OrderExecutedWithPrice m) = encode_header CHR ''C'' (op_header m) @
     put_be 8 (op_order_reference m) @ put_be 4 (op_executed_shares m) @ put_be 8 (op_match_number m) @
     [op_printable m] @ put_be 4 (op_execution_price m)"
| "encode_event (OrderCancel m) = encode_header CHR ''X'' (oc_header m) @
     put_be 8 (oc_order_reference m) @ put_be 4 (oc_canceled_shares m)"
| "encode_event (OrderDelete m) = encode_header CHR ''D'' (od_header m) @ put_be 8 (od_order_reference m)"
| "encode_event (OrderReplace m) = encode_header CHR ''U'' (or_header m) @
     put_be 8 (or_original_order_reference m) @ put_be 8 (or_new_order_reference m) @
     put_be 4 (or_shares m) @ put_be 4 (or_price m)"
| "encode_event (Trade m) = encode_header CHR ''P'' (tr_header m) @ put_be 8 (tr_order_reference m) @
     [side_byte (tr_side m)] @ put_be 4 (tr_shares m) @ tr_stock m @ put_be 4 (tr_price m) @
     put_be 8 (tr_match_number m)"
| "encode_event (CrossTrade m) = encode_header CHR ''Q'' (ct_header m) @ put_be 8 (ct_shares m) @
     ct_stock m @ put_be 4 (ct_cross_price m) @ put_be 8 (ct_match_number m) @ [ct_cross_type m]"
| "encode_event (BrokenTrade m) = encode_header CHR ''B'' (bt_header m) @ put_be 8 (bt_match_number m)"
| "encode_event (NetOrderImbalance m) = encode_header CHR ''I'' (ni_header m) @
     put_be 8 (ni_paired_shares m) @ put_be 8 (ni_imbalance_shares m) @ [ni_imbalance_direction m] @
     ni_stock m @ put_be 4 (ni_far_price m) @ put_be 4 (ni_near_price m) @
     put_be 4 (ni_current_reference_price m) @ [ni_cross_type m, ni_price_variation_indicator m]"
| "encode_event (SkippedMessage m) = []"

definition frame_bytes :: "u8 list \<Rightarrow> u8 list" where
  "frame_bytes message = put_be 2 (of_nat (length message) :: u16) @ message"

text \<open>
  What the wire can carry: 48-bit timestamps and texts of their fixed width. A skipped message does
  not keep its bytes and has no encoding.
\<close>

definition header_fits :: "message_header \<Rightarrow> bool" where
  "header_fits h \<longleftrightarrow> unat (mh_timestamp h) < 2 ^ 48"

fun event_fits :: "itch_event \<Rightarrow> bool" where
  "event_fits (SystemEvent m) \<longleftrightarrow> header_fits (se_header m)"
| "event_fits (StockDirectory m) \<longleftrightarrow> header_fits (sd_header m) \<and> length (sd_stock m) = 8 \<and>
     length (sd_issue_sub_type m) = 2"
| "event_fits (TradingAction m) \<longleftrightarrow> header_fits (ta_header m) \<and> length (ta_stock m) = 8 \<and>
     length (ta_reason m) = 4"
| "event_fits (AddOrder m) \<longleftrightarrow> header_fits (ao_header m) \<and> length (ao_stock m) = 8"
| "event_fits (AddAttributedOrder m) \<longleftrightarrow> header_fits (aa_header m) \<and> length (aa_stock m) = 8 \<and>
     length (aa_attribution m) = 4"
| "event_fits (OrderExecuted m) \<longleftrightarrow> header_fits (oe_header m)"
| "event_fits (OrderExecutedWithPrice m) \<longleftrightarrow> header_fits (op_header m)"
| "event_fits (OrderCancel m) \<longleftrightarrow> header_fits (oc_header m)"
| "event_fits (OrderDelete m) \<longleftrightarrow> header_fits (od_header m)"
| "event_fits (OrderReplace m) \<longleftrightarrow> header_fits (or_header m)"
| "event_fits (Trade m) \<longleftrightarrow> header_fits (tr_header m) \<and> length (tr_stock m) = 8"
| "event_fits (CrossTrade m) \<longleftrightarrow> header_fits (ct_header m) \<and> length (ct_stock m) = 8"
| "event_fits (BrokenTrade m) \<longleftrightarrow> header_fits (bt_header m)"
| "event_fits (NetOrderImbalance m) \<longleftrightarrow> header_fits (ni_header m) \<and> length (ni_stock m) = 8"
| "event_fits (SkippedMessage m) \<longleftrightarrow> False"

subsection \<open>Slices of a message\<close>

lemma slice_simps [simp]:
  "0 < i \<Longrightarrow> slice (x # xs) i n = slice xs (i - 1) n"
  "length xs \<le> i \<Longrightarrow> slice (xs @ ys) i n = slice ys (i - length xs) n"
  "length xs = n \<Longrightarrow> slice (xs @ ys) 0 n = xs"
  "length xs = n \<Longrightarrow> slice xs 0 n = xs"
  by (simp_all add: slice_def drop_Cons')

lemma slice_join:
  "i + n = j \<Longrightarrow> slice xs i n @ slice xs j m = slice xs i (n + m)"
  "i + n = j \<Longrightarrow> slice xs i n @ slice xs j m @ ys = slice xs i (n + m) @ ys"
  by (simp_all add: slice_append [symmetric])

lemma slice_one: "i < length xs \<Longrightarrow> xs ! i # ys = slice xs i 1 @ ys"
  using slice_Suc [of i xs 0] by (simp add: slice_def)

lemma be_word_slices [simp]:
  "be_word 0 (put_be 2 w2) = w2" "be_word 0 (put_be 4 w4) = w4" "be_word 0 (put_be 8 w8) = w8"
  for w2 :: u16 and w4 :: u32 and w8 :: u64
  by (simp_all add: be_word_put_be_full)

lemma be_word_timestamp: "unat w < 2 ^ 48 \<Longrightarrow> be_word 0 (put_be 6 w) = w" for w :: u64
  by (simp add: be_word_put_be)
    (rule unsigned_word_eqI [where 'a = nat], simp add: unsigned_take_bit_eq take_bit_nat_eq_self)

lemma read_header_encode:
  assumes "header_fits h"
  shows "read_header (encode_header c h @ xs) = Some h"
  using assms by (simp add: read_header_def encode_header_def header_fits_def be_word_timestamp)

lemma length_encode_header [simp]: "length (encode_header c h) = 11"
  by (simp add: encode_header_def)

lemma encode_header_type [simp]: "encode_header c h ! 0 = ascii c" "encode_header c h \<noteq> []"
  by (simp_all add: encode_header_def)

lemma side_byte_inverse [simp]: "to_side (side_byte s) = s" "valid_side (side_byte s)"
  by (cases s; simp add: to_side_def valid_side_def side_byte_def)+

lemma side_byte_to_side: "valid_side c \<Longrightarrow> side_byte (to_side c) = c"
  by (auto simp: to_side_def valid_side_def)

subsection \<open>Decoding what was encoded\<close>

lemmas decode_cases = decode_system_event_def decode_stock_directory_def decode_trading_action_def
  decode_add_order_def decode_add_attributed_order_def decode_order_executed_def
  decode_order_executed_with_price_def decode_order_cancel_def decode_order_delete_def
  decode_order_replace_def decode_trade_def decode_cross_trade_def decode_broken_trade_def
  decode_net_order_imbalance_def

lemma decode_message_encode:
  assumes "event_fits e"
  shows "decode_message (encode_event e) used = Some (complete e used)"
  using assms
  by (cases e; rename_tac m; case_tac m;
      simp add: decode_message_def decode_cases sized_def sided_def read_header_encode nth_append)

lemma encode_event_length: "event_fits e \<Longrightarrow> 0 < length (encode_event e) \<and> length (encode_event e) \<le> 50"
  by (cases e) simp_all

lemma slice_frame_prefix: "i + n \<le> length xs \<Longrightarrow> slice (xs @ ys) i n = slice xs i n"
  by (simp add: slice_def)

lemma decode_frame:
  assumes "0 < length message" "length message < 2 ^ 16"
  shows "decode_next (frame_bytes message @ rest) = decode_message message (2 + length message)"
proof -
  have "unat (of_nat (length message) :: u16) = length message"
    using assms(2) by (simp add: unsigned_of_nat take_bit_nat_eq_self)
  with assms show ?thesis
    by (simp add: decode_next_def frame_bytes_def frame_prefix_bytes_def Let_def)
qed

subsection \<open>Encoding what was decoded\<close>

lemma encode_header_read:
  assumes "read_header xs = Some h" "11 \<le> length xs" "xs ! 0 = ascii c"
  shows "encode_header c h = slice xs 0 11"
proof -
  have "h = \<lparr>mh_stock_locate = be_word 0 (slice xs 1 2), mh_tracking_number = be_word 0 (slice xs 3 2),
      mh_timestamp = be_word 0 (slice xs 5 6)\<rparr>"
    using assms(1,2) by (simp add: read_header_def)
  moreover have "slice xs 0 1 = [ascii c]"
    using assms(2,3) slice_one [of 0 xs "[]"] by (cases xs) simp_all
  ultimately have "encode_header c h = slice xs 0 1 @ slice xs 1 2 @ slice xs 3 2 @ slice xs 5 6"
    using assms(2) by (simp add: encode_header_def put_be_slice)
  then show ?thesis by (simp add: slice_join)
qed

lemma read_header_some:
  assumes "11 \<le> length xs"
  obtains h where "read_header xs = Some h" "header_fits h"
    "\<And>c. xs ! 0 = ascii c \<Longrightarrow> encode_header c h = slice xs 0 11"
proof -
  have "unat (be_word 0 (slice xs 5 6) :: u64) < 2 ^ 48"
    using be_word_less [where 'a = 64, of "slice xs 5 6"] assms by (simp add: length_slice)
  then obtain h where "read_header xs = Some h" "header_fits h"
    using assms by (simp add: read_header_def header_fits_def)
  with assms encode_header_read that show thesis by blast
qed

text \<open>
  What a decode of one message gives: an event that accounts for every byte of it, or an error at
  an offset of its frame.
\<close>

definition is_skipped :: "itch_event \<Rightarrow> bool" where
  "is_skipped e \<longleftrightarrow> (case e of SkippedMessage _ \<Rightarrow> True | _ \<Rightarrow> False)"

definition decoded_ok :: "u8 list \<Rightarrow> nat \<Rightarrow> decode_result option \<Rightarrow> bool" where
  "decoded_ok xs used res \<longleftrightarrow>
     (\<exists>e. res = Some (complete e used) \<and> (is_skipped e \<or> encode_event e = xs \<and> event_fits e)) \<or>
     (\<exists>code offset reason. res = Some (decode_failure code offset reason) \<and> offset < used)"

lemma complete_inject [simp]: "complete e n = complete e' n' \<longleftrightarrow> e = e' \<and> n = n'"
  by (auto simp: complete_def)

lemma decode_failure_inject [simp]:
  "decode_failure c i r = decode_failure c' i' r' \<longleftrightarrow> c = c' \<and> i = i' \<and> r = r'"
  by (auto simp: decode_failure_def)

lemma decoded_ok_simps [simp]:
  "decoded_ok xs used (Some (decode_failure code offset reason)) \<longleftrightarrow> offset < used"
  "decoded_ok xs used (Some (complete e used)) \<longleftrightarrow> is_skipped e \<or> encode_event e = xs \<and> event_fits e"
  by (auto simp: decoded_ok_def decode_failure_def complete_def)

lemma sized_ok:
  assumes "2 < used" "11 \<le> n"
    "\<And>h. length xs = n \<Longrightarrow> read_header xs = Some h \<Longrightarrow> header_fits h \<Longrightarrow>
       (\<And>c. xs ! 0 = ascii c \<Longrightarrow> encode_header c h = slice xs 0 11) \<Longrightarrow> decoded_ok xs used body"
  shows "decoded_ok xs used (sized n xs body)"
proof (cases "length xs = n")
  case True
  with assms(2) obtain h where "read_header xs = Some h" "header_fits h"
    "\<And>c. xs ! 0 = ascii c \<Longrightarrow> encode_header c h = slice xs 0 11"
    by (metis read_header_some)
  with assms(3) True show ?thesis by (simp add: sized_def)
next
  case False
  with assms(1) show ?thesis by (simp add: sized_def wrong_size_def frame_prefix_bytes_def)
qed

lemma sided_ok:
  assumes "21 < used" "19 < length xs"
    "\<And>s. side_byte s = xs ! 19 \<Longrightarrow> decoded_ok xs used (body s)"
  shows "decoded_ok xs used (sided reason xs body)"
  using assms side_byte_to_side [of "xs ! 19"] by (simp add: sided_def frame_prefix_bytes_def)

lemmas decoded_simps = put_be_slice slice_join slice_one length_slice is_skipped_def

lemma decode_case_ok:
  assumes "used = 2 + length xs" "xs \<noteq> []"
  shows "xs ! 0 = ascii CHR ''S'' \<Longrightarrow> decoded_ok xs used (decode_system_event xs used)"
    and "xs ! 0 = ascii CHR ''R'' \<Longrightarrow> decoded_ok xs used (decode_stock_directory xs used)"
    and "xs ! 0 = ascii CHR ''H'' \<Longrightarrow> decoded_ok xs used (decode_trading_action xs used)"
    and "xs ! 0 = ascii CHR ''A'' \<Longrightarrow> decoded_ok xs used (decode_add_order xs used)"
    and "xs ! 0 = ascii CHR ''F'' \<Longrightarrow> decoded_ok xs used (decode_add_attributed_order xs used)"
    and "xs ! 0 = ascii CHR ''E'' \<Longrightarrow> decoded_ok xs used (decode_order_executed xs used)"
    and "xs ! 0 = ascii CHR ''C'' \<Longrightarrow> decoded_ok xs used (decode_order_executed_with_price xs used)"
    and "xs ! 0 = ascii CHR ''X'' \<Longrightarrow> decoded_ok xs used (decode_order_cancel xs used)"
    and "xs ! 0 = ascii CHR ''D'' \<Longrightarrow> decoded_ok xs used (decode_order_delete xs used)"
    and "xs ! 0 = ascii CHR ''U'' \<Longrightarrow> decoded_ok xs used (decode_order_replace xs used)"
    and "xs ! 0 = ascii CHR ''P'' \<Longrightarrow> decoded_ok xs used (decode_trade xs used)"
    and "xs ! 0 = ascii CHR ''Q'' \<Longrightarrow> decoded_ok xs used (decode_cross_trade xs used)"
    and "xs ! 0 = ascii CHR ''B'' \<Longrightarrow> decoded_ok xs used (decode_broken_trade xs used)"
    and "xs ! 0 = ascii CHR ''I'' \<Longrightarrow> decoded_ok xs used (decode_net_order_imbalance xs used)"
proof -
  have used: "2 < used" using assms by (cases xs) simp_all
  show "decoded_ok xs used (decode_system_event xs used)" if "xs ! 0 = ascii CHR ''S''"
    unfolding decode_system_event_def
    by (rule sized_ok [OF used]; simp add: decoded_simps that)
  show "decoded_ok xs used (decode_stock_directory xs used)" if "xs ! 0 = ascii CHR ''R''"
    unfolding decode_stock_directory_def
    by (rule sized_ok [OF used]; simp add: decoded_simps that)
  show "decoded_ok xs used (decode_trading_action xs used)" if "xs ! 0 = ascii CHR ''H''"
    unfolding decode_trading_action_def
    by (rule sized_ok [OF used]; simp add: decoded_simps that)
  show "decoded_ok xs used (decode_add_order xs used)" if "xs ! 0 = ascii CHR ''A''"
    unfolding decode_add_order_def
    by (rule sized_ok [OF used]; (rule sided_ok)?; simp add: decoded_simps assms that)
  show "decoded_ok xs used (decode_add_attributed_order xs used)" if "xs ! 0 = ascii CHR ''F''"
    unfolding decode_add_attributed_order_def
    by (rule sized_ok [OF used]; (rule sided_ok)?; simp add: decoded_simps assms that)
  show "decoded_ok xs used (decode_order_executed xs used)" if "xs ! 0 = ascii CHR ''E''"
    unfolding decode_order_executed_def
    by (rule sized_ok [OF used]; simp add: decoded_simps that)
  show "decoded_ok xs used (decode_order_executed_with_price xs used)" if "xs ! 0 = ascii CHR ''C''"
    unfolding decode_order_executed_with_price_def
    by (rule sized_ok [OF used]; simp add: decoded_simps that)
  show "decoded_ok xs used (decode_order_cancel xs used)" if "xs ! 0 = ascii CHR ''X''"
    unfolding decode_order_cancel_def
    by (rule sized_ok [OF used]; simp add: decoded_simps that)
  show "decoded_ok xs used (decode_order_delete xs used)" if "xs ! 0 = ascii CHR ''D''"
    unfolding decode_order_delete_def
    by (rule sized_ok [OF used]; simp add: decoded_simps that)
  show "decoded_ok xs used (decode_order_replace xs used)" if "xs ! 0 = ascii CHR ''U''"
    unfolding decode_order_replace_def
    by (rule sized_ok [OF used]; simp add: decoded_simps that)
  show "decoded_ok xs used (decode_trade xs used)" if "xs ! 0 = ascii CHR ''P''"
    unfolding decode_trade_def
    by (rule sized_ok [OF used]; (rule sided_ok)?; simp add: decoded_simps assms that)
  show "decoded_ok xs used (decode_cross_trade xs used)" if "xs ! 0 = ascii CHR ''Q''"
    unfolding decode_cross_trade_def
    by (rule sized_ok [OF used]; simp add: decoded_simps that)
  show "decoded_ok xs used (decode_broken_trade xs used)" if "xs ! 0 = ascii CHR ''B''"
    unfolding decode_broken_trade_def
    by (rule sized_ok [OF used]; simp add: decoded_simps that)
  show "decoded_ok xs used (decode_net_order_imbalance xs used)" if "xs ! 0 = ascii CHR ''I''"
    unfolding decode_net_order_imbalance_def
    by (rule sized_ok [OF used]; simp add: decoded_simps that)
qed

lemma decode_skipped_ok: "decoded_ok xs used (decode_skipped xs t used)"
proof (cases "11 \<le> length xs")
  case True
  then obtain h where "read_header xs = Some h" by (rule read_header_some)
  with True show ?thesis by (simp add: decode_skipped_def common_header_bytes_def is_skipped_def)
qed (simp add: decode_skipped_def common_header_bytes_def is_skipped_def)

lemma decode_message_ok:
  assumes "xs \<noteq> []"
  shows "decoded_ok xs (2 + length xs) (decode_message xs (2 + length xs))"
  using decode_case_ok [OF refl assms] decode_skipped_ok assms
  by (simp add: decode_message_def del: ascii_simps)

subsection \<open>Framing\<close>

text \<open>The length a frame prefix declares, and what it makes of the input.\<close>

definition declared_length :: "u8 list \<Rightarrow> nat" where
  "declared_length input = unat (be_word 0 (slice input 0 2) :: u16)"

lemma decode_next_eq:
  "decode_next input =
     (if length input < 2 then Some need_more_data
      else if declared_length input = 0 then
        Some (decode_failure InvalidFrameLength 0 ''ITCH frame length must include a message type byte'')
      else if length input < 2 + declared_length input then Some need_more_data
      else decode_message (slice input 2 (declared_length input)) (2 + declared_length input))"
  by (simp add: decode_next_def frame_prefix_bytes_def declared_length_def Let_def)

lemma decode_next_ok:
  assumes "2 \<le> length input" "declared_length input \<noteq> 0" "2 + declared_length input \<le> length input"
  shows "decoded_ok (slice input 2 (declared_length input)) (2 + declared_length input) (decode_next input)"
proof -
  let ?m = "slice input 2 (declared_length input)"
  have "length ?m = declared_length input" using assms(3) by (simp add: length_slice)
  moreover from this assms(2) have "?m \<noteq> []" by auto
  ultimately show ?thesis using decode_message_ok [of ?m] assms by (simp add: decode_next_eq)
qed

end
