(* ===== verification/Itch_Properties.thy ===== *)
theory Itch_Properties
  imports Itch_Codec
begin

unbundle bit_operations_syntax

section \<open>What the decoder promises\<close>

text \<open>
  The properties of the decoder over every input: it is defined and bounded, inverts the wire format
  in both directions, can be fed a stream in pieces, and reports exactly the malformed frames.
\<close>

text \<open>
  C26: the decoder reads no byte outside of its input, whatever the input is, and its result is
  consistent: a complete message consumes more than the frame prefix and no more than the input, an
  error names an offset in the input, and every result carries exactly what its status says.
\<close>

theorem decode_total_and_bounded:
  "\<exists>r. decode_next input = Some r \<and>
     (case dr_status r of
        Complete \<Rightarrow> \<exists>e n. r = complete e n \<and> 2 < n \<and> n \<le> length input
      | NeedMoreData \<Rightarrow> r = need_more_data
      | Error \<Rightarrow> \<exists>code offset reason. r = decode_failure code offset reason \<and> offset < length input)"
proof -
  consider "length input < 2" | "2 \<le> length input" "declared_length input = 0"
    | "2 \<le> length input" "length input < 2 + declared_length input" "declared_length input \<noteq> 0"
    | "2 \<le> length input" "declared_length input \<noteq> 0" "2 + declared_length input \<le> length input"
    by linarith
  then show ?thesis
  proof cases
    case 4
    with decode_next_ok [OF 4] show ?thesis
      by (fastforce simp: decoded_ok_def complete_def decode_failure_def)
  qed (auto simp: decode_next_eq need_more_data_def decode_failure_def)
qed

text \<open>
  C11: decoding the frame of an event that fits the wire, whatever follows it, gives back the event
  and consumes exactly the frame.
\<close>

theorem decode_encode:
  assumes "event_fits e"
  shows "decode_next (frame_bytes (encode_event e) @ rest) =
    Some (complete e (length (frame_bytes (encode_event e))))"
  using encode_event_length [OF assms] decode_frame [of "encode_event e" rest]
    decode_message_encode [OF assms]
  by (simp add: frame_bytes_def)

definition example_add :: itch_event where
  "example_add = AddOrder
     \<lparr>ao_header = \<lparr>mh_stock_locate = 0x1234, mh_tracking_number = 0x5678, mh_timestamp = 0x010203040506\<rparr>,
      ao_order_reference = 0x0102030405060708, ao_side = Buy, ao_shares = 500,
      ao_stock = map ascii ''AAPL    '', ao_price = 1234500\<rparr>"

lemma decode_encode_witness:
  "decode_next (frame_bytes (encode_event example_add) @ [0, 9]) =
     Some (complete example_add (length (frame_bytes (encode_event example_add))))"
  by (rule decode_encode) (simp add: example_add_def header_fits_def)

lemma frame_of_input:
  assumes "2 + declared_length input \<le> length input"
  shows "frame_bytes (slice input 2 (declared_length input)) = take (2 + declared_length input) input"
proof -
  have "frame_bytes (slice input 2 (declared_length input)) =
    put_be 2 (be_word 0 (slice input 0 2) :: u16) @ slice input 2 (declared_length input)"
    using assms by (simp add: frame_bytes_def length_slice declared_length_def)
  also have "\<dots> = slice input 0 2 @ slice input 2 (declared_length input)"
    using assms by (simp add: put_be_slice)
  finally show ?thesis by (simp add: slice_join) (simp add: slice_def)
qed

text \<open>A decoded event is skipped only by the decoder's last case.\<close>

lemma decode_message_skipped:
  assumes "decode_message xs used = Some (complete (SkippedMessage m) n)"
  shows "sk_message_type m = xs ! 0 \<and> (if 11 \<le> length xs then read_header xs = sk_header m else sk_header m = None)"
  using assms
  by (auto simp: decode_message_def decode_cases sized_def sided_def wrong_size_def bind_eq_Some_conv
      decode_skipped_def common_header_bytes_def complete_def decode_failure_def at_def simp del: ascii_simps
      split: if_splits)

lemma header_bytes_read:
  assumes "read_header xs = Some h" "11 \<le> length xs"
  shows "xs = xs ! 0 # put_be 2 (mh_stock_locate h) @ put_be 2 (mh_tracking_number h) @
    put_be 6 (mh_timestamp h) @ slice xs 11 (length xs - 11)"
proof -
  have "h = \<lparr>mh_stock_locate = be_word 0 (slice xs 1 2), mh_tracking_number = be_word 0 (slice xs 3 2),
      mh_timestamp = be_word 0 (slice xs 5 6)\<rparr>"
    using assms by (simp add: read_header_def)
  moreover have "xs ! 0 # slice xs 1 2 @ slice xs 3 2 @ slice xs 5 6 @ slice xs 11 (length xs - 11) = xs"
  proof -
    have "xs ! 0 # slice xs 1 2 @ slice xs 3 2 @ slice xs 5 6 @ slice xs 11 (length xs - 11) =
        slice xs 0 1 @ slice xs 1 2 @ slice xs 3 2 @ slice xs 5 6 @ slice xs 11 (length xs - 11)"
      using assms(2) by (subst slice_one) auto
    also have "\<dots> = slice xs 0 (11 + (length xs - 11))" by (simp add: slice_join(2) slice_join(1))
    finally show ?thesis using assms(2) by (simp add: slice_all)
  qed
  ultimately show ?thesis using assms(2) by (simp add: put_be_slice)
qed

text \<open>
  C25: conversely a decoded event accounts for its frame. For an event of a modelled type, encoding it
  gives the very bytes the decoder consumed, so that two different frames never decode to the same such
  event. Of a skipped message the event keeps the type and, when the message is long enough for one,
  the header: the frame is these and a payload the decoder drops.
\<close>

theorem encode_decode:
  assumes "decode_next input = Some (complete e n)"
  shows "(\<not> is_skipped e \<longrightarrow> frame_bytes (encode_event e) = take n input \<and> event_fits e) \<and>
    (\<forall>m. e = SkippedMessage m \<longrightarrow> (\<exists>payload. take n input = frame_bytes (sk_message_type m #
      (case sk_header m of
         None \<Rightarrow> payload
       | Some h \<Rightarrow> put_be 2 (mh_stock_locate h) @ put_be 2 (mh_tracking_number h) @
           put_be 6 (mh_timestamp h) @ payload)) \<and>
      (sk_header m = None \<longrightarrow> length payload < 10)))"
proof -
  have ok: "2 \<le> length input" "declared_length input \<noteq> 0" "2 + declared_length input \<le> length input"
    using assms by (auto simp: decode_next_eq complete_def need_more_data_def decode_failure_def
        split: if_splits)
  let ?xs = "slice input 2 (declared_length input)"
  from decode_next_ok [OF ok] assms have n: "n = 2 + declared_length input"
    and kept: "is_skipped e \<or> encode_event e = ?xs \<and> event_fits e"
    by (auto simp: decoded_ok_def complete_def decode_failure_def)
  have frame: "take n input = frame_bytes ?xs" using frame_of_input [OF ok(3)] n by simp
  have "\<exists>payload. ?xs = sk_message_type m # (case sk_header m of None \<Rightarrow> payload
      | Some h \<Rightarrow> put_be 2 (mh_stock_locate h) @ put_be 2 (mh_tracking_number h) @
          put_be 6 (mh_timestamp h) @ payload) \<and> (sk_header m = None \<longrightarrow> length payload < 10)"
    if "e = SkippedMessage m" for m
  proof -
    have ne: "?xs \<noteq> []" using ok(2,3) by (auto simp: slice_def)
    have "decode_message ?xs (2 + declared_length input) = Some (complete (SkippedMessage m) n)"
      using assms ok that by (simp add: decode_next_eq)
    note m = decode_message_skipped [OF this]
    show ?thesis
    proof (cases "11 \<le> length ?xs")
      case True
      then obtain h where "read_header ?xs = Some h" by (rule read_header_some)
      with m True header_bytes_read [OF this True] show ?thesis by force
    next
      case False
      with m ne show ?thesis by (cases ?xs) auto
    qed
  qed
  with kept frame show ?thesis by fastforce
qed

lemma encode_decode_witness:
  "(\<exists>e. decode_next [0, 12, 0x53, 0, 1, 0, 2, 0, 0, 0, 0, 0, 7, 0x4F, 99] = Some (complete e 14) \<and>
     frame_bytes (encode_event e) = [0, 12, 0x53, 0, 1, 0, 2, 0, 0, 0, 0, 0, 7, 0x4F] \<and> event_fits e) \<and>
   (\<exists>m payload. decode_next [0, 3, 0x54, 8, 9] = Some (complete (SkippedMessage m) 5) \<and>
     [0, 3, 0x54, 8, 9] = frame_bytes (sk_message_type m # payload) \<and> length payload < 10)"
proof
  let ?e = "SystemEvent \<lparr>se_header = \<lparr>mh_stock_locate = 1, mh_tracking_number = 2, mh_timestamp = 7\<rparr>,
    se_event_code = 0x4F\<rparr>"
  let ?xs = "[0, 12, 0x53, 0, 1, 0, 2, 0, 0, 0, 0, 0, 7, 0x4F, 99] :: u8 list"
  have "decode_next ?xs = Some (complete ?e 14)"
    by (simp add: decode_next_eq declared_length_def slice_def decode_message_def
        decode_system_event_def sized_def read_header_def)
  with encode_decode [of ?xs ?e 14]
  show "\<exists>e. decode_next ?xs = Some (complete e 14) \<and>
     frame_bytes (encode_event e) = [0, 12, 0x53, 0, 1, 0, 2, 0, 0, 0, 0, 0, 7, 0x4F] \<and> event_fits e"
    by (intro exI [of _ ?e]) (simp add: is_skipped_def)
  let ?m = "\<lparr>sk_message_type = 0x54, sk_header = None\<rparr>" and ?ys = "[0, 3, 0x54, 8, 9] :: u8 list"
  have "decode_next ?ys = Some (complete (SkippedMessage ?m) 5)"
    by (simp add: decode_next_eq declared_length_def slice_def decode_message_def decode_skipped_def
        common_header_bytes_def)
  with encode_decode [of ?ys "SkippedMessage ?m" 5]
  show "\<exists>m payload. decode_next ?ys = Some (complete (SkippedMessage m) 5) \<and>
     ?ys = frame_bytes (sk_message_type m # payload) \<and> length payload < 10"
    by (intro exI [of _ ?m]) auto
qed

text \<open>
  C27: a stream can be decoded in pieces: a message or an error, once reported, does not depend on
  the bytes that follow, and more data is asked for exactly when the input ends before the frame
  prefix or before the length it declares.
\<close>

theorem decode_streaming:
  "(if length xs < 2 \<or> declared_length xs \<noteq> 0 \<and> length xs < 2 + declared_length xs
    then decode_next xs = Some need_more_data
    else decode_next (xs @ ys) = decode_next xs \<and> decode_next xs \<noteq> Some need_more_data)"
proof (cases "length xs < 2 \<or> declared_length xs \<noteq> 0 \<and> length xs < 2 + declared_length xs")
  case True
  then show ?thesis by (auto simp: decode_next_eq)
next
  case False
  then have declared: "declared_length (xs @ ys) = declared_length xs"
    by (simp add: declared_length_def slice_frame_prefix)
  have same: "decode_next (xs @ ys) = decode_next xs"
    using False by (auto simp: decode_next_eq declared slice_frame_prefix)
  have "decode_next xs \<noteq> Some need_more_data"
  proof (cases "declared_length xs = 0")
    case True
    with False show ?thesis by (simp add: decode_next_eq decode_failure_def need_more_data_def)
  next
    case ne: False
    with False decode_next_ok [of xs] show ?thesis
      by (auto simp: decoded_ok_def complete_def decode_failure_def need_more_data_def)
  qed
  with False same show ?thesis by simp
qed

text \<open>The message types of the decoder with the length each must have, and those with a side.\<close>

definition message_sizes :: "(text_byte \<times> nat) list" where
  "message_sizes =
     [(ascii CHR ''S'', 12), (ascii CHR ''R'', 39), (ascii CHR ''H'', 25), (ascii CHR ''A'', 36),
      (ascii CHR ''F'', 40), (ascii CHR ''E'', 31), (ascii CHR ''C'', 36), (ascii CHR ''X'', 23),
      (ascii CHR ''D'', 19), (ascii CHR ''U'', 35), (ascii CHR ''P'', 44), (ascii CHR ''Q'', 40),
      (ascii CHR ''B'', 19), (ascii CHR ''I'', 50)]"

definition sided_types :: "text_byte set" where
  "sided_types = {ascii CHR ''A'', ascii CHR ''F'', ascii CHR ''P''}"

text \<open>
  C28: which frames are errors. A frame of an unknown type is skipped, with its header when it is
  long enough for one; a frame of a known type with another length than its own is an error at its
  type byte; one with a side other than B or S is an error at that byte; every other frame decodes
  to an event of a known type.
\<close>

theorem decode_classifies:
  assumes "message \<noteq> []" "length message < 2 ^ 16"
  shows "\<exists>r. decode_next (frame_bytes message @ rest) = Some r \<and>
    (case map_of message_sizes (message ! 0) of
       None \<Rightarrow> r = complete (SkippedMessage \<lparr>sk_message_type = message ! 0,
                 sk_header = (if 11 \<le> length message then read_header message else None)\<rparr>)
               (2 + length message)
     | Some n \<Rightarrow>
         if length message \<noteq> n then r = wrong_size
         else if message ! 0 \<in> sided_types \<and> \<not> valid_side (message ! 19)
         then \<exists>reason. r = decode_failure InvalidSide 21 reason
         else \<exists>e. r = complete e (2 + length message) \<and> \<not> is_skipped e)"
proof -
  let ?used = "2 + length message"
  have frame: "decode_next (frame_bytes message @ rest) = decode_message message ?used"
    using assms by (intro decode_frame) simp_all
  have at0: "at message 0 = Some (message ! 0)" using assms(1) by simp
  show ?thesis
  proof (cases "map_of message_sizes (message ! 0)")
    case None
    then have "message ! 0 \<notin> fst ` set message_sizes" by (simp add: map_of_eq_None_iff)
    then have "decode_message message ?used = decode_skipped message (message ! 0) ?used"
      unfolding decode_message_def at0 by (simp add: message_sizes_def)
    with frame None show ?thesis
      by (cases "11 \<le> length message")
        (simp_all add: decode_skipped_def common_header_bytes_def read_header_def)
  next
      case (Some n)
    then have "(message ! 0, n) \<in> set message_sizes" by (rule map_of_SomeD)
    then have types: "message ! 0 = ascii CHR ''S'' \<and> n = 12 \<or> message ! 0 = ascii CHR ''R'' \<and> n = 39 \<or>
      message ! 0 = ascii CHR ''H'' \<and> n = 25 \<or> message ! 0 = ascii CHR ''A'' \<and> n = 36 \<or>
      message ! 0 = ascii CHR ''F'' \<and> n = 40 \<or> message ! 0 = ascii CHR ''E'' \<and> n = 31 \<or>
      message ! 0 = ascii CHR ''C'' \<and> n = 36 \<or> message ! 0 = ascii CHR ''X'' \<and> n = 23 \<or>
      message ! 0 = ascii CHR ''D'' \<and> n = 19 \<or> message ! 0 = ascii CHR ''U'' \<and> n = 35 \<or>
      message ! 0 = ascii CHR ''P'' \<and> n = 44 \<or> message ! 0 = ascii CHR ''Q'' \<and> n = 40 \<or>
      message ! 0 = ascii CHR ''B'' \<and> n = 19 \<or> message ! 0 = ascii CHR ''I'' \<and> n = 50"
      by (simp add: message_sizes_def)
    show ?thesis
    proof (cases "length message = n")
      case False
      with types have "decode_message message ?used = Some wrong_size"
        unfolding decode_message_def at0 decode_cases by (elim disjE) (simp_all add: sized_def)
      with Some False frame show ?thesis by simp
    next
      case True
      have "\<exists>r. decode_message message ?used = Some r \<and>
        (if message ! 0 \<in> sided_types \<and> \<not> valid_side (message ! 19)
         then \<exists>reason. r = decode_failure InvalidSide 21 reason
         else \<exists>e. r = complete e ?used \<and> \<not> is_skipped e)"
        using types True unfolding decode_message_def at0 decode_cases
        by (elim disjE) (simp_all add: sized_def sided_def sided_types_def frame_prefix_bytes_def
            is_skipped_def read_header_def)
      with Some True frame show ?thesis by simp
    qed
  qed
qed

lemma decode_classifies_witness:
  "decode_next (frame_bytes [0x54, 1, 2, 3, 4] @ [0]) =
     Some (complete (SkippedMessage \<lparr>sk_message_type = 0x54, sk_header = None\<rparr>) 7) \<and>
   decode_next (frame_bytes [0x53, 1] @ []) = Some wrong_size"
  using decode_classifies [of "[0x54, 1, 2, 3, 4]" "[0]"] decode_classifies [of "[0x53, 1]" "[]"]
  by (simp add: message_sizes_def)

end
