(* ===== verification/Matching_Engine.thy ===== *)
theory Matching_Engine
  imports Order_Book Itch_Messages
begin

section \<open>The matching engine\<close>

text \<open>
  The class \<^verbatim>\<open>MatchingEngine\<close> (\<^verbatim>\<open>src/engine/matching_engine.cpp\<close> and
  \<^verbatim>\<open>include/lob/matching_engine.hpp\<close>): a map from stock locates to books, the limits, the
  count of resting orders and the statistics of the replay, kept at their widths. An entry of
  \<^verbatim>\<open>books_\<close> is a \<^verbatim>\<open>unique_ptr\<close>, \<open>None\<close> when null. Calls that may
  allocate return an outcome.
\<close>

subsection \<open>State and results\<close>

datatype apply_action = Ignored | Added | Executed | Cancelled | Deleted | Replaced | Rejected

record apply_result =
  ar_action :: apply_action
  ar_stock_locate :: stock_locate
  ar_changed_book :: bool

record replay_stats =
  st_messages :: u64
  st_ignored :: u64
  st_adds :: u64
  st_executions :: u64
  st_cancels :: u64
  st_deletes :: u64
  st_replaces :: u64
  st_rejected :: u64

record engine_limits =
  max_instruments :: size_t
  max_resting_orders :: size_t

record fill =
  fill_resting_order :: order_id
  fill_price :: price
  fill_quantity :: quantity

record match_result =
  mr_filled :: quantity
  mr_resting :: quantity
  mr_unfilled :: quantity
  mr_fill_count :: size_t
  mr_fills_truncated :: bool
  mr_accepted :: bool

record engine =
  books :: "(stock_locate, order_book option) fmap"
  limits :: engine_limits
  resting_order_count :: size_t
  stats :: replay_stats

definition no_stats :: replay_stats where
  "no_stats = \<lparr>st_messages = 0, st_ignored = 0, st_adds = 0, st_executions = 0, st_cancels = 0,
     st_deletes = 0, st_replaces = 0, st_rejected = 0\<rparr>"

definition new_engine :: "engine_limits \<Rightarrow> engine" where
  "new_engine l = \<lparr>books = fmempty, limits = l, resting_order_count = 0, stats = no_stats\<rparr>"

definition new_result :: match_result where
  "new_result = \<lparr>mr_filled = 0, mr_resting = 0, mr_unfilled = 0, mr_fill_count = 0,
     mr_fills_truncated = False, mr_accepted = True\<rparr>"

subsection \<open>Books of the engine\<close>

definition find_book :: "engine \<Rightarrow> stock_locate \<Rightarrow> order_book option" where
  "find_book e l = (case fmlookup (books e) l of None \<Rightarrow> None | Some p \<Rightarrow> p)"

definition instrument_count :: "engine \<Rightarrow> size_t" where
  "instrument_count e = of_nat (fcard (fmdom (books e)))"

definition engine_clear :: "engine \<Rightarrow> engine" where
  "engine_clear e = e\<lparr>books := fmempty, resting_order_count := 0, stats := no_stats\<rparr>"

definition set_entry :: "engine \<Rightarrow> stock_locate \<Rightarrow> order_book option \<Rightarrow> engine" where
  "set_entry e l p = e\<lparr>books := fmupd l p (books e)\<rparr>"

text \<open>
  \<^verbatim>\<open>try_emplace\<close> makes a node and may need a larger bucket array; it enters a null
  pointer. Then \<^verbatim>\<open>make_unique\<close> allocates the book
  and its implementation object. An existing entry is dereferenced as it is.
\<close>

definition ensure_book :: "engine \<Rightarrow> stock_locate \<Rightarrow> nat \<Rightarrow> (engine, unit) outcome" where
  "ensure_book e l k =
     (case fmlookup (books e) l of
        Some None \<Rightarrow> Undefined
      | Some (Some _) \<Rightarrow> Done () e k
      | None \<Rightarrow>
          bind_outcome (allocate e k) (\<lambda>_ e k.
          bind_outcome (allocate e k) (\<lambda>_ e k.
          let e = set_entry e l None in
          bind_outcome (allocate e k) (\<lambda>_ e k.
          bind_outcome (allocate e k) (\<lambda>_ e k.
          Done () (set_entry e l (Some new_book)) k)))))"

text \<open>An operation on the book found under a locate.\<close>

definition on_book ::
  "engine \<Rightarrow> stock_locate \<Rightarrow> (order_book \<Rightarrow> nat \<Rightarrow> (order_book, 'a) outcome) \<Rightarrow> nat \<Rightarrow>
     (engine, 'a) outcome" where
  "on_book e l f k =
     (case find_book e l of
        None \<Rightarrow> Undefined
      | Some b \<Rightarrow> lift_outcome (\<lambda>b. set_entry e l (Some b)) (f b k))"

definition can_create_order :: "engine \<Rightarrow> stock_locate \<Rightarrow> bool" where
  "can_create_order e l \<longleftrightarrow>
     (if resting_order_count e \<ge> max_resting_orders (limits e) then False
      else find_book e l \<noteq> None \<or> instrument_count e < max_instruments (limits e))"

definition bump_stats :: "(replay_stats \<Rightarrow> replay_stats) \<Rightarrow> engine \<Rightarrow> engine" where
  "bump_stats f e = e\<lparr>stats := f (stats e)\<rparr>"

definition count_order :: "engine \<Rightarrow> engine" where
  "count_order e = e\<lparr>resting_order_count := resting_order_count e + 1\<rparr>"

definition uncount_order :: "engine \<Rightarrow> engine" where
  "uncount_order e = e\<lparr>resting_order_count := resting_order_count e - 1\<rparr>"

definition applied :: "apply_action \<Rightarrow> stock_locate \<Rightarrow> apply_result" where
  "applied a l = \<lparr>ar_action = a, ar_stock_locate = l, ar_changed_book = True\<rparr>"

definition ignored_result :: "stock_locate \<Rightarrow> apply_result" where
  "ignored_result l = \<lparr>ar_action = Ignored, ar_stock_locate = l, ar_changed_book = False\<rparr>"

definition reject :: "engine \<Rightarrow> stock_locate \<Rightarrow> nat \<Rightarrow> (engine, apply_result) outcome" where
  "reject e l k =
     Done \<lparr>ar_action = Rejected, ar_stock_locate = l, ar_changed_book = False\<rparr>
       (bump_stats (\<lambda>s. s\<lparr>st_rejected := st_rejected s + 1\<rparr>) e) k"

subsection \<open>Applying the feed\<close>

definition apply_add ::
  "engine \<Rightarrow> stock_locate \<Rightarrow> order_id \<Rightarrow> side \<Rightarrow> price \<Rightarrow> quantity \<Rightarrow> nat \<Rightarrow> (engine, apply_result) outcome" where
  "apply_add e l x side price shares k =
     (if \<not> can_create_order e l then reject e l k
      else
        bind_outcome (ensure_book e l k) (\<lambda>_ e k.
        bind_outcome (on_book e l (\<lambda>b. book_add b x side price shares) k) (\<lambda>added e k.
          if \<not> added then reject e l k
          else Done (applied Added l)
            (bump_stats (\<lambda>s. s\<lparr>st_adds := st_adds s + 1\<rparr>) (count_order e)) k)))"

text \<open>
  The order a message names, and the reduction common to executions and cancellations: look the
  order up, reduce it, and count it out when the reduction was its whole quantity.
\<close>

definition find_order :: "engine \<Rightarrow> stock_locate \<Rightarrow> order_id \<Rightarrow> order_view option" where
  "find_order e l x = (case find_book e l of None \<Rightarrow> None | Some b \<Rightarrow> book_order b x)"

definition apply_executed ::
  "engine \<Rightarrow> stock_locate \<Rightarrow> order_id \<Rightarrow> quantity \<Rightarrow> nat \<Rightarrow> (engine, apply_result) outcome" where
  "apply_executed e l x shares k =
     (case find_order e l x of
        None \<Rightarrow> reject e l k
      | Some order \<Rightarrow>
          bind_outcome (on_book e l (\<lambda>b. of_option (book_execute b x shares)) k) (\<lambda>executed e k.
            if \<not> executed then reject e l k
            else
              let e = (if view_quantity order = shares then uncount_order e else e) in
              Done (applied Executed l) (bump_stats (\<lambda>s. s\<lparr>st_executions := st_executions s + 1\<rparr>) e) k))"

definition apply_cancel ::
  "engine \<Rightarrow> stock_locate \<Rightarrow> order_id \<Rightarrow> quantity \<Rightarrow> nat \<Rightarrow> (engine, apply_result) outcome" where
  "apply_cancel e l x shares k =
     (case find_order e l x of
        None \<Rightarrow> reject e l k
      | Some order \<Rightarrow>
          bind_outcome (on_book e l (\<lambda>b. of_option (book_cancel b x shares)) k) (\<lambda>cancelled e k.
            if \<not> cancelled then reject e l k
            else
              let e = (if view_quantity order = shares then uncount_order e else e) in
              Done (applied Cancelled l) (bump_stats (\<lambda>s. s\<lparr>st_cancels := st_cancels s + 1\<rparr>) e) k))"

definition apply_delete ::
  "engine \<Rightarrow> stock_locate \<Rightarrow> order_id \<Rightarrow> nat \<Rightarrow> (engine, apply_result) outcome" where
  "apply_delete e l x k =
     (case find_book e l of
        None \<Rightarrow> reject e l k
      | Some _ \<Rightarrow>
          bind_outcome (on_book e l (\<lambda>b. of_option (book_erase b x)) k) (\<lambda>erased e k.
            if \<not> erased then reject e l k
            else Done (applied Deleted l)
              (bump_stats (\<lambda>s. s\<lparr>st_deletes := st_deletes s + 1\<rparr>) (uncount_order e)) k))"

definition apply_replace ::
  "engine \<Rightarrow> stock_locate \<Rightarrow> order_id \<Rightarrow> order_id \<Rightarrow> price \<Rightarrow> quantity \<Rightarrow> nat \<Rightarrow>
     (engine, apply_result) outcome" where
  "apply_replace e l x y price shares k =
     (case find_book e l of
        None \<Rightarrow> reject e l k
      | Some _ \<Rightarrow>
          bind_outcome (on_book e l (\<lambda>b. book_replace b x y price shares) k) (\<lambda>replaced e k.
            if \<not> replaced then reject e l k
            else Done (applied Replaced l) (bump_stats (\<lambda>s. s\<lparr>st_replaces := st_replaces s + 1\<rparr>) e) k))"

definition apply_ignored :: "engine \<Rightarrow> stock_locate \<Rightarrow> nat \<Rightarrow> (engine, apply_result) outcome" where
  "apply_ignored e l k =
     Done (ignored_result l) (bump_stats (\<lambda>s. s\<lparr>st_ignored := st_ignored s + 1\<rparr>) e) k"

definition visit :: "engine \<Rightarrow> itch_event \<Rightarrow> nat \<Rightarrow> (engine, apply_result) outcome" where
  "visit e event k =
     (case event of
        AddOrder m \<Rightarrow>
          apply_add e (mh_stock_locate (ao_header m)) (ao_order_reference m) (ao_side m) (ao_price m)
            (ao_shares m) k
      | AddAttributedOrder m \<Rightarrow>
          apply_add e (mh_stock_locate (aa_header m)) (aa_order_reference m) (aa_side m) (aa_price m)
            (aa_shares m) k
      | OrderExecuted m \<Rightarrow>
          apply_executed e (mh_stock_locate (oe_header m)) (oe_order_reference m) (oe_executed_shares m) k
      | OrderExecutedWithPrice m \<Rightarrow>
          apply_executed e (mh_stock_locate (op_header m)) (op_order_reference m) (op_executed_shares m) k
      | OrderCancel m \<Rightarrow>
          apply_cancel e (mh_stock_locate (oc_header m)) (oc_order_reference m) (oc_canceled_shares m) k
      | OrderDelete m \<Rightarrow> apply_delete e (mh_stock_locate (od_header m)) (od_order_reference m) k
      | OrderReplace m \<Rightarrow>
          apply_replace e (mh_stock_locate (or_header m)) (or_original_order_reference m)
            (or_new_order_reference m) (or_price m) (or_shares m) k
      | SkippedMessage m \<Rightarrow>
          apply_ignored e (case sk_header m of Some h \<Rightarrow> mh_stock_locate h | None \<Rightarrow> 0) k
      | SystemEvent m \<Rightarrow> apply_ignored e (mh_stock_locate (se_header m)) k
      | StockDirectory m \<Rightarrow> apply_ignored e (mh_stock_locate (sd_header m)) k
      | TradingAction m \<Rightarrow> apply_ignored e (mh_stock_locate (ta_header m)) k
      | Trade m \<Rightarrow> apply_ignored e (mh_stock_locate (tr_header m)) k
      | CrossTrade m \<Rightarrow> apply_ignored e (mh_stock_locate (ct_header m)) k
      | BrokenTrade m \<Rightarrow> apply_ignored e (mh_stock_locate (bt_header m)) k
      | NetOrderImbalance m \<Rightarrow> apply_ignored e (mh_stock_locate (ni_header m)) k)"

definition engine_apply :: "engine \<Rightarrow> itch_event \<Rightarrow> nat \<Rightarrow> (engine, apply_result) outcome" where
  "engine_apply e event k = visit (bump_stats (\<lambda>s. s\<lparr>st_messages := st_messages s + 1\<rparr>) e) event k"

subsection \<open>Matching\<close>

text \<open>
  The variables of the loop of \<^verbatim>\<open>match\<close>: the book, the remaining quantity, the result,
  the caller's span of fills and the engine's count of resting orders.
\<close>

record match_state =
  ms_book :: order_book
  ms_remaining :: quantity
  ms_result :: match_result
  ms_output :: "fill list"
  ms_count :: size_t

definition opposite_best :: "side \<Rightarrow> order_book \<Rightarrow> price option option" where
  "opposite_best side b = (if side = Buy then best_ask b else best_bid b)"

definition crosses :: "side \<Rightarrow> price \<Rightarrow> price \<Rightarrow> bool" where
  "crosses side limit_price p = (if side = Buy then limit_price \<ge> p else limit_price \<le> p)"

definition not_accepted :: "match_state \<Rightarrow> match_state" where
  "not_accepted st = st\<lparr>ms_result := (ms_result st)\<lparr>mr_accepted := False\<rparr>\<rparr>"

text \<open>The statements after a successful execution.\<close>

definition record_fill :: "order_view \<Rightarrow> price \<Rightarrow> quantity \<Rightarrow> match_state \<Rightarrow> match_state" where
  "record_fill v p q st =
     (let r = ms_result st;
          i = unat (mr_fill_count r);
          room = (i < length (ms_output st)) in
      st\<lparr>ms_output := (if room
           then (ms_output st)[i := \<lparr>fill_resting_order = view_id v, fill_price = p, fill_quantity = q\<rparr>]
           else ms_output st),
         ms_result := r\<lparr>mr_fills_truncated := mr_fills_truncated r \<or> \<not> room,
           mr_fill_count := mr_fill_count r + 1, mr_filled := mr_filled r + q\<rparr>,
         ms_count := (if q = view_quantity v then ms_count st - 1 else ms_count st),
         ms_remaining := ms_remaining st - q\<rparr>)"

text \<open>One round of the loop, with whether it goes on.\<close>

definition match_step :: "side \<Rightarrow> price \<Rightarrow> bool \<Rightarrow> match_state \<Rightarrow> (match_state \<times> bool) option" where
  "match_step side limit_price has_limit st = do {
     best \<leftarrow> opposite_best side (ms_book st);
     (case best of
        None \<Rightarrow> Some (st, False)
      | Some p \<Rightarrow>
          if has_limit \<and> \<not> crosses side limit_price p then Some (st, False)
          else do {
            front \<leftarrow> front_order (ms_book st) (opposite side) p;
            (case front of
               None \<Rightarrow> Some (not_accepted st, False)
             | Some v \<Rightarrow> do {
                 let q = (if ms_remaining st < view_quantity v then ms_remaining st else view_quantity v);
                 (executed, b) \<leftarrow> book_execute (ms_book st) (view_id v) q;
                 let st = st\<lparr>ms_book := b\<rparr>;
                 if \<not> executed then Some (not_accepted st, False)
                 else Some (record_fill v p q st, True)
               })
          })
   }"

text \<open>
  The loop. \<open>None\<close> is undefined behaviour and also what a loop that never ends would be, so
  that a \<open>Some\<close> proves both absent.
\<close>

partial_function (option) match_loop ::
  "side \<Rightarrow> price \<Rightarrow> bool \<Rightarrow> match_state \<Rightarrow> match_state option" where
  "match_loop side limit_price has_limit st =
     (if ms_remaining st = 0 then Some st
      else
        Option.bind (match_step side limit_price has_limit st) (\<lambda>r.
          if snd r then match_loop side limit_price has_limit (fst r) else Some (fst r)))"

definition match_orders ::
  "engine \<Rightarrow> stock_locate \<Rightarrow> side \<Rightarrow> price \<Rightarrow> quantity \<Rightarrow> bool \<Rightarrow> fill list \<Rightarrow>
     (match_result \<times> engine \<times> fill list) option" where
  "match_orders e l side limit_price quantity has_limit output =
     (case find_book e l of
        None \<Rightarrow> Some (new_result\<lparr>mr_resting := quantity\<rparr>, e, output)
      | Some b \<Rightarrow> do {
          st \<leftarrow> match_loop side limit_price has_limit
            \<lparr>ms_book = b, ms_remaining = quantity, ms_result = new_result, ms_output = output,
             ms_count = resting_order_count e\<rparr>;
          Some ((ms_result st)\<lparr>mr_resting := ms_remaining st\<rparr>,
            (set_entry e l (Some (ms_book st)))\<lparr>resting_order_count := ms_count st\<rparr>, ms_output st)
        })"

definition not_rested :: "match_result \<Rightarrow> match_result" where
  "not_rested r = r\<lparr>mr_unfilled := mr_unfilled r + mr_resting r, mr_resting := 0, mr_accepted := False\<rparr>"

definition submit_limit ::
  "engine \<Rightarrow> stock_locate \<Rightarrow> order_id \<Rightarrow> side \<Rightarrow> price \<Rightarrow> quantity \<Rightarrow> fill list \<Rightarrow> nat \<Rightarrow>
     (engine \<times> fill list, match_result) outcome" where
  "submit_limit e l x side limit_price quantity output k =
     (if quantity = 0 \<or> (case find_book e l of None \<Rightarrow> False | Some b \<Rightarrow> book_contains b x)
      then Done (new_result\<lparr>mr_accepted := False\<rparr>) (e, output) k
      else
        case match_orders e l side limit_price quantity True output of
          None \<Rightarrow> Undefined
        | Some (r, e, output) \<Rightarrow>
            if mr_resting r = 0 then Done r (e, output) k
            else if \<not> can_create_order e l then Done (not_rested r) (e, output) k
            else
              lift_outcome (\<lambda>e. (e, output))
                (bind_outcome (ensure_book e l k) (\<lambda>_ e k.
                 bind_outcome (on_book e l (\<lambda>b. book_add b x side limit_price (mr_resting r)) k)
                   (\<lambda>added e k. if \<not> added then Done (not_rested r) e k else Done r (count_order e) k))))"

definition submit_market ::
  "engine \<Rightarrow> stock_locate \<Rightarrow> side \<Rightarrow> quantity \<Rightarrow> fill list \<Rightarrow> (match_result \<times> engine \<times> fill list) option" where
  "submit_market e l side quantity output =
     (if quantity = 0 then Some (new_result\<lparr>mr_accepted := False\<rparr>, e, output)
      else do {
        (r, e, output) \<leftarrow> match_orders e l side 0 quantity False output;
        Some (r\<lparr>mr_unfilled := mr_resting r, mr_resting := 0\<rparr>, e, output)
      })"

end
