(* ===== verification/Book_Interface.thy ===== *)
theory Book_Interface
  imports Book_Refinement
begin

section \<open>What the matching engine relies on\<close>

text \<open>
  The order of priority of a side of the abstract book, and the two interfaces through which the
  matching engine uses an order book: \<open>limit_book\<close>, whose client lemmas are one step of
  matching, and \<open>lifecycle_book\<close>, which extends it by the operations of the feed and whose
  client lemmas say how each changes the number of resting orders. Both are interpreted on the
  model of \<^verbatim>\<open>OrderBook\<close>.
\<close>

subsection \<open>Price-time priority\<close>

definition best_of :: "side \<Rightarrow> price set \<Rightarrow> price" where
  "best_of s A = (if s = Buy then Max A else Min A)"

text \<open>The prices of a side, best first.\<close>

definition ranked :: "side \<Rightarrow> price set \<Rightarrow> price list" where
  "ranked s A = (if s = Buy then rev (sorted_list_of_set A) else sorted_list_of_set A)"

definition at_price :: "market \<Rightarrow> side \<Rightarrow> price \<Rightarrow> (order_id \<times> price \<times> quantity) list" where
  "at_price m s p =
     map (\<lambda>x. (x, p, case resting m x of None \<Rightarrow> 0 | Some od \<Rightarrow> ro_quantity od)) (queue m s p)"

text \<open>The orders of a side in the order they are to be filled.\<close>

definition priority :: "side \<Rightarrow> market \<Rightarrow> (order_id \<times> price \<times> quantity) list" where
  "priority s m = concat (map (at_price m s) (ranked s (active_prices s m)))"

lemma ranked_empty [simp]: "ranked s {} = []"
  by (simp add: ranked_def)

lemma sorted_list_of_set_Max:
  fixes A :: "price set"
  assumes "A \<noteq> {}"
  shows "sorted_list_of_set A = sorted_list_of_set (A - {Max A}) @ [Max A]"
proof (rule sorted_list_of_set_unique [THEN iffD1, OF finite])
  have "Max A \<in> A" by (rule Max_in [OF finite assms])
  then show "sorted_wrt (<) (sorted_list_of_set (A - {Max A}) @ [Max A]) \<and>
      set (sorted_list_of_set (A - {Max A}) @ [Max A]) = A \<and>
      length (sorted_list_of_set (A - {Max A}) @ [Max A]) = card A"
    using card_Suc_Diff1 [OF finite [of A]]
    by (auto simp: sorted_wrt_append less_le simp del: card_Diff_singleton)
qed

lemma ranked_Cons:
  assumes "A \<noteq> {}"
  shows "ranked s A = best_of s A # ranked s (A - {best_of s A})"
  using sorted_list_of_set_Max [OF assms] sorted_list_of_set_nonempty [OF finite assms]
  by (simp add: ranked_def best_of_def)

lemma best_of_in: "A \<noteq> {} \<Longrightarrow> best_of s A \<in> A"
  by (cases s) (simp_all add: best_of_def)

lemma set_ranked [simp]: "set (ranked s A) = A"
  by (simp add: ranked_def)

lemma market_best_of:
  "market_best s m = (if active_prices s m = {} then None else Some (best_of s (active_prices s m)))"
  by (simp add: market_best_def best_of_def)

lemma priority_Nil_iff: "priority s m = [] \<longleftrightarrow> active_prices s m = {}"
  by (auto simp: priority_def at_price_def active_prices_def)

text \<open>Taking the front order of the best price out of the book takes it off the list.\<close>

lemma priority_remove:
  assumes "market_inv m" "active_prices s m \<noteq> {}" "p = best_of s (active_prices s m)"
    "queue m s p = x # xs"
  shows "priority s m = (x, p, case resting m x of None \<Rightarrow> 0 | Some od \<Rightarrow> ro_quantity od) #
    priority s (remove_order x m)"
proof -
  let ?A = "active_prices s m" and ?m = "remove_order x m"
  have x: "x \<notin> set (queue m s p')" if "p' \<noteq> p" for p'
    using market_inv_D(2) [OF assms(1), where x = x and s = s] assms(4) that
    by (metis list.set_intros(1) option.inject)
  have x': "x \<notin> set xs" using market_inv_D(1) [OF assms(1), of s p] assms(4) by simp
  have q: "queue ?m s p' = (if p' = p then xs else queue m s p')" for p'
    using x [of p'] assms(4) by (simp add: remove_order_def remove1_idem)
  have other: "map (at_price ?m s) (ranked s (?A - {p})) = map (at_price m s) (ranked s (?A - {p}))"
    using x by (auto simp: at_price_def q) (auto simp: remove_order_def)
  have A: "active_prices s ?m = (if xs = [] then ?A - {p} else ?A)"
    using assms(4) by (auto simp: active_prices_def q)
  have front: "at_price ?m s p = map (\<lambda>y. (y, p, case resting m y of None \<Rightarrow> 0 | Some od \<Rightarrow> ro_quantity od)) xs"
    using x' by (auto simp: at_price_def q) (auto simp: remove_order_def)
  have "priority s m = at_price m s p @ concat (map (at_price m s) (ranked s (?A - {p})))"
    using ranked_Cons [OF assms(2), of s] assms(3) by (simp add: priority_def)
  moreover have "priority s ?m = at_price ?m s p @ concat (map (at_price ?m s) (ranked s (?A - {p})))"
    using ranked_Cons [OF assms(2), of s] assms(3) A front by (auto simp: priority_def)
  ultimately show ?thesis using assms(4) unfolding other front by (simp add: at_price_def)
qed

lemma priority_Cons:
  assumes "market_inv m" "priority s m = (x, p, r) # L"
  shows "market_best s m = Some p" "priority s (remove_order x m) = L"
    "\<exists>xs. queue m s p = x # xs"
    "resting m x = Some \<lparr>ro_side = s, ro_price = p, ro_quantity = r\<rparr>"
proof -
  have ne: "active_prices s m \<noteq> {}" using priority_Nil_iff [of s m] assms(2) by auto
  let ?p = "best_of s (active_prices s m)"
  obtain y ys where q: "queue m s ?p = y # ys"
    using best_of_in [OF ne, of s] by (auto simp: active_prices_def neq_Nil_conv)
  from priority_remove [OF assms(1) ne refl q] assms(2)
  have *: "y = x" "?p = p" "priority s (remove_order x m) = L"
    "r = (case resting m x of None \<Rightarrow> 0 | Some od \<Rightarrow> ro_quantity od)" by auto
  obtain od where "resting m x = Some od" "ro_side od = s" "ro_price od = p"
    using market_inv_D(2) [OF assms(1), where x = x and s = s and p = p] q * by auto
  with * q ne show "market_best s m = Some p" "priority s (remove_order x m) = L"
    "\<exists>xs. queue m s p = x # xs" "resting m x = Some \<lparr>ro_side = s, ro_price = p, ro_quantity = r\<rparr>"
    by (auto simp: market_best_of)
qed

text \<open>The number of resting orders.\<close>

definition market_size :: "market \<Rightarrow> nat" where
  "market_size m = card (dom (resting m))"

lemma market_size_simps:
  "resting m x \<noteq> None \<Longrightarrow> Suc (market_size (remove_order x m)) = market_size m"
  "resting m x = None \<Longrightarrow> market_size (rest_order x od m) = Suc (market_size m)"
  "market_size (resize_order x q m) = market_size m"
proof -
  show "market_size (resize_order x q m) = market_size m"
    by (simp add: market_size_def resize_order_def dom_def fun_upd_def)
      (rule arg_cong [of _ _ card], auto)
  have "dom (resting (remove_order x m)) = dom (resting m) - {x}" by (auto simp: remove_order_def)
  then show "Suc (market_size (remove_order x m)) = market_size m" if "resting m x \<noteq> None"
    using card_Suc_Diff1 [of "dom (resting m)" x] that by (simp only: market_size_def domIff) simp
  show "market_size (rest_order x od m) = Suc (market_size m)" if "resting m x = None"
    using that by (simp add: market_size_def rest_order_def card_insert_if domIff)
qed

subsection \<open>The interface of matching\<close>

locale limit_book =
  fixes holds :: "'b \<Rightarrow> market \<Rightarrow> bool"
    and best :: "side \<Rightarrow> 'b \<Rightarrow> price option option"
    and front :: "'b \<Rightarrow> side \<Rightarrow> price \<Rightarrow> order_view option option"
    and execute :: "'b \<Rightarrow> order_id \<Rightarrow> quantity \<Rightarrow> (bool \<times> 'b) option"
  assumes holds_inv: "holds b m \<Longrightarrow> market_inv m"
    and best_law: "holds b m \<Longrightarrow> best s b = Some (market_best s m)"
    and front_law: "holds b m \<Longrightarrow> front b s p = Some (market_front s p m)"
    and execute_law: "holds b m \<Longrightarrow>
      \<exists>b'. execute b x q = Some (fst (market_cancel x q m), b') \<and> holds b' (snd (market_cancel x q m))"
begin

lemma no_best:
  "holds b m \<Longrightarrow> priority s m = [] \<Longrightarrow> best s b = Some None"
  by (simp add: best_law priority_Nil_iff market_best_of)

lemma front_of_best:
  assumes "holds b m" "priority s m = (x, p, r) # L"
  shows "best s b = Some (Some p)"
    and "front b s p = Some (Some \<lparr>view_id = x, view_side = s, view_price = p, view_quantity = r\<rparr>)"
  using priority_Cons [OF holds_inv [OF assms(1)] assms(2)] assms(1)
  by (auto simp: best_law front_law market_front_def market_view_def)

lemma fill_whole:
  assumes "holds b m" "priority s m = (x, p, r) # L"
  shows "\<exists>b'. execute b x r = Some (True, b') \<and> holds b' (remove_order x m) \<and>
    priority s (remove_order x m) = L \<and> Suc (market_size (remove_order x m)) = market_size m"
proof -
  note front = priority_Cons [OF holds_inv [OF assms(1)] assms(2)]
  have "r \<noteq> 0" using market_inv_D(3) [OF holds_inv [OF assms(1)] front(4)] by simp
  with front(4) have "market_cancel x r m = (True, remove_order x m)" by (simp add: market_cancel_def)
  with execute_law [OF assms(1), of x r] front(2,4) market_size_simps(1) [of m x]
  show ?thesis by auto
qed

lemma fill_part:
  assumes "holds b m" "priority s m = (x, p, r) # L" "q \<noteq> 0" "q < r"
  shows "\<exists>b'. execute b x q = Some (True, b') \<and> holds b' (resize_order x (r - q) m)"
proof -
  note front = priority_Cons [OF holds_inv [OF assms(1)] assms(2)]
  with assms(3,4) have "market_cancel x q m = (True, resize_order x (r - q) m)"
    by (auto simp: market_cancel_def)
  with execute_law [OF assms(1), of x q] show ?thesis by simp
qed

end

interpretation matching: limit_book book_holds best_price front_order book_execute
  by unfold_locales
    (use book_stateD(1) best_price_correct front_order_correct book_execute_correct in blast)+

subsection \<open>The interface of the feed\<close>

locale lifecycle_book = limit_book +
  fixes order :: "'b \<Rightarrow> order_id \<Rightarrow> order_view option"
    and add :: "'b \<Rightarrow> order_id \<Rightarrow> side \<Rightarrow> price \<Rightarrow> quantity \<Rightarrow> nat \<Rightarrow> ('b, bool) outcome"
    and erase :: "'b \<Rightarrow> order_id \<Rightarrow> (bool \<times> 'b) option"
    and replace :: "'b \<Rightarrow> order_id \<Rightarrow> order_id \<Rightarrow> price \<Rightarrow> quantity \<Rightarrow> nat \<Rightarrow> ('b, bool) outcome"
  assumes order_law: "holds b m \<Longrightarrow> order b x = map_option (market_view x) (resting m x)"
    and add_law: "holds b m \<Longrightarrow> outcome_sat
      (\<lambda>v b' k'. v = fst (market_add x s p q m) \<and> holds b' (snd (market_add x s p q m)) \<and> k \<le> k' + 9)
      (\<lambda>b'. holds b' m \<and> k < 9) (add b x s p q k)"
    and erase_law: "holds b m \<Longrightarrow>
      \<exists>b'. erase b x = Some (fst (market_erase x m), b') \<and> holds b' (snd (market_erase x m))"
    and replace_law: "holds b m \<Longrightarrow> outcome_sat
      (\<lambda>v b' k'. v = fst (market_replace x y p q m) \<and> holds b' (snd (market_replace x y p q m)) \<and>
        k \<le> k' + 9)
      (\<lambda>b'. holds b' m \<and> k < 9) (replace b x y p q k)"
begin

text \<open>What each operation of the feed does to the book and to the number of its orders.\<close>

lemma add_sat:
  assumes "holds b m" "market_add x s p q m = (v, m')"
  shows "outcome_sat
    (\<lambda>w b' k'. w = v \<and> holds b' m' \<and> market_size m' = market_size m + (if v then 1 else 0) \<and> k \<le> k' + 9)
    (\<lambda>b'. holds b' m \<and> k < 9) (add b x s p q k)"
proof -
  have "market_size m' = market_size m + (if v then 1 else 0)"
    using assms(2) by (auto simp: market_add_def market_size_simps split: if_splits)
  with add_law [OF assms(1), of x s p q k] assms(2) show ?thesis
    by (auto elim!: outcome_sat_mono)
qed

lemma execute_sat:
  assumes "holds b m" "market_cancel x q m = (v, m')"
  shows "\<exists>b'. execute b x q = Some (v, b') \<and> holds b' m' \<and>
    market_size m = market_size m' +
      (if v \<and> map_option view_quantity (order b x) = Some q then 1 else 0)"
proof -
  have "market_size m = market_size m' +
      (if v \<and> map_option view_quantity (order b x) = Some q then 1 else 0)"
    using assms market_size_simps(1) [of m x]
    by (auto simp: order_law market_cancel_def market_view_def market_size_simps(3)
        split: option.splits if_splits)
  with execute_law [OF assms(1), of x q] assms(2) show ?thesis by auto
qed

lemma erase_sat:
  assumes "holds b m" "market_erase x m = (v, m')"
  shows "\<exists>b'. erase b x = Some (v, b') \<and> holds b' m' \<and>
    market_size m = market_size m' + (if v then 1 else 0)"
  using erase_law [OF assms(1), of x] assms(2) market_size_simps(1) [of m x]
  by (auto simp: market_erase_def split: if_splits)

lemma replace_sat:
  assumes "holds b m" "market_replace x y p q m = (v, m')"
  shows "outcome_sat
    (\<lambda>w b' k'. w = v \<and> holds b' m' \<and> market_size m' = market_size m \<and> k \<le> k' + 9)
    (\<lambda>b'. holds b' m \<and> k < 9) (replace b x y p q k)"
proof -
  have moved: "market_size (rest_order x od (remove_order x m)) = market_size m"
    if "resting m x \<noteq> None" for od
    using market_size_simps(1) [OF that] market_size_simps(2) [of "remove_order x m" x od]
    by (simp add: remove_order_def)
  have swapped: "market_size (remove_order x (rest_order y od m)) = market_size m"
    if "resting m x \<noteq> None" "resting m y = None" for od
    using market_size_simps(1) [of "rest_order y od m" x] market_size_simps(2) [OF that(2)] that
    by (auto simp: rest_order_def)
  have "market_size m' = market_size m"
    using assms(2) moved swapped
    by (auto simp: market_replace_def market_modify_def market_size_simps(3) split: option.splits if_splits)
  with replace_law [OF assms(1), of x y p q k] assms(2) show ?thesis
    by (auto elim!: outcome_sat_mono)
qed

end

interpretation lifecycle: lifecycle_book book_holds best_price front_order book_execute
  book_order book_add book_erase book_replace
  by unfold_locales
    (use book_order_correct book_erase_correct book_add_correct book_replace_correct
      in \<open>auto simp: implements_def\<close>)

end
