(* ===== verification/Engine_Refinement.thy ===== *)
theory Engine_Refinement
  imports Matching_Engine Book_Interface Book_Runs
begin

section \<open>The matching engine refines a family of abstract books\<close>

text \<open>
  \<open>engine_holds e M Z\<close>: the engine \<open>e\<close> holds for every locate the abstract book
  \<open>M\<close> gives it, the locates \<open>Z\<close> having a null entry; its counter is the number of
  resting orders of all books, and the limits are kept. \<open>Z\<close> is empty unless an allocation
  failed in \<^verbatim>\<open>ensure_book\<close>.
\<close>

type_synonym markets = "stock_locate \<Rightarrow> market option"

subsection \<open>The relation\<close>

fun entry_holds :: "order_book option option \<Rightarrow> market option \<Rightarrow> bool \<Rightarrow> bool" where
  "entry_holds None mo z \<longleftrightarrow> mo = None \<and> \<not> z"
| "entry_holds (Some None) mo z \<longleftrightarrow> mo = None \<and> z"
| "entry_holds (Some (Some b)) mo z \<longleftrightarrow> \<not> z \<and> (\<exists>m. mo = Some m \<and> book_holds b m)"

definition books_hold :: "engine \<Rightarrow> markets \<Rightarrow> stock_locate set \<Rightarrow> bool" where
  "books_hold e M Z \<longleftrightarrow> (\<forall>l. entry_holds (fmlookup (books e) l) (M l) (l \<in> Z))"

definition size_at :: "markets \<Rightarrow> stock_locate \<Rightarrow> nat" where
  "size_at M l = (case M l of None \<Rightarrow> 0 | Some m \<Rightarrow> market_size m)"

definition total_size :: "markets \<Rightarrow> nat" where
  "total_size M = (\<Sum>l\<in>UNIV. size_at M l)"

definition within_limits :: "engine_limits \<Rightarrow> markets \<Rightarrow> stock_locate set \<Rightarrow> bool" where
  "within_limits L M Z \<longleftrightarrow> total_size M \<le> unat (max_resting_orders L) \<and>
     card (dom M \<union> Z) \<le> unat (max_instruments L)"

definition engine_holds :: "engine \<Rightarrow> markets \<Rightarrow> stock_locate set \<Rightarrow> bool" where
  "engine_holds e M Z \<longleftrightarrow> books_hold e M Z \<and> unat (resting_order_count e) = total_size M \<and>
     within_limits (limits e) M Z"

lemma new_engine_holds: "engine_holds (new_engine l) (\<lambda>_. None) {}"
  by (simp add: engine_holds_def books_hold_def new_engine_def total_size_def size_at_def
      within_limits_def)

lemma find_book_None: "books_hold e M Z \<Longrightarrow> find_book e l = None \<longleftrightarrow> M l = None"
  by (cases "fmlookup (books e) l"; cases "the (fmlookup (books e) l)")
    (auto simp: books_hold_def find_book_def dest!: spec [where x = l])

lemma find_book_Some:
  assumes "books_hold e M Z" "M l = Some m"
  obtains b where "find_book e l = Some b" "fmlookup (books e) l = Some (Some b)" "book_holds b m" "l \<notin> Z"
proof -
  have "entry_holds (fmlookup (books e) l) (M l) (l \<in> Z)" using assms(1) by (simp add: books_hold_def)
  with assms(2) that show thesis
    by (cases "fmlookup (books e) l"; cases "the (fmlookup (books e) l)") (auto simp: find_book_def)
qed

lemma instrument_count_eq:
  assumes "books_hold e M Z"
  shows "unat (instrument_count e) = card (dom M \<union> Z)"
proof -
  have "l \<in> fset (fmdom (books e)) \<longleftrightarrow> l \<in> dom M \<union> Z" for l
    using assms [unfolded books_hold_def, rule_format, of l]
    by (cases "fmlookup (books e) l"; cases "the (fmlookup (books e) l)")
      (auto simp: fmlookup_dom_iff)
  then have "fset (fmdom (books e)) = dom M \<union> Z" by blast
  moreover have "card (dom M \<union> Z) \<le> card (UNIV :: stock_locate set)" by (rule card_mono) auto
  then have "card (dom M \<union> Z) < 2 ^ 64" by (simp add: card_word)
  ultimately show ?thesis
    by (simp add: instrument_count_def fcard.rep_eq unsigned_of_nat take_bit_nat_eq_self)
qed

definition may_create :: "engine_limits \<Rightarrow> stock_locate set \<Rightarrow> markets \<Rightarrow> stock_locate \<Rightarrow> bool" where
  "may_create L Z M l \<longleftrightarrow> total_size M < unat (max_resting_orders L) \<and>
     (M l \<noteq> None \<or> card (dom M \<union> Z) < unat (max_instruments L))"

lemma can_create_order_iff:
  assumes "books_hold e M Z" "unat (resting_order_count e) = total_size M"
  shows "can_create_order e l \<longleftrightarrow> may_create (limits e) Z M l"
  using instrument_count_eq [OF assms(1)] find_book_None [OF assms(1), of l] assms(2)
  by (auto simp: can_create_order_def may_create_def word_le_nat_alt word_less_nat_alt)

subsection \<open>Updates\<close>

lemma total_size_upd:
  "total_size (M(l \<mapsto> m)) + size_at M l = total_size M + market_size m"
proof -
  have "total_size (M(l \<mapsto> m)) = market_size m + (\<Sum>l' \<in> UNIV - {l}. size_at M l')"
    unfolding total_size_def
    by (subst sum.remove [of _ l]) (auto simp: size_at_def intro!: sum.cong)
  moreover have "total_size M = size_at M l + (\<Sum>l' \<in> UNIV - {l}. size_at M l')"
    unfolding total_size_def by (rule sum.remove) auto
  ultimately show ?thesis by simp
qed

lemma set_entry_simps [simp]:
  "limits (set_entry e l p) = limits e" "resting_order_count (set_entry e l p) = resting_order_count e"
  "stats (set_entry e l p) = stats e"
  "fmlookup (books (set_entry e l p)) l' = (if l' = l then Some p else fmlookup (books e) l')"
  "set_entry (set_entry e l p) l q = set_entry e l q"
  by (simp_all add: set_entry_def)

lemma find_book_set_entry [simp]: "find_book (set_entry e l p) l = p"
  by (simp add: find_book_def)

lemma books_hold_set:
  "books_hold e M Z \<Longrightarrow> book_holds b m \<Longrightarrow> l \<notin> Z \<Longrightarrow> books_hold (set_entry e l (Some b)) (M(l \<mapsto> m)) Z"
  by (simp add: books_hold_def)

lemma books_hold_null:
  "books_hold e M Z \<Longrightarrow> M l = None \<Longrightarrow> books_hold (set_entry e l None) M (insert l Z)"
  by (simp add: books_hold_def)

lemma counter_simps [simp]:
  "books (bump_stats f e) = books e" "limits (bump_stats f e) = limits e"
  "resting_order_count (bump_stats f e) = resting_order_count e" "stats (bump_stats f e) = f (stats e)"
  "books (count_order e) = books e" "limits (count_order e) = limits e" "stats (count_order e) = stats e"
  "resting_order_count (count_order e) = resting_order_count e + 1"
  "books (uncount_order e) = books e" "limits (uncount_order e) = limits e"
  "stats (uncount_order e) = stats e" "resting_order_count (uncount_order e) = resting_order_count e - 1"
  by (simp_all add: bump_stats_def count_order_def uncount_order_def)

lemma books_hold_books: "books e' = books e \<Longrightarrow> books_hold e' M Z = books_hold e M Z"
  by (simp add: books_hold_def)

lemma books_hold_counters [simp]:
  "books_hold (bump_stats f e) M Z = books_hold e M Z" "books_hold (count_order e) M Z = books_hold e M Z"
  "books_hold (uncount_order e) M Z = books_hold e M Z"
  by (simp_all add: books_hold_def)

text \<open>The specification of a step on one book: the result and the books after it.\<close>

definition book_at :: "markets \<Rightarrow> stock_locate \<Rightarrow> market" where
  "book_at M l = (case M l of None \<Rightarrow> empty_market | Some m \<Rightarrow> m)"

definition spec_on_book ::
  "markets \<Rightarrow> stock_locate \<Rightarrow> (market \<Rightarrow> bool \<times> market) \<Rightarrow> bool \<times> markets" where
  "spec_on_book M l f =
     (case M l of None \<Rightarrow> (False, M) | Some m \<Rightarrow> (fst (f m), M(l \<mapsto> snd (f m))))"

definition spec_create ::
  "engine_limits \<Rightarrow> stock_locate set \<Rightarrow> markets \<Rightarrow> stock_locate \<Rightarrow> (market \<Rightarrow> bool \<times> market) \<Rightarrow>
     bool \<times> markets" where
  "spec_create L Z M l f =
     (if may_create L Z M l then (fst (f (book_at M l)), M(l \<mapsto> snd (f (book_at M l)))) else (False, M))"

definition same_counters :: "engine \<Rightarrow> engine \<Rightarrow> bool" where
  "same_counters e e' \<longleftrightarrow> limits e' = limits e \<and> resting_order_count e' = resting_order_count e \<and>
     stats e' = stats e"

lemma size_at_empty [simp]: "market_size empty_market = 0"
  by (simp add: market_size_def empty_market_def)

lemma size_book_at: "market_size (book_at M l) = size_at M l"
  by (simp add: book_at_def size_at_def split: option.splits)

lemma ensure_book_sat:
  assumes "books_hold e M Z" "l \<notin> Z"
  shows "outcome_sat
    (\<lambda>_ e' k'. books_hold e' (M(l \<mapsto> book_at M l)) Z \<and> same_counters e e' \<and> k \<le> k' + 4)
    (\<lambda>e'. M l = None \<and> (e' = e \<or> books_hold e' M (insert l Z)) \<and> same_counters e e' \<and> k < 4)
    (ensure_book e l k)"
proof (cases "M l")
  case None
  with assms have "fmlookup (books e) l = None"
    by (cases "fmlookup (books e) l"; cases "the (fmlookup (books e) l)")
      (auto simp: books_hold_def dest!: spec [where x = l])
  moreover have "books_hold (set_entry e l (Some new_book)) (M(l \<mapsto> empty_market)) Z"
    by (rule books_hold_set [OF assms(1) new_book_holds assms(2)])
  ultimately show ?thesis using None books_hold_null [OF assms(1) None]
    by (simp add: ensure_book_def outcome_simps same_counters_def book_at_def)
next
  case (Some m)
  then obtain b where "fmlookup (books e) l = Some (Some b)"
    using find_book_Some [OF assms(1)] by metis
  moreover have "M(l \<mapsto> m) = M" using Some by auto
  ultimately show ?thesis using Some assms(1)
    by (simp add: ensure_book_def same_counters_def book_at_def)
qed

lemma on_book_sat:
  "outcome_sat Q E (on_book e l f k) \<longleftrightarrow>
     (\<exists>b. find_book e l = Some b \<and>
       outcome_sat (\<lambda>v b' k'. Q v (set_entry e l (Some b')) k') (\<lambda>b'. E (set_entry e l (Some b'))) (f b k))"
  by (simp add: on_book_def outcome_simps split: option.splits)

subsection \<open>The handlers\<close>

definition rejected_result :: "stock_locate \<Rightarrow> apply_result" where
  "rejected_result l = \<lparr>ar_action = Rejected, ar_stock_locate = l, ar_changed_book = False\<rparr>"

fun bump_action :: "apply_action \<Rightarrow> replay_stats \<Rightarrow> replay_stats" where
  "bump_action Ignored s = s\<lparr>st_ignored := st_ignored s + 1\<rparr>"
| "bump_action Added s = s\<lparr>st_adds := st_adds s + 1\<rparr>"
| "bump_action Executed s = s\<lparr>st_executions := st_executions s + 1\<rparr>"
| "bump_action Cancelled s = s\<lparr>st_cancels := st_cancels s + 1\<rparr>"
| "bump_action Deleted s = s\<lparr>st_deletes := st_deletes s + 1\<rparr>"
| "bump_action Replaced s = s\<lparr>st_replaces := st_replaces s + 1\<rparr>"
| "bump_action Rejected s = s\<lparr>st_rejected := st_rejected s + 1\<rparr>"

definition applied_as ::
  "engine \<Rightarrow> stock_locate set \<Rightarrow> bool \<times> markets \<Rightarrow> apply_action \<Rightarrow> stock_locate \<Rightarrow> apply_result \<Rightarrow>
     engine \<Rightarrow> bool" where
  "applied_as e Z sp act l r e' \<longleftrightarrow>
     r = (if fst sp then applied act l else rejected_result l) \<and>
     engine_holds e' (snd sp) Z \<and> limits e' = limits e \<and>
     stats e' = bump_action (if fst sp then act else Rejected) (stats e)"

text \<open>
  What an exception leaves: no order lost or added, at most an empty book or a null entry for the
  locate.
\<close>

definition thrown_as :: "engine \<Rightarrow> markets \<Rightarrow> stock_locate set \<Rightarrow> stock_locate \<Rightarrow> engine \<Rightarrow> bool" where
  "thrown_as e M Z l e' \<longleftrightarrow> limits e' = limits e \<and> stats e' = stats e \<and>
     (engine_holds e' M Z \<or>
      M l = None \<and> (engine_holds e' M (insert l Z) \<or> engine_holds e' (M(l \<mapsto> empty_market)) Z))"

definition handler_sat ::
  "engine \<Rightarrow> markets \<Rightarrow> stock_locate set \<Rightarrow> bool \<times> markets \<Rightarrow> apply_action \<Rightarrow> stock_locate \<Rightarrow> nat \<Rightarrow>
     (engine, apply_result) outcome \<Rightarrow> bool" where
  "handler_sat e M Z sp act l k res \<longleftrightarrow>
     outcome_sat (\<lambda>r e' k'. applied_as e Z sp act l r e' \<and> k \<le> k' + 13)
       (\<lambda>e'. thrown_as e M Z l e' \<and> k < 13) res"

lemma engine_holdsD:
  assumes "engine_holds e M Z"
  shows "books_hold e M Z" "unat (resting_order_count e) = total_size M" "within_limits (limits e) M Z"
  using assms by (simp_all add: engine_holds_def)

lemma reject_sat:
  assumes "engine_holds e M Z"
  shows "handler_sat e M Z (False, M) act l k (reject e l k)"
  using assms by (simp add: handler_sat_def reject_def applied_as_def engine_holds_def rejected_result_def)

text \<open>Counting an order in or out keeps the counter equal to the number of orders.\<close>

lemma count_up:
  fixes c d :: size_t
  assumes "unat c = n" "n < unat d"
  shows "unat (c + 1) = n + 1"
proof -
  have "c \<noteq> - 1" using assms word_order.extremum [of d] by (auto simp: word_le_nat_alt)
  then have "1 + c \<noteq> 0" by (metis add_eq_0_iff2 add.commute)
  from unatSuc [OF this] assms(1) show ?thesis by (simp add: add.commute)
qed

lemma count_down:
  fixes c :: size_t
  assumes "unat c = Suc n"
  shows "unat (c - 1) = n"
proof -
  have "c \<noteq> 0" using assms by auto
  then have "1 \<le> c" by (simp add: word_le_nat_alt unat_gt_0 Suc_le_eq)
  from unat_sub [OF this] assms show ?thesis by simp
qed

lemma dom_upd_card: "card (dom (M(l \<mapsto> m)) \<union> Z) \<le> (if M l = None then Suc (card (dom M \<union> Z)) else card (dom M \<union> Z))"
  for M :: markets
  by (cases "M l = None") (auto simp: card_insert_if insert_absorb domIff)

lemma create_limits:
  assumes "may_create L Z M l" "within_limits L M Z" "market_size m \<le> Suc (size_at M l)"
  shows "within_limits L (M(l \<mapsto> m)) Z"
  using assms total_size_upd [of M l m] dom_upd_card [of M l m Z]
  by (auto simp: within_limits_def may_create_def split: if_splits)

lemma update_limits:
  assumes "M l = Some m" "within_limits L M Z" "market_size m' \<le> market_size m"
  shows "within_limits L (M(l \<mapsto> m')) Z"
  using assms total_size_upd [of M l m'] dom_upd_card [of M l m' Z]
  by (auto simp: within_limits_def size_at_def)

lemma null_limits:
  assumes "may_create L Z M l" "within_limits L M Z" "M l = None"
  shows "within_limits L M (insert l Z)"
  using assms by (auto simp: within_limits_def may_create_def card_insert_if)

text \<open>The book of a locate, brought into being when it may be: the state before the add.\<close>

lemma ensured:
  assumes "engine_holds e M Z" "l \<notin> Z" "may_create (limits e) Z M l"
  shows "outcome_sat
    (\<lambda>_ e' k'. engine_holds e' (M(l \<mapsto> book_at M l)) Z \<and> same_counters e e' \<and> k \<le> k' + 4 \<and>
       (M l \<noteq> None \<longrightarrow> M(l \<mapsto> book_at M l) = M))
    (\<lambda>e'. thrown_as e M Z l e' \<and> k < 4) (ensure_book e l k)"
proof -
  note e = engine_holdsD [OF assms(1)]
  have total: "total_size (M(l \<mapsto> book_at M l)) = total_size M"
    using total_size_upd [of M l "book_at M l"] by (simp add: size_book_at)
  have limits: "within_limits (limits e) (M(l \<mapsto> book_at M l)) Z"
    using create_limits [OF assms(3) e(3), of "book_at M l"] by (simp add: size_book_at)
  show ?thesis
    by (rule outcome_sat_mono [OF ensure_book_sat [OF e(1) assms(2), of k]])
      (use e limits total null_limits [OF assms(3) e(3)] assms(1) in
        \<open>auto simp: engine_holds_def same_counters_def thrown_as_def book_at_def fun_eq_iff\<close>)
qed

lemma engine_holds_bump [simp]: "engine_holds (bump_stats f e) M Z = engine_holds e M Z"
  by (simp add: engine_holds_def)

text \<open>An order entered into the book of a locate, before it is counted.\<close>

lemma create_order_sat:
  assumes "engine_holds e M Z" "l \<notin> Z" "may_create (limits e) Z M l"
    "market_add x s p q (book_at M l) = (v, m')"
  shows "outcome_sat
    (\<lambda>w e' k'. w = v \<and> engine_holds (if v then count_order e' else e') (M(l \<mapsto> m')) Z \<and>
       limits e' = limits e \<and> stats e' = stats e \<and> k \<le> k' + 13)
    (\<lambda>e'. thrown_as e M Z l e' \<and> k < 13)
    (bind_outcome (ensure_book e l k) (\<lambda>_ e k. on_book e l (\<lambda>b. book_add b x s p q) k))"
proof -
  let ?m = "book_at M l" and ?M = "M(l \<mapsto> book_at M l)"
  have main: "outcome_sat
      (\<lambda>w e' k'. w = v \<and> engine_holds (if v then count_order e' else e') (M(l \<mapsto> m')) Z \<and>
         limits e' = limits e \<and> stats e' = stats e \<and> k \<le> k' + 13)
      (\<lambda>e'. thrown_as e M Z l e' \<and> k < 13) (on_book e1 l (\<lambda>b. book_add b x s p q) k1)"
    if e1: "engine_holds e1 ?M Z" "same_counters e e1" "k \<le> k1 + 4" "M l \<noteq> None \<longrightarrow> ?M = M" for e1 k1
  proof -
    note h = engine_holdsD [OF e1(1)]
    obtain b where b: "find_book e1 l = Some b" "book_holds b ?m"
      using find_book_Some [OF h(1), of l ?m] by auto
    have set: "books_hold (set_entry e1 l (Some b')) (M(l \<mapsto> m1)) Z" if "book_holds b' m1" for b' m1
      using books_hold_set [OF h(1) that assms(2)] by simp
    have total: "total_size (M(l \<mapsto> m')) = total_size ?M + (if v then 1 else 0)"
      if "market_size m' = market_size ?m + (if v then 1 else 0)"
      using total_size_upd [of M l m'] total_size_upd [of M l ?m] that by simp
    have up: "unat (resting_order_count e1 + 1) = Suc (total_size ?M)"
      using count_up [OF h(2), of "max_resting_orders (limits e)"] assms(3) total_size_upd [of M l ?m]
      by (simp add: may_create_def size_book_at)
    have lim: "within_limits (limits e) (M(l \<mapsto> m1)) Z" if "market_size m1 \<le> Suc (market_size ?m)" for m1
      using create_limits [OF assms(3) engine_holdsD(3) [OF assms(1)], of m1] that
      by (simp add: size_book_at)
    have thrown: "thrown_as e M Z l (set_entry e1 l (Some b'))" if "book_holds b' ?m" for b'
    proof -
      have "engine_holds (set_entry e1 l (Some b')) ?M Z"
        using set [OF that] h by (simp add: engine_holds_def)
      then show ?thesis using e1(2,4)
        by (cases "M l") (simp_all add: thrown_as_def same_counters_def book_at_def)
    qed
    have "outcome_sat
      (\<lambda>w b' k'. w = v \<and> engine_holds (if v then count_order (set_entry e1 l (Some b'))
           else set_entry e1 l (Some b')) (M(l \<mapsto> m')) Z \<and> k \<le> k' + 13)
      (\<lambda>b'. thrown_as e M Z l (set_entry e1 l (Some b')) \<and> k < 13) (book_add b x s p q k1)"
      by (rule outcome_sat_mono [OF lifecycle.add_sat [OF b(2) assms(4), of k1]])
        (use set total up h e1 lim thrown in \<open>auto simp: engine_holds_def same_counters_def\<close>)
    with b(1) e1(2) show ?thesis by (auto simp: on_book_sat same_counters_def elim!: outcome_sat_mono)
  qed
  show ?thesis
    unfolding outcome_sat_bind
    by (rule outcome_sat_mono [OF ensured [OF assms(1-3), of k]]) (use main in auto)
qed

lemma apply_add_sat:
  assumes "engine_holds e M Z" "l \<notin> Z"
  shows "handler_sat e M Z (spec_create (limits e) Z M l (market_add x s p q)) Added l k
    (apply_add e l x s p q k)"
proof (cases "may_create (limits e) Z M l")
  case False
  with can_create_order_iff engine_holdsD [OF assms(1)] reject_sat [OF assms(1)] show ?thesis
    by (simp add: apply_add_def spec_create_def)
next
  case True
  obtain v m' where add: "market_add x s p q (book_at M l) = (v, m')"
    by (cases "market_add x s p q (book_at M l)")
  have sp: "spec_create (limits e) Z M l (market_add x s p q) = (v, M(l \<mapsto> m'))"
    using True add by (simp add: spec_create_def)
  have can: "can_create_order e l"
    using True can_create_order_iff engine_holdsD [OF assms(1)] by blast
  have fin: "outcome_sat (\<lambda>r e' k'. applied_as e Z (v, M(l \<mapsto> m')) Added l r e' \<and> k \<le> k' + 13)
      (\<lambda>e'. thrown_as e M Z l e' \<and> k < 13)
      (if \<not> v then reject e1 l k1
       else Done (applied Added l) (bump_stats (\<lambda>s. s\<lparr>st_adds := st_adds s + 1\<rparr>) (count_order e1)) k1)"
    if "engine_holds (if v then count_order e1 else e1) (M(l \<mapsto> m')) Z" "limits e1 = limits e"
      "stats e1 = stats e" "k \<le> k1 + 13" for e1 k1
    using that by (auto simp: reject_def applied_as_def rejected_result_def)
  from create_order_sat [OF assms True add, of k] show ?thesis
    unfolding handler_sat_def sp apply_add_def using can
    by (auto simp: outcome_sat_bind dest!: fin elim!: outcome_sat_mono)
qed

text \<open>A handler that has changed the book of a locate, before and after it counts.\<close>

lemma book_changed:
  assumes "engine_holds e M Z" "M l = Some m" "book_holds b' m'" "market_size m' \<le> market_size m"
  shows "books_hold (set_entry e l (Some b')) (M(l \<mapsto> m')) Z" "within_limits (limits e) (M(l \<mapsto> m')) Z"
    "total_size (M(l \<mapsto> m')) + market_size m = unat (resting_order_count e) + market_size m'"
proof -
  note e = engine_holdsD [OF assms(1)]
  have "l \<notin> Z" using find_book_Some [OF e(1) assms(2)] by blast
  then show "books_hold (set_entry e l (Some b')) (M(l \<mapsto> m')) Z"
    by (rule books_hold_set [OF e(1) assms(3)])
  show "within_limits (limits e) (M(l \<mapsto> m')) Z" by (rule update_limits [OF assms(2) e(3) assms(4)])
  show "total_size (M(l \<mapsto> m')) + market_size m = unat (resting_order_count e) + market_size m'"
    using total_size_upd [of M l m'] assms(2) e(2) by (simp add: size_at_def)
qed

lemma changed_holds:
  assumes "engine_holds e M Z" "M l = Some m" "book_holds b' m'" "market_size m' = market_size m"
  shows "engine_holds (set_entry e l (Some b')) (M(l \<mapsto> m')) Z"
  using book_changed [OF assms(1-3)] assms(4) by (simp add: engine_holds_def)

lemma changed_uncounted:
  assumes "engine_holds e M Z" "M l = Some m" "book_holds b' m'" "market_size m = Suc (market_size m')"
  shows "engine_holds (uncount_order (set_entry e l (Some b'))) (M(l \<mapsto> m')) Z"
  using book_changed [OF assms(1-3)] assms(4) count_down [of "resting_order_count e" "total_size (M(l \<mapsto> m'))"]
  by (simp add: engine_holds_def)

lemma market_failed:
  "market_cancel x q m = (False, m') \<Longrightarrow> m' = m" "market_erase x m = (False, m') \<Longrightarrow> m' = m"
  "market_replace x y p q m = (False, m') \<Longrightarrow> m' = m" "market_add x s p q m = (False, m') \<Longrightarrow> m' = m"
  by (auto simp: market_cancel_def market_erase_def market_replace_def market_modify_def market_add_def
      split: option.splits if_splits)

text \<open>Every handler but the adds rejects a locate without a book.\<close>

lemma no_book_sat:
  assumes "engine_holds e M Z" "M l = None"
  shows "handler_sat e M Z (spec_on_book M l f) act l k (reject e l k)"
  using reject_sat [OF assms(1)] assms(2) by (simp add: spec_on_book_def)

lemma failed_sat:
  assumes "engine_holds e M Z" "M l = Some m" "book_holds b' m" "f m = (False, m)"
  shows "handler_sat e M Z (spec_on_book M l f) act l k (reject (set_entry e l (Some b')) l k)"
proof -
  have "M(l \<mapsto> m) = M" using assms(2) by auto
  with reject_sat [OF changed_holds [OF assms(1-3) refl], of act l k] assms(2,4) show ?thesis
    by (simp add: spec_on_book_def handler_sat_def reject_def applied_as_def thrown_as_def)
qed

lemma done_sat:
  assumes "M l = Some m" "f m = (True, m')" "engine_holds e' (M(l \<mapsto> m')) Z" "limits e' = limits e"
    "stats e' = stats e"
  shows "handler_sat e M Z (spec_on_book M l f) act l k
    (Done (applied act l) (bump_stats (bump_action act) e') k)"
  using assms by (simp add: handler_sat_def applied_as_def spec_on_book_def)

lemma handler_sat_budget:
  "handler_sat e M Z sp act l k' res \<Longrightarrow> k = k' \<Longrightarrow> handler_sat e M Z sp act l k res"
  by simp

lemma reduce_sat:
  assumes "engine_holds e M Z"
  shows "handler_sat e M Z (spec_on_book M l (market_cancel x q)) act l k
    (case find_order e l x of
       None \<Rightarrow> reject e l k
     | Some order \<Rightarrow>
         bind_outcome (on_book e l (\<lambda>b. of_option (book_execute b x q)) k) (\<lambda>executed e k.
           if \<not> executed then reject e l k
           else
             let e = (if view_quantity order = q then uncount_order e else e) in
             Done (applied act l) (bump_stats (bump_action act) e) k))"
proof (cases "M l")
  case None
  then have "find_book e l = None" using find_book_None engine_holdsD(1) [OF assms] by blast
  with no_book_sat [OF assms None] show ?thesis by (simp add: find_order_def)
next
  case (Some m)
  obtain b where b: "find_book e l = Some b" "book_holds b m"
    using find_book_Some [OF engine_holdsD(1) [OF assms] Some] .
  obtain v m' where c: "market_cancel x q m = (v, m')" by (cases "market_cancel x q m")
  obtain b' where b': "book_execute b x q = Some (v, b')" "book_holds b' m'"
    "market_size m = market_size m' + (if v \<and> map_option view_quantity (book_order b x) = Some q then 1 else 0)"
    using lifecycle.execute_sat [OF b(2) c] by blast
  have run: "on_book e l (\<lambda>b. of_option (book_execute b x q)) k = Done v (set_entry e l (Some b')) k"
    using b(1) b'(1) by (simp add: on_book_def of_option_def)
  show ?thesis
  proof (cases "book_order b x")
    case None
    then have "resting m x = None" using book_order_correct [OF b(2), of x] by simp
    then have "market_cancel x q m = (False, m)" by (simp add: market_cancel_def)
    moreover have "M(l \<mapsto> m) = M" using Some by auto
    ultimately show ?thesis using None b(1) Some reject_sat [OF assms, of act l k]
      by (simp add: find_order_def spec_on_book_def)
  next
    case order: (Some w)
    show ?thesis
    proof (cases v)
      case False
      with c have "m' = m" using market_failed(1) [of x q m m'] by simp
      with failed_sat [OF assms Some _ , of b' "market_cancel x q"] c False b'(2) order b(1) run
      show ?thesis by (simp add: find_order_def)
    next
      case True
      with c have c': "market_cancel x q m = (True, m')" by simp
      note fin = done_sat [where f = "market_cancel x q" and M = M and l = l, OF Some c']
      show ?thesis
      proof (cases "view_quantity w = q")
        case eq: True
        with b'(3) True order have "market_size m = Suc (market_size m')" by simp
        from fin [OF changed_uncounted [OF assms Some b'(2) this]] eq True order b(1) run
        show ?thesis by (simp add: find_order_def)
      next
        case ne: False
        with b'(3) True order have "market_size m' = market_size m" by simp
        from fin [OF changed_holds [OF assms Some b'(2) this]] ne True order b(1) run
        show ?thesis by (simp add: find_order_def)
      qed
    qed
  qed
qed

lemma bump_action_eq:
  "bump_action Executed = (\<lambda>s. s\<lparr>st_executions := st_executions s + 1\<rparr>)"
  "bump_action Cancelled = (\<lambda>s. s\<lparr>st_cancels := st_cancels s + 1\<rparr>)"
  "bump_action Deleted = (\<lambda>s. s\<lparr>st_deletes := st_deletes s + 1\<rparr>)"
  "bump_action Replaced = (\<lambda>s. s\<lparr>st_replaces := st_replaces s + 1\<rparr>)"
  "bump_action Ignored = (\<lambda>s. s\<lparr>st_ignored := st_ignored s + 1\<rparr>)"
  by (simp_all add: fun_eq_iff)

lemma apply_executed_sat:
  "engine_holds e M Z \<Longrightarrow>
     handler_sat e M Z (spec_on_book M l (market_cancel x q)) Executed l k (apply_executed e l x q k)"
  unfolding apply_executed_def bump_action_eq [symmetric] by (rule reduce_sat)

lemma apply_cancel_sat:
  "engine_holds e M Z \<Longrightarrow>
     handler_sat e M Z (spec_on_book M l (market_cancel x q)) Cancelled l k (apply_cancel e l x q k)"
  unfolding apply_cancel_def bump_action_eq [symmetric] book_execute_def [symmetric] by (rule reduce_sat)

lemma apply_delete_sat:
  assumes "engine_holds e M Z"
  shows "handler_sat e M Z (spec_on_book M l (market_erase x)) Deleted l k (apply_delete e l x k)"
proof (cases "M l")
  case None
  then have "find_book e l = None" using find_book_None engine_holdsD(1) [OF assms] by blast
  with no_book_sat [OF assms None] show ?thesis by (simp add: apply_delete_def)
next
  case (Some m)
  obtain b where b: "find_book e l = Some b" "book_holds b m"
    using find_book_Some [OF engine_holdsD(1) [OF assms] Some] .
  obtain v m' where c: "market_erase x m = (v, m')" by (cases "market_erase x m")
  obtain b' where b': "book_erase b x = Some (v, b')" "book_holds b' m'"
    "market_size m = market_size m' + (if v then 1 else 0)"
    using lifecycle.erase_sat [OF b(2) c] by blast
  have run: "on_book e l (\<lambda>b. of_option (book_erase b x)) k = Done v (set_entry e l (Some b')) k"
    using b(1) b'(1) by (simp add: on_book_def of_option_def)
  show ?thesis
  proof (cases v)
    case False
    with c have "m' = m" using market_failed(2) [of x m m'] by simp
    with failed_sat [OF assms Some, of b' "market_erase x"] c False b'(2) b(1) run
    show ?thesis by (simp add: apply_delete_def)
  next
    case True
    with b'(3) have "market_size m = Suc (market_size m')" by simp
    note holds = changed_uncounted [OF assms Some b'(2) this]
    from True c have "market_erase x m = (True, m')" by simp
    from done_sat [where f = "market_erase x" and e = e and act = Deleted and k = k, OF Some this holds]
    show ?thesis unfolding apply_delete_def bump_action_eq [symmetric] using b(1) run True by simp
  qed
qed

lemma apply_replace_sat:
  assumes "engine_holds e M Z"
  shows "handler_sat e M Z (spec_on_book M l (market_replace x y p q)) Replaced l k
    (apply_replace e l x y p q k)"
proof (cases "M l")
  case None
  then have "find_book e l = None" using find_book_None engine_holdsD(1) [OF assms] by blast
  with no_book_sat [OF assms None] show ?thesis by (simp add: apply_replace_def)
next
  case (Some m)
  obtain b where b: "find_book e l = Some b" "book_holds b m"
    using find_book_Some [OF engine_holdsD(1) [OF assms] Some] .
  obtain v m' where c: "market_replace x y p q m = (v, m')" by (cases "market_replace x y p q m")
  have same: "M(l \<mapsto> m) = M" using Some by auto
  have "spec_on_book M l (market_replace x y p q) = (v, M(l \<mapsto> m'))"
    using Some c by (simp add: spec_on_book_def)
  then show ?thesis
    unfolding handler_sat_def apply_replace_def b(1) option.case outcome_sat_bind on_book_sat
    apply (intro exI [of _ b] conjI refl)
    apply (rule outcome_sat_mono [OF lifecycle.replace_sat [OF b(2) c, of k]])
    subgoal for w b' k'
      using changed_holds [OF assms Some, of b' m']
      by (auto simp: reject_def applied_as_def rejected_result_def)
    subgoal for b'
      using changed_holds [OF assms Some, of b' m] same by (simp add: thrown_as_def)
    done
qed

subsection \<open>An event\<close>

text \<open>The locate of an event and the operation it asks of that locate's book, if any.\<close>

fun event_locate :: "itch_event \<Rightarrow> stock_locate" where
  "event_locate (SystemEvent m) = mh_stock_locate (se_header m)"
| "event_locate (StockDirectory m) = mh_stock_locate (sd_header m)"
| "event_locate (TradingAction m) = mh_stock_locate (ta_header m)"
| "event_locate (AddOrder m) = mh_stock_locate (ao_header m)"
| "event_locate (AddAttributedOrder m) = mh_stock_locate (aa_header m)"
| "event_locate (OrderExecuted m) = mh_stock_locate (oe_header m)"
| "event_locate (OrderExecutedWithPrice m) = mh_stock_locate (op_header m)"
| "event_locate (OrderCancel m) = mh_stock_locate (oc_header m)"
| "event_locate (OrderDelete m) = mh_stock_locate (od_header m)"
| "event_locate (OrderReplace m) = mh_stock_locate (or_header m)"
| "event_locate (Trade m) = mh_stock_locate (tr_header m)"
| "event_locate (CrossTrade m) = mh_stock_locate (ct_header m)"
| "event_locate (BrokenTrade m) = mh_stock_locate (bt_header m)"
| "event_locate (NetOrderImbalance m) = mh_stock_locate (ni_header m)"
| "event_locate (SkippedMessage m) = (case sk_header m of None \<Rightarrow> 0 | Some h \<Rightarrow> mh_stock_locate h)"

fun feed_op :: "itch_event \<Rightarrow> (apply_action \<times> book_op) option" where
  "feed_op (AddOrder m) =
     Some (Added, Op_Add (ao_order_reference m) (ao_side m) (ao_price m) (ao_shares m))"
| "feed_op (AddAttributedOrder m) =
     Some (Added, Op_Add (aa_order_reference m) (aa_side m) (aa_price m) (aa_shares m))"
| "feed_op (OrderExecuted m) = Some (Executed, Op_Execute (oe_order_reference m) (oe_executed_shares m))"
| "feed_op (OrderExecutedWithPrice m) =
     Some (Executed, Op_Execute (op_order_reference m) (op_executed_shares m))"
| "feed_op (OrderCancel m) = Some (Cancelled, Op_Cancel (oc_order_reference m) (oc_canceled_shares m))"
| "feed_op (OrderDelete m) = Some (Deleted, Op_Erase (od_order_reference m))"
| "feed_op (OrderReplace m) =
     Some (Replaced, Op_Replace (or_original_order_reference m) (or_new_order_reference m)
       (or_price m) (or_shares m))"
| "feed_op _ = None"

definition spec_apply ::
  "engine_limits \<Rightarrow> stock_locate set \<Rightarrow> markets \<Rightarrow> itch_event \<Rightarrow> apply_action \<times> markets" where
  "spec_apply L Z M ev =
     (case feed_op ev of
        None \<Rightarrow> (Ignored, M)
      | Some (act, op) \<Rightarrow>
          let sp = (if act = Added then spec_create L Z M (event_locate ev) (market_step op)
                    else spec_on_book M (event_locate ev) (market_step op)) in
          (if fst sp then act else Rejected, snd sp))"

definition result_of :: "apply_action \<Rightarrow> stock_locate \<Rightarrow> apply_result" where
  "result_of act l = \<lparr>ar_action = act, ar_stock_locate = l,
     ar_changed_book = (act \<noteq> Ignored \<and> act \<noteq> Rejected)\<rparr>"

definition bump_messages :: "replay_stats \<Rightarrow> replay_stats" where
  "bump_messages s = s\<lparr>st_messages := st_messages s + 1\<rparr>"

lemma market_step_eqs:
  "market_step (Op_Add x s p q) = market_add x s p q" "market_step (Op_Execute x q) = market_cancel x q"
  "market_step (Op_Cancel x q) = market_cancel x q" "market_step (Op_Erase x) = market_erase x"
  "market_step (Op_Replace x y p q) = market_replace x y p q"
  by (simp_all add: market_step_def fun_eq_iff)

lemma visit_sat:
  assumes "engine_holds e M Z" "event_locate ev \<notin> Z"
  shows "outcome_sat
    (\<lambda>r e' k'. r = result_of (fst (spec_apply (limits e) Z M ev)) (event_locate ev) \<and>
       engine_holds e' (snd (spec_apply (limits e) Z M ev)) Z \<and> limits e' = limits e \<and>
       stats e' = bump_action (fst (spec_apply (limits e) Z M ev)) (stats e) \<and> k \<le> k' + 13)
    (\<lambda>e'. thrown_as e M Z (event_locate ev) e' \<and> k < 13) (visit e ev k)"
proof (cases "feed_op ev")
  case None
  with assms(1) show ?thesis
    by (cases ev; simp add: visit_def apply_ignored_def spec_apply_def ignored_result_def result_of_def
        split: option.splits)
next
  case (Some ao)
  let ?l = "event_locate ev"
  obtain act op where ao: "ao = (act, op)" by (cases ao)
  let ?sp = "if act = Added then spec_create (limits e) Z M ?l (market_step op)
    else spec_on_book M ?l (market_step op)"
  have "handler_sat e M Z ?sp act ?l k (visit e ev k) \<and> act \<noteq> Ignored \<and> act \<noteq> Rejected"
    using Some ao assms apply_add_sat [OF assms(1), of ?l] apply_executed_sat [OF assms(1)]
      apply_cancel_sat [OF assms(1)] apply_delete_sat [OF assms(1)] apply_replace_sat [OF assms(1)]
    by (cases ev) (auto simp: visit_def market_step_eqs)
  then show ?thesis
    using Some ao unfolding handler_sat_def
    by (auto simp: spec_apply_def applied_as_def applied_def rejected_result_def result_of_def Let_def
        elim!: outcome_sat_mono)
qed

text \<open>An event does what its specification says, or throws and leaves the orders as they are.\<close>

lemma engine_apply_sat:
  assumes "engine_holds e M Z" "event_locate ev \<notin> Z"
  shows "outcome_sat
    (\<lambda>r e' k'. r = result_of (fst (spec_apply (limits e) Z M ev)) (event_locate ev) \<and>
       engine_holds e' (snd (spec_apply (limits e) Z M ev)) Z \<and> limits e' = limits e \<and>
       stats e' = bump_action (fst (spec_apply (limits e) Z M ev)) (bump_messages (stats e)) \<and>
       k \<le> k' + 13)
    (\<lambda>e'. thrown_as (bump_stats bump_messages e) M Z (event_locate ev) e' \<and> k < 13)
    (engine_apply e ev k)"
proof -
  have "(\<lambda>s. s\<lparr>st_messages := st_messages s + 1\<rparr>) = bump_messages"
    by (simp add: fun_eq_iff bump_messages_def)
  then show ?thesis
    using visit_sat [of "bump_stats bump_messages e" M Z ev k] assms by (simp add: engine_apply_def)
qed

end
