(* ===== verification/Engine_Matching.thy ===== *)
theory Engine_Matching
  imports Engine_Refinement
begin

section \<open>Matching fills by price-time priority\<close>

text \<open>
  The specification of matching: the fills of an incoming quantity, read off the list of the
  opposite side's orders in priority; and the proof, over the interface \<open>limit_book\<close>, that the
  loop of \<^verbatim>\<open>match\<close> returns and computes it.
\<close>

subsection \<open>The specification\<close>

text \<open>The orders filled, each with the quantity it is filled by.\<close>

fun steps_of :: "side \<Rightarrow> (order_id \<times> price \<times> quantity) list \<Rightarrow> quantity \<Rightarrow> (order_view \<times> quantity) list" where
  "steps_of s [] q = []"
| "steps_of s ((x, p, r) # L) q =
     (if q = 0 then []
      else if q < r
      then [(\<lparr>view_id = x, view_side = s, view_price = p, view_quantity = r\<rparr>, q)]
      else (\<lparr>view_id = x, view_side = s, view_price = p, view_quantity = r\<rparr>, r) # steps_of s L (q - r))"

definition eligible ::
  "side \<Rightarrow> price \<Rightarrow> bool \<Rightarrow> (order_id \<times> price \<times> quantity) list \<Rightarrow> (order_id \<times> price \<times> quantity) list" where
  "eligible side limit_price has_limit L =
     takeWhile (\<lambda>(x, p, r). has_limit \<longrightarrow> crosses side limit_price p) L"

definition match_steps :: "side \<Rightarrow> price \<Rightarrow> bool \<Rightarrow> market \<Rightarrow> quantity \<Rightarrow> (order_view \<times> quantity) list" where
  "match_steps side limit_price has_limit m q =
     steps_of (opposite side) (eligible side limit_price has_limit (priority (opposite side) m)) q"

definition fill_of :: "order_view \<times> quantity \<Rightarrow> fill" where
  "fill_of s = \<lparr>fill_resting_order = view_id (fst s), fill_price = view_price (fst s),
     fill_quantity = snd s\<rparr>"

definition record_step :: "order_view \<times> quantity \<Rightarrow> match_state \<Rightarrow> match_state" where
  "record_step s = record_fill (fst s) (view_price (fst s)) (snd s)"

definition market_fill :: "order_view \<times> quantity \<Rightarrow> market \<Rightarrow> market" where
  "market_fill s m = snd (market_cancel (view_id (fst s)) (snd s) m)"

subsection \<open>The loop computes it\<close>

lemma opposite_best_eq: "opposite_best side b = best_price (opposite side) b"
  by (cases side) (simp_all add: opposite_best_def best_price_def)

lemma record_fill_book [simp]:
  "record_fill v p q (st\<lparr>ms_book := b\<rparr>) = (record_fill v p q st)\<lparr>ms_book := b\<rparr>"
  "ms_book (record_fill v p q st) = ms_book st"
  "ms_remaining (record_fill v p q st) = ms_remaining st - q"
  by (simp_all add: record_fill_def Let_def)

lemma fold_record_book: "fold record_step ss (st\<lparr>ms_book := b\<rparr>) = (fold record_step ss st)\<lparr>ms_book := b\<rparr>"
  by (induction ss arbitrary: st) (simp_all add: record_step_def)

lemma match_loop_zero [simp]: "ms_remaining st = 0 \<Longrightarrow> match_loop side limit_price has_limit st = Some st"
  by (subst match_loop.simps) simp

lemma steps_of_zero [simp]: "steps_of s L 0 = []"
  by (cases L) auto

lemma match_step_done:
  assumes "book_holds (ms_book st) m"
    "eligible side limit_price has_limit (priority (opposite side) m) = []"
  shows "match_step side limit_price has_limit st = Some (st, False)"
proof (cases "priority (opposite side) m")
  case Nil
  with matching.no_best [OF assms(1)] show ?thesis by (simp add: match_step_def opposite_best_eq)
next
  case (Cons a L)
  then obtain x p r where "priority (opposite side) m = (x, p, r) # L" by (cases a) auto
  with assms(2) matching.front_of_best(1) [OF assms(1) this] show ?thesis
    by (simp add: match_step_def opposite_best_eq eligible_def split: if_splits)
qed

lemma match_step_fill:
  assumes "book_holds (ms_book st) m" "priority (opposite side) m = (x, p, r) # L"
    "has_limit \<longrightarrow> crosses side limit_price p"
    "q = (if ms_remaining st < r then ms_remaining st else r)"
    "v = \<lparr>view_id = x, view_side = opposite side, view_price = p, view_quantity = r\<rparr>"
    "book_execute (ms_book st) x q = Some (True, b)"
  shows "match_step side limit_price has_limit st =
    Some ((record_step (v, q) st)\<lparr>ms_book := b\<rparr>, True)"
  using matching.front_of_best [OF assms(1,2)] assms(3-6)
  by (auto simp: match_step_def opposite_best_eq record_step_def Let_def)

text \<open>
  What the loop leaves: a book that holds the filled abstract book, as many orders fewer as were
  filled whole, and, when quantity remains, no order left that it could be filled with.
\<close>

definition filled_whole :: "(order_view \<times> quantity) list \<Rightarrow> nat" where
  "filled_whole ss = length (filter (\<lambda>s. snd s = view_quantity (fst s)) ss)"

definition match_result_ok ::
  "side \<Rightarrow> price \<Rightarrow> bool \<Rightarrow> market \<Rightarrow> quantity \<Rightarrow> order_book \<Rightarrow> bool" where
  "match_result_ok side limit_price has_limit m q b' \<longleftrightarrow>
     (let ss = match_steps side limit_price has_limit m q; m' = fold market_fill ss m in
      book_holds b' m' \<and> market_size m' + filled_whole ss = market_size m \<and>
      (q - (\<Sum>s\<leftarrow>ss. snd s) \<noteq> 0 \<longrightarrow>
        eligible side limit_price has_limit (priority (opposite side) m') = []))"

lemma no_steps_ok:
  assumes "book_holds b m" "match_steps side limit_price has_limit m q = []"
    "q = 0 \<or> eligible side limit_price has_limit (priority (opposite side) m) = []"
  shows "match_result_ok side limit_price has_limit m q b"
  using assms by (auto simp: match_result_ok_def filled_whole_def)

lemma match_loop_correct:
  assumes "book_holds (ms_book st) m" "L = priority (opposite side) m"
  shows "\<exists>b'. match_loop side limit_price has_limit st =
      Some ((fold record_step (match_steps side limit_price has_limit m (ms_remaining st)) st)
        \<lparr>ms_book := b'\<rparr>) \<and>
    match_result_ok side limit_price has_limit m (ms_remaining st) b'"
  using assms
proof (induction L arbitrary: st m)
  case Nil
  then have pri: "priority (opposite side) m = []" by simp
  then have "eligible side limit_price has_limit (priority (opposite side) m) = []"
    by (simp add: eligible_def)
  from match_step_done [OF Nil(1) this]
  have "match_step side limit_price has_limit st = Some (st, False)" .
  with Nil(1) pri show ?case
    by (subst match_loop.simps)
      (auto simp: match_steps_def eligible_def intro!: exI [of _ "ms_book st"] no_steps_ok)
next
  case (Cons a L)
  obtain x p r where a: "a = (x, p, r)" by (cases a)
  then have pri: "priority (opposite side) m = (x, p, r) # L" using Cons.prems(2) by simp
  let ?v = "\<lparr>view_id = x, view_side = opposite side, view_price = p, view_quantity = r\<rparr>"
  let ?q = "ms_remaining st"
  note inv = book_stateD(1) [OF Cons.prems(1)]
  note front = priority_Cons [OF inv pri]
  have r: "r \<noteq> 0" using market_inv_D(3) [OF inv front(4)] by simp
  show ?case
  proof (cases "?q = 0")
    case True
    with Cons.prems show ?thesis
      by (auto simp: match_steps_def intro!: exI [of _ "ms_book st"] no_steps_ok)
  next
    case q: False
    show ?thesis
    proof (cases "has_limit \<longrightarrow> crosses side limit_price p")
      case False
      then have "eligible side limit_price has_limit (priority (opposite side) m) = []"
        by (simp add: eligible_def pri)
      with match_step_done [OF Cons.prems(1) this] Cons.prems(1) q show ?thesis
        by (subst match_loop.simps)
          (auto simp: match_steps_def intro!: exI [of _ "ms_book st"] no_steps_ok)
    next
      case eligible: True
      show ?thesis
      proof (cases "?q < r")
        case True
        obtain b' where b': "book_execute (ms_book st) x ?q = Some (True, b')"
          "book_holds b' (resize_order x (r - ?q) m)"
          using matching.fill_part [OF Cons.prems(1) pri q True] by blast
        have steps: "match_steps side limit_price has_limit m ?q = [(?v, ?q)]"
          using True q eligible by (simp add: match_steps_def pri eligible_def)
        have "market_fill (?v, ?q) m = resize_order x (r - ?q) m"
          using True q front(4) by (auto simp: market_fill_def market_cancel_def)
        then have "match_result_ok side limit_price has_limit m ?q b'"
          using b'(2) True by (auto simp: match_result_ok_def steps filled_whole_def market_size_simps(3))
        with b' q steps match_step_fill [OF Cons.prems(1) pri eligible, of ?q ?v b'] True show ?thesis
          by (subst match_loop.simps) (auto simp: record_step_def)
      next
        case False
        obtain b' where b': "book_execute (ms_book st) x r = Some (True, b')"
          "book_holds b' (remove_order x m)" "priority (opposite side) (remove_order x m) = L"
          "Suc (market_size (remove_order x m)) = market_size m"
          using matching.fill_whole [OF Cons.prems(1) pri] by blast
        let ?st = "(record_step (?v, r) st)\<lparr>ms_book := b'\<rparr>"
        have steps: "match_steps side limit_price has_limit m ?q =
          (?v, r) # match_steps side limit_price has_limit (remove_order x m) (?q - r)"
          using False q eligible by (simp add: match_steps_def pri eligible_def b'(3))
        have fill: "market_fill (?v, r) m = remove_order x m"
          using r front(4) by (simp add: market_fill_def market_cancel_def)
        have step: "match_step side limit_price has_limit st = Some (?st, True)"
          using match_step_fill [OF Cons.prems(1) pri eligible, of r ?v b'] False b'(1) by simp
        have loop: "match_loop side limit_price has_limit st = match_loop side limit_price has_limit ?st"
          using step q by (subst match_loop.simps) simp
        have "ms_remaining ?st = ?q - r" by (simp add: record_step_def)
        with Cons.IH [of ?st "remove_order x m"] b'(2,3)
        obtain b2 where b2: "match_loop side limit_price has_limit ?st = Some
            ((fold record_step (match_steps side limit_price has_limit (remove_order x m) (?q - r)) ?st)
              \<lparr>ms_book := b2\<rparr>)"
          "match_result_ok side limit_price has_limit (remove_order x m) (?q - r) b2"
          by auto
        have "match_result_ok side limit_price has_limit m ?q b2"
          using b2(2) b'(4) by (simp add: match_result_ok_def Let_def steps fill filled_whole_def
              diff_diff_eq)
        with b2(1) show ?thesis unfolding loop steps
          by (intro exI [of _ b2]) (simp add: fold_record_book)
      qed
    qed
  qed
qed

subsection \<open>What the fills add up to\<close>

fun write_from :: "nat \<Rightarrow> fill list \<Rightarrow> fill list \<Rightarrow> fill list" where
  "write_from i [] out = out"
| "write_from i (f # fs) out =
     write_from (Suc i) fs (if i < length out then out[i := f] else out)"

lemma write_from_eq:
  "i \<le> length out \<Longrightarrow>
     write_from i fs out = take i out @ take (length out - i) fs @ drop (i + length fs) out"
proof (induction fs arbitrary: i out)
  case (Cons f fs)
  show ?case
  proof (cases "i < length out")
    case True
    then have "take (Suc i) (out[i := f]) = take i out @ [f]"
      by (simp add: take_Suc_conv_app_nth)
    moreover have "length out - i = Suc (length out - Suc i)" using True by simp
    ultimately show ?thesis using Cons.IH [of "Suc i" "out[i := f]"] True by simp
  next
    case False
    with Cons.prems have "i = length out" by simp
    moreover have "write_from j gs out = out" if "length out \<le> j" for j gs and out :: "fill list"
      using that by (induction gs arbitrary: j) simp_all
    ultimately show ?thesis by simp
  qed
qed simp

text \<open>The variables of the loop after a list of fills, while its counter does not wrap.\<close>

lemma fold_record_counts:
  "ms_remaining (fold record_step ss st) = ms_remaining st - (\<Sum>s\<leftarrow>ss. snd s)"
  "mr_filled (ms_result (fold record_step ss st)) = mr_filled (ms_result st) + (\<Sum>s\<leftarrow>ss. snd s)"
  "mr_fill_count (ms_result (fold record_step ss st)) =
     mr_fill_count (ms_result st) + of_nat (length ss)"
  "mr_resting (ms_result (fold record_step ss st)) = mr_resting (ms_result st)"
  "mr_unfilled (ms_result (fold record_step ss st)) = mr_unfilled (ms_result st)"
  "mr_accepted (ms_result (fold record_step ss st)) = mr_accepted (ms_result st)"
  "ms_count (fold record_step ss st) =
     ms_count st - of_nat (length (filter (\<lambda>s. snd s = view_quantity (fst s)) ss))"
  by (induction ss arbitrary: st) (simp_all add: record_step_def record_fill_def Let_def)

lemma fold_record_output:
  assumes "mr_fill_count (ms_result st) = of_nat i" "i + length ss < 2 ^ 64"
  shows "ms_output (fold record_step ss st) = write_from i (map fill_of ss) (ms_output st) \<and>
    mr_fills_truncated (ms_result (fold record_step ss st)) =
      (mr_fills_truncated (ms_result st) \<or> ss \<noteq> [] \<and> length (ms_output st) < i + length ss)"
  using assms
proof (induction ss arbitrary: i st)
  case (Cons a ss)
  have i: "unat (of_nat i :: size_t) = i"
    using Cons.prems(2) by (simp add: unsigned_of_nat take_bit_nat_eq_self)
  have count: "mr_fill_count (ms_result (record_step a st)) = of_nat (Suc i)"
    using Cons.prems(1) by (simp add: record_step_def record_fill_def Let_def add.commute)
  have "ms_output (record_step a st) = (if i < length (ms_output st)
      then (ms_output st)[i := fill_of a] else ms_output st)"
    "mr_fills_truncated (ms_result (record_step a st)) \<longleftrightarrow>
      mr_fills_truncated (ms_result st) \<or> length (ms_output st) \<le> i"
    using Cons.prems(1) i by (auto simp: record_step_def record_fill_def fill_of_def Let_def)
  with Cons.IH [OF count] Cons.prems(2) show ?case by (cases "ss = []") auto
qed simp

text \<open>No step fills more than what remains, so that the sum of the fills does not wrap.\<close>

lemma steps_of_sum:
  "(\<Sum>s\<leftarrow>steps_of sd L q. unat (snd s)) \<le> unat q"
proof (induction sd L q rule: steps_of.induct)
  case (2 s x p r L q)
  then show ?case by (auto simp: not_less unat_sub word_le_nat_alt)
qed simp

lemma sum_list_unat:
  "(\<Sum>s\<leftarrow>ss. unat (snd s)) < 2 ^ 32 \<Longrightarrow> unat (\<Sum>s\<leftarrow>ss. snd s) = (\<Sum>s\<leftarrow>ss. unat (snd s))"
  for ss :: "(order_view \<times> quantity) list"
proof (induction ss)
  case (Cons a ss)
  then show ?case by (simp add: unat_word_ariths)
qed simp

lemma steps_of_length: "length (steps_of s L q) \<le> length L"
  by (induction s L q rule: steps_of.induct) simp_all

subsection \<open>Matching in the engine\<close>

lemma priority_length: "market_inv m \<Longrightarrow> length (priority s m) \<le> market_size m"
proof (induction "length (priority s m)" arbitrary: m)
  case (Suc n)
  then obtain x p r L where L: "priority s m = (x, p, r) # L"
    by (metis length_Suc_conv prod_cases3)
  note front = priority_Cons [OF Suc.prems L]
  have "n = length (priority s (remove_order x m))" using Suc.hyps(2) L front(2) by simp
  from Suc.hyps(1) [OF this remove_order_inv [OF Suc.prems]]
  have "length (priority s (remove_order x m)) \<le> market_size (remove_order x m)" .
  with L front(2) market_size_simps(1) [of m x] front(4) show ?case by simp
qed simp

lemma match_steps_length:
  assumes "market_inv m"
  shows "length (match_steps side limit_price has_limit m q) \<le> market_size m"
proof -
  have "length (match_steps side limit_price has_limit m q) \<le> length (priority (opposite side) m)"
    unfolding match_steps_def eligible_def
    by (rule order_trans [OF steps_of_length length_takeWhile_le])
  with priority_length [OF assms] show ?thesis by (meson order_trans)
qed

text \<open>The result of matching a quantity against a book, and the caller's span after it.\<close>

definition matched_result :: "(order_view \<times> quantity) list \<Rightarrow> quantity \<Rightarrow> nat \<Rightarrow> match_result" where
  "matched_result ss q room =
     \<lparr>mr_filled = (\<Sum>s\<leftarrow>ss. snd s), mr_resting = q - (\<Sum>s\<leftarrow>ss. snd s), mr_unfilled = 0,
      mr_fill_count = of_nat (length ss), mr_fills_truncated = (room < length ss), mr_accepted = True\<rparr>"

definition matched_output :: "(order_view \<times> quantity) list \<Rightarrow> fill list \<Rightarrow> fill list" where
  "matched_output ss out = take (length out) (map fill_of ss) @ drop (length ss) out"

definition engine_steps ::
  "markets \<Rightarrow> stock_locate \<Rightarrow> side \<Rightarrow> price \<Rightarrow> bool \<Rightarrow> quantity \<Rightarrow> (order_view \<times> quantity) list" where
  "engine_steps M l side limit_price has_limit q =
     match_steps side limit_price has_limit (book_at M l) q"

definition fill_book :: "(order_view \<times> quantity) list \<Rightarrow> stock_locate \<Rightarrow> markets \<Rightarrow> markets" where
  "fill_book ss l M = (case M l of None \<Rightarrow> M | Some m \<Rightarrow> M(l \<mapsto> fold market_fill ss m))"

lemma no_steps_empty [simp]: "match_steps side limit_price has_limit empty_market q = []"
proof -
  have "active_prices s empty_market = {}" for s by (simp add: active_prices_def empty_market_def)
  then have "priority s empty_market = []" for s by (simp add: priority_Nil_iff)
  then show ?thesis by (simp add: match_steps_def eligible_def)
qed

lemma whole_le: "filled_whole ss \<le> length ss"
  by (simp add: filled_whole_def)

lemma market_size_lt: "engine_holds e M Z \<Longrightarrow> M l = Some m \<Longrightarrow> market_size m < 2 ^ 64"
proof -
  assume a: "engine_holds e M Z" "M l = Some m"
  have "size_at M l \<le> total_size M" unfolding total_size_def by (rule member_le_sum) auto
  also have "\<dots> = unat (resting_order_count e)" using engine_holdsD(2) [OF a(1)] by simp
  also have "\<dots> < 2 ^ 64" using unsigned_less [of "resting_order_count e", where 'a = nat] by simp
  finally show ?thesis using a(2) by (simp add: size_at_def)
qed

lemma count_minus: "unat c = n + j \<Longrightarrow> unat (c - of_nat j) = n" for c :: size_t
proof -
  assume c: "unat c = n + j"
  then have "j < 2 ^ 64" using unsigned_less [of c, where 'a = nat] by simp
  then have j: "unat (of_nat j :: size_t) = j" by (simp add: unsigned_of_nat take_bit_nat_eq_self)
  then have "of_nat j \<le> c" using c by (simp add: word_le_nat_alt)
  from unat_sub [OF this] c j show ?thesis by simp
qed

lemma match_orders_sat:
  assumes "engine_holds e M Z" "ss = engine_steps M l side limit_price has_limit q"
  shows "\<exists>e'. match_orders e l side limit_price q has_limit out =
      Some (matched_result ss q (length out), e', matched_output ss out) \<and>
    engine_holds e' (fill_book ss l M) Z \<and> limits e' = limits e \<and> stats e' = stats e"
proof (cases "M l")
  case None
  then have "ss = []" using assms(2) by (simp add: engine_steps_def book_at_def)
  with None assms(1) find_book_None [OF engine_holdsD(1) [OF assms(1)], of l] show ?thesis
    by (simp add: match_orders_def matched_result_def matched_output_def fill_book_def new_result_def)
next
  case (Some m)
  have ss: "ss = match_steps side limit_price has_limit m q"
    using Some assms(2) by (simp add: engine_steps_def book_at_def)
  obtain b where b: "find_book e l = Some b" "book_holds b m"
    using find_book_Some [OF engine_holdsD(1) [OF assms(1)] Some] .
  let ?st = "\<lparr>ms_book = b, ms_remaining = q, ms_result = new_result, ms_output = out,
    ms_count = resting_order_count e\<rparr>"
  obtain b' where loop: "match_loop side limit_price has_limit ?st =
      Some ((fold record_step ss ?st)\<lparr>ms_book := b'\<rparr>)"
    "match_result_ok side limit_price has_limit m q b'"
    using match_loop_correct [of ?st m, OF _ refl, of side limit_price has_limit] b(2)
    unfolding ss by simp blast
  let ?m = "fold market_fill ss m"
  have ok: "book_holds b' ?m" "market_size ?m + filled_whole ss = market_size m"
    using loop(2) by (simp_all add: match_result_ok_def ss Let_def)
  have "length ss < 2 ^ 64"
    unfolding ss
    by (rule le_less_trans [OF match_steps_length [OF book_stateD(1) [OF b(2)]]
          market_size_lt [OF assms(1) Some]])
  then have out: "ms_output (fold record_step ss ?st) = matched_output ss out"
    "mr_fills_truncated (ms_result (fold record_step ss ?st)) \<longleftrightarrow> length out < length ss"
    using fold_record_output [of ?st 0 ss]
    by (auto simp: new_result_def matched_output_def write_from_eq)
  let ?e = "(set_entry e l (Some b'))\<lparr>resting_order_count :=
    resting_order_count e - of_nat (filled_whole ss)\<rparr>"
  have result: "(ms_result (fold record_step ss ?st))\<lparr>mr_resting := ms_remaining (fold record_step ss ?st)\<rparr> =
    matched_result ss q (length out)"
    using out(2) by (simp add: matched_result_def fold_record_counts new_result_def)
  have changed: "books_hold (set_entry e l (Some b')) (M(l \<mapsto> ?m)) Z"
    "within_limits (limits e) (M(l \<mapsto> ?m)) Z"
    "total_size (M(l \<mapsto> ?m)) + market_size m = unat (resting_order_count e) + market_size ?m"
    using book_changed [OF assms(1) Some ok(1)] ok(2) by simp_all
  then have "unat (resting_order_count e) = total_size (M(l \<mapsto> ?m)) + filled_whole ss"
    using ok(2) by simp
  from count_minus [OF this] changed have "engine_holds ?e (fill_book ss l M) Z"
    using Some by (simp add: engine_holds_def fill_book_def books_hold_def)
  moreover have "match_orders e l side limit_price q has_limit out =
    Some (matched_result ss q (length out), ?e, matched_output ss out)"
    using b(1) loop(1) result out(1)
    by (simp add: match_orders_def fold_record_counts filled_whole_def)
  ultimately show ?thesis by (intro exI [of _ ?e]) simp
qed

subsection \<open>Submitted orders\<close>

lemma market_fill_None: "resting m x = None \<Longrightarrow> resting (fold market_fill ss m) x = None"
proof (induction ss arbitrary: m)
  case (Cons a ss)
  then have "resting (market_fill a m) x = None"
    by (auto simp: market_fill_def market_cancel_def remove_order_def resize_order_def split: option.splits)
  with Cons.IH show ?case by simp
qed simp

text \<open>What a limit order does, and the state it leaves when it is neither refused nor throws.\<close>

definition spec_limit ::
  "engine_limits \<Rightarrow> stock_locate set \<Rightarrow> markets \<Rightarrow> stock_locate \<Rightarrow> order_id \<Rightarrow> side \<Rightarrow> price \<Rightarrow> quantity \<Rightarrow>
     nat \<Rightarrow> match_result \<times> markets" where
  "spec_limit L Z M l x side limit_price q room =
     (let ss = engine_steps M l side limit_price True q;
          r = matched_result ss q room; M1 = fill_book ss l M in
      if mr_resting r = 0 then (r, M1)
      else if \<not> may_create L Z M1 l then (not_rested r, M1)
      else (r, M1(l \<mapsto> rest_order x \<lparr>ro_side = side, ro_price = limit_price, ro_quantity = mr_resting r\<rparr>
              (book_at M1 l))))"

lemma book_at_fill: "book_at (fill_book (engine_steps M l side p b q) l M) l = fold market_fill (engine_steps M l side p b q) (book_at M l)"
  by (simp add: book_at_def fill_book_def engine_steps_def split: option.splits)

lemma submit_limit_sat:
  assumes "engine_holds e M Z" "l \<notin> Z" "q \<noteq> 0" "resting (book_at M l) x = None"
  shows "outcome_sat
    (\<lambda>r eo k'. r = fst (spec_limit (limits e) Z M l x side p q (length out)) \<and>
       engine_holds (fst eo) (snd (spec_limit (limits e) Z M l x side p q (length out))) Z \<and>
       snd eo = matched_output (engine_steps M l side p True q) out \<and>
       limits (fst eo) = limits e \<and> stats (fst eo) = stats e \<and> k \<le> k' + 13)
    (\<lambda>eo. thrown_as e (fill_book (engine_steps M l side p True q) l M) Z l (fst eo) \<and> k < 13)
    (submit_limit e l x side p q out k)"
proof -
  define ss where "ss = engine_steps M l side p True q"
  let ?r = "matched_result ss q (length out)" and ?M = "fill_book ss l M"
  obtain e1 where e1: "match_orders e l side p q True out = Some (?r, e1, matched_output ss out)"
    "engine_holds e1 ?M Z" "limits e1 = limits e" "stats e1 = stats e"
    using match_orders_sat [OF assms(1) ss_def] by blast
  have fresh: "resting (book_at ?M l) x = None"
    unfolding ss_def book_at_fill by (rule market_fill_None [OF assms(4)])
  have go: "\<not> (q = 0 \<or> (case find_book e l of None \<Rightarrow> False | Some b \<Rightarrow> book_contains b x))"
  proof (cases "M l")
    case None
    with find_book_None [OF engine_holdsD(1) [OF assms(1)], of l] assms(3) show ?thesis by simp
  next
    case (Some m)
    obtain b where "find_book e l = Some b" "book_holds b m"
      using find_book_Some [OF engine_holdsD(1) [OF assms(1)] Some] .
    with assms(3,4) Some show ?thesis by (simp add: book_contains_correct book_at_def)
  qed
  note spec = spec_limit_def [of "limits e" Z M l x side p q "length out", folded ss_def, unfolded Let_def]
  show ?thesis
  proof (cases "mr_resting ?r = 0 \<or> \<not> may_create (limits e) Z ?M l")
    case True
    then show ?thesis
      using go e1 can_create_order_iff [of e1 ?M Z l] engine_holdsD [OF e1(2)]
      by (auto simp: submit_limit_def spec ss_def [symmetric])
  next
    case False
    let ?od = "\<lparr>ro_side = side, ro_price = p, ro_quantity = mr_resting ?r\<rparr>"
    have add: "market_add x side p (mr_resting ?r) (book_at ?M l) = (True, rest_order x ?od (book_at ?M l))"
      using False fresh by (simp add: market_add_def)
    have may: "may_create (limits e1) Z ?M l" using False e1(3) by simp
    then have can: "can_create_order e1 l"
      using can_create_order_iff [of e1 ?M Z l] engine_holdsD [OF e1(2)] by simp
    have thrown: "thrown_as e1 ?M Z l e2 \<Longrightarrow> thrown_as e ?M Z l e2" for e2
      using e1(3,4) by (simp add: thrown_as_def)
    show ?thesis
      using go False can e1(1,3,4)
        create_order_sat [OF e1(2) assms(2) may add, of k, unfolded outcome_sat_bind]
      by (auto simp: submit_limit_def spec outcome_simps ss_def [symmetric]
          dest!: thrown elim!: outcome_sat_mono)
  qed
qed

lemma submit_market_sat:
  assumes "engine_holds e M Z" "q \<noteq> 0" "ss = engine_steps M l side 0 False q"
  shows "\<exists>e'. submit_market e l side q out =
      Some ((matched_result ss q (length out))\<lparr>mr_unfilled := mr_resting (matched_result ss q (length out)),
        mr_resting := 0\<rparr>, e', matched_output ss out) \<and>
    engine_holds e' (fill_book ss l M) Z \<and> limits e' = limits e \<and> stats e' = stats e"
proof -
  obtain e' where "match_orders e l side 0 q False out =
      Some (matched_result ss q (length out), e', matched_output ss out)"
    "engine_holds e' (fill_book ss l M) Z" "limits e' = limits e" "stats e' = stats e"
    using match_orders_sat [OF assms(1,3)] by blast
  with assms(2) show ?thesis by (simp add: submit_market_def)
qed

end
