(* ===== verification/Engine_Runs.thy ===== *)
theory Engine_Runs
  imports Engine_Matching
begin

section \<open>Runs of the matching engine\<close>

text \<open>
  Sequences of public calls of the engine, each with the allocation budget it meets, and the
  abstract state they lead to. Thirteen allocations are enough for any call, so that a run in which every
  call finds thirteen never throws.
\<close>

datatype engine_op =
    Apply itch_event
  | Submit_Limit stock_locate order_id side price quantity "fill list"
  | Submit_Market stock_locate side quantity "fill list"
  | Clear_Engine

datatype answer = Applied apply_result | Matched match_result "fill list" | Cleared

fun map_outcome :: "('a \<Rightarrow> 's \<Rightarrow> 'b \<times> 't) \<Rightarrow> ('s \<Rightarrow> 't) \<Rightarrow> ('s, 'a) outcome \<Rightarrow> ('t, 'b) outcome" where
  "map_outcome f g (Done v s k) = Done (fst (f v s)) (snd (f v s)) k"
| "map_outcome f g (Thrown s) = Thrown (g s)"
| "map_outcome f g Undefined = Undefined"

definition engine_step :: "engine_op \<Rightarrow> engine \<Rightarrow> nat \<Rightarrow> (engine, answer) outcome" where
  "engine_step op e k =
     (case op of
        Apply ev \<Rightarrow> map_outcome (\<lambda>r e. (Applied r, e)) id (engine_apply e ev k)
      | Submit_Limit l x s p q out \<Rightarrow>
          map_outcome (\<lambda>r eo. (Matched r (snd eo), fst eo)) fst (submit_limit e l x s p q out k)
      | Submit_Market l s q out \<Rightarrow>
          (case submit_market e l s q out of
             None \<Rightarrow> Undefined
           | Some (r, e, out) \<Rightarrow> Done (Matched r out) e k)
      | Clear_Engine \<Rightarrow> Done Cleared (engine_clear e) k)"

fun engine_run :: "engine \<Rightarrow> (engine_op \<times> nat) list \<Rightarrow> (answer option list \<times> engine) option" where
  "engine_run e [] = Some ([], e)"
| "engine_run e ((op, k) # ops) =
     (case engine_step op e k of
        Undefined \<Rightarrow> None
      | Done v e' _ \<Rightarrow> map_option (\<lambda>(vs, f). (Some v # vs, f)) (engine_run e' ops)
      | Thrown e' \<Rightarrow> map_option (\<lambda>(vs, f). (None # vs, f)) (engine_run e' ops))"

lemma outcome_sat_map [outcome_simps]:
  "outcome_sat Q E (map_outcome f g m) \<longleftrightarrow>
     outcome_sat (\<lambda>v s k. Q (fst (f v s)) (snd (f v s)) k) (\<lambda>s. E (g s)) m"
  by (cases m) simp_all

text \<open>The statistics account for every message applied.\<close>

definition stats_total :: "replay_stats \<Rightarrow> u64" where
  "stats_total s = st_ignored s + st_adds s + st_executions s + st_cancels s + st_deletes s +
     st_replaces s + st_rejected s"

definition stats_ok :: "engine \<Rightarrow> bool" where
  "stats_ok e \<longleftrightarrow> st_messages (stats e) = stats_total (stats e)"

lemma stats_ok_bump: "stats e' = bump_action act (bump_messages (stats e)) \<Longrightarrow> stats_ok e \<Longrightarrow> stats_ok e'"
  by (cases act) (simp_all add: stats_ok_def stats_total_def bump_messages_def)

lemma stats_ok_cong: "stats e' = stats e \<Longrightarrow> stats_ok e' = stats_ok e"
  by (simp add: stats_ok_def)

lemma clear_holds: "engine_holds (engine_clear e) (\<lambda>_. None) {}" "stats_ok (engine_clear e)"
  by (simp_all add: engine_holds_def books_hold_def engine_clear_def total_size_def size_at_def
      within_limits_def stats_ok_def stats_total_def no_stats_def)

lemma submit_limit_refused:
  assumes "engine_holds e M Z" "q = 0 \<or> resting (book_at M l) x \<noteq> None"
  shows "submit_limit e l x s p q out k = Done (new_result\<lparr>mr_accepted := False\<rparr>) (e, out) k"
proof (cases "M l")
  case None
  with assms(2) show ?thesis by (auto simp: submit_limit_def book_at_def empty_market_def)
next
  case (Some m)
  obtain b where "find_book e l = Some b" "book_holds b m"
    using find_book_Some [OF engine_holdsD(1) [OF assms(1)] Some] .
  with assms(2) Some show ?thesis by (auto simp: submit_limit_def book_at_def book_contains_correct)
qed

definition ready :: "engine_limits \<Rightarrow> engine \<Rightarrow> bool" where
  "ready L e \<longleftrightarrow> (\<exists>M. engine_holds e M {}) \<and> limits e = L \<and> stats_ok e"

lemma engine_step_ready:
  assumes "ready L e" "13 \<le> k"
  shows "\<exists>v e' k'. engine_step op e k = Done v e' k' \<and> ready L e'"
proof -
  obtain M where M: "engine_holds e M {}" using assms(1) by (auto simp: ready_def)
  have L: "limits e = L" "stats_ok e" using assms(1) by (auto simp: ready_def)
  have ready: "ready L f" if "engine_holds f M' {}" "limits f = limits e" "stats_ok f" for f M'
    using that L(1) by (auto simp: ready_def)
  have same: "ready L f" if "engine_holds f M' {}" "limits f = limits e" "stats f = stats e" for f M'
    using ready that stats_ok_cong [of f e] L(2) by blast
  have "outcome_sat (\<lambda>_ e' _. ready L e') (\<lambda>_. False) (engine_step op e k)"
  proof (cases op)
    case (Apply ev)
    have "outcome_sat (\<lambda>_ e' _. ready L e') (\<lambda>_. False) (engine_apply e ev k)"
      by (rule outcome_sat_mono [OF engine_apply_sat [OF M, of ev k]])
        (use assms(2) ready stats_ok_bump [OF _ L(2)] in auto)
    then show ?thesis by (simp add: Apply engine_step_def outcome_simps)
  next
    case (Submit_Limit l x s p q out)
    show ?thesis
    proof (cases "q = 0 \<or> resting (book_at M l) x \<noteq> None")
      case True
      from submit_limit_refused [OF M True] assms(1) Submit_Limit show ?thesis
        by (simp add: engine_step_def)
    next
      case False
      then have "q \<noteq> 0" "resting (book_at M l) x = None" by auto
      from submit_limit_sat [OF M _ this, of s p out k]
      have "outcome_sat (\<lambda>_ eo _. ready L (fst eo)) (\<lambda>_. False) (submit_limit e l x s p q out k)"
        by (rule outcome_sat_mono) (use assms(2) same in auto)
      then show ?thesis by (simp add: Submit_Limit engine_step_def outcome_simps)
    qed
  next
    case (Submit_Market l s q out)
    show ?thesis
    proof (cases "q = 0")
      case True
      with assms(1) Submit_Market show ?thesis by (simp add: engine_step_def submit_market_def)
    next
      case False
      from submit_market_sat [OF M this refl, of l s out] same show ?thesis
        by (auto simp: Submit_Market engine_step_def)
    qed
  next
    case Clear_Engine
    with clear_holds [of e] L show ?thesis
      by (auto simp: engine_step_def ready_def engine_clear_def)
  qed
  then show ?thesis by (cases "engine_step op e k") auto
qed

lemma engine_run_ready:
  assumes "ready L e" "\<forall>(op, k) \<in> set ops. 13 \<le> k"
  shows "\<exists>vs e'. engine_run e ops = Some (vs, e') \<and> None \<notin> set vs \<and> ready L e'"
  using assms
proof (induction ops arbitrary: e)
  case (Cons a ops)
  obtain op k where a: "a = (op, k)" by (cases a)
  with Cons.prems obtain v e1 k1 where "engine_step op e k = Done v e1 k1" "ready L e1"
    using engine_step_ready [of L e k op] by auto
  with Cons.IH [of e1] Cons.prems a show ?case by fastforce
qed simp

lemma new_engine_ready: "ready L (new_engine L)"
  using new_engine_holds [of L]
  by (auto simp: ready_def stats_ok_def new_engine_def stats_total_def no_stats_def)

lemma run_ready:
  assumes "\<forall>(op, k) \<in> set ops. 13 \<le> k" "engine_run (new_engine L) ops = Some (vs, e)"
  obtains M where "engine_holds e M {}" "limits e = L" "stats_ok e"
  using engine_run_ready [OF new_engine_ready [of L] assms(1)] assms(2) by (auto simp: ready_def)

end
