(* ===== verification/Engine_Feed.thy ===== *)
theory Engine_Feed
  imports Engine_Runs
begin

section \<open>Books from a feed\<close>

text \<open>
  What applying a list of events does to the abstract books of an engine, and to its own books when
  no event throws: the operations each event asks of the book of its locate, and no other.
\<close>

definition default_limits :: engine_limits where
  "default_limits = \<lparr>max_instruments = - 1, max_resting_orders = - 1\<rparr>"

text \<open>The operations the events of a feed ask of the book of a locate.\<close>

definition feed_ops :: "stock_locate \<Rightarrow> itch_event list \<Rightarrow> book_op list" where
  "feed_ops l evs =
     concat (map (\<lambda>ev. case feed_op ev of None \<Rightarrow> []
       | Some (act, op) \<Rightarrow> if event_locate ev = l then [op] else []) evs)"

definition completed :: "book_op list \<Rightarrow> (book_op \<times> bool) list" where
  "completed ops = map (\<lambda>op. (op, True)) ops"

lemma market_run_append:
  "snd (market_run m (cs @ ds)) = snd (market_run (snd (market_run m cs)) ds)"
proof (induction cs arbitrary: m)
  case (Cons c cs)
  obtain op d where c: "c = (op, d)" by (cases c)
  then show ?case using Cons.IH
    by (cases d) (simp_all add: market_run_Cons del: market_run.simps)
qed simp

lemma market_step_empty:
  "feed_op ev = Some (act, op) \<Longrightarrow> act \<noteq> Added \<Longrightarrow> market_step op empty_market = (False, empty_market)"
  by (cases ev) (auto simp: market_step_def market_cancel_def market_erase_def market_replace_def
      empty_market_def)

lemma spec_at:
  "f empty_market = (v, empty_market) \<Longrightarrow>
     book_at (snd (spec_on_book M k f)) l = (if l = k then snd (f (book_at M l)) else book_at M l)"
  "may_create L Z M k \<Longrightarrow>
     book_at (snd (spec_create L Z M k f)) l = (if l = k then snd (f (book_at M l)) else book_at M l)"
  by (auto simp: spec_on_book_def spec_create_def book_at_def split: option.splits)

lemma spec_apply_at:
  assumes "may_create L Z M (event_locate ev)"
  shows "book_at (snd (spec_apply L Z M ev)) l =
    snd (market_run (book_at M l) (completed (feed_ops l [ev])))"
proof (cases "feed_op ev")
  case None
  then show ?thesis by (simp add: spec_apply_def feed_ops_def completed_def)
next
  case (Some ao)
  obtain act op where ao: "ao = (act, op)" by (cases ao)
  have "snd (market_run (book_at M l) (completed (feed_ops l [ev]))) =
    (if l = event_locate ev then snd (market_step op (book_at M l)) else book_at M l)"
    using Some ao by (simp add: feed_ops_def completed_def market_run_Cons del: market_run.simps(2))
  then show ?thesis
    using spec_at(2) [OF assms] spec_at(1) market_step_empty [of ev act op] Some ao
    by (cases "act = Added") (simp_all add: spec_apply_def Let_def)
qed

text \<open>Without limits every add may create its order, as long as the counter has room for it.\<close>

lemma may_create_default:
  assumes "total_size M < 2 ^ 64 - 1"
  shows "may_create default_limits {} M l"
proof -
  have "card (dom M) \<le> card (UNIV :: stock_locate set)" by (rule card_mono) auto
  moreover have "unat (- 1 :: size_t) = 2 ^ 64 - 1"
    by (simp add: unsigned_minus_1_eq_mask mask_eq_exp_minus_1)
  ultimately show ?thesis using assms
    by (simp add: may_create_def default_limits_def card_word)
qed

lemma market_step_size: "market_size (snd (market_step op m)) \<le> Suc (market_size m)"
  using market_step_dom by (simp add: market_size_def)

lemma spec_apply_size:
  assumes "may_create L Z M (event_locate ev)"
  shows "total_size (snd (spec_apply L Z M ev)) \<le> Suc (total_size M)"
proof -
  have one: "total_size (M(l \<mapsto> snd (market_step op (book_at M l)))) \<le> Suc (total_size M)" for l op
    using total_size_upd [of M l "snd (market_step op (book_at M l))"]
      market_step_size [of op "book_at M l"] size_book_at [of M l] by linarith
  have some: "total_size (M(l \<mapsto> snd (market_step op m))) \<le> Suc (total_size M)" if "M l = Some m" for l op m
    using one [of l op] that by (simp add: book_at_def)
  show ?thesis
    using one some assms
    by (auto simp: spec_apply_def spec_create_def spec_on_book_def Let_def split: option.splits)
qed

text \<open>The books after a feed, each event seen with the limits \<open>L\<close>.\<close>

definition fed :: "engine_limits \<Rightarrow> markets \<Rightarrow> itch_event list \<Rightarrow> markets" where
  "fed L M evs = foldl (\<lambda>M ev. snd (spec_apply L {} M ev)) M evs"

lemma fed_simps [simp]:
  "fed L M [] = M" "fed L M (ev # evs) = fed L (snd (spec_apply L {} M ev)) evs"
  "fed L M (evs @ [ev]) = snd (spec_apply L {} (fed L M evs) ev)"
  by (simp_all add: fed_def)

lemma fed_book_at:
  assumes "total_size M + length evs < 2 ^ 64 - 1"
  shows "book_at (fed default_limits M evs) l = snd (market_run (book_at M l) (completed (feed_ops l evs)))"
  using assms
proof (induction evs arbitrary: M)
  case Nil
  then show ?case by (simp add: feed_ops_def completed_def)
next
  case (Cons ev evs)
  let ?M = "snd (spec_apply default_limits {} M ev)"
  have may: "may_create default_limits {} M (event_locate ev)"
    using Cons.prems by (intro may_create_default) simp
  have "total_size ?M + length evs < 2 ^ 64 - 1" using spec_apply_size [OF may] Cons.prems by simp
  from Cons.IH [OF this]
  have "book_at (fed default_limits M (ev # evs)) l =
      snd (market_run (snd (market_run (book_at M l) (completed (feed_ops l [ev])))) (completed (feed_ops l evs)))"
    by (simp only: fed_simps(2) spec_apply_at [OF may])
  moreover have "completed (feed_ops l (ev # evs)) = completed (feed_ops l [ev]) @ completed (feed_ops l evs)"
    by (simp add: feed_ops_def completed_def)
  ultimately show ?case by (simp only: market_run_append)
qed

text \<open>The engine over such a feed, whenever it does not throw.\<close>

lemma apply_fed:
  assumes "engine_holds e (fed L M evs) {}" "limits e = L" "engine_apply e ev k = Done r e' k'"
  shows "engine_holds e' (fed L M (evs @ [ev])) {}" "limits e' = L"
  using engine_apply_sat [OF assms(1), of ev k] assms(2,3) by simp_all

lemma feed_run:
  assumes "engine_holds e M {}" "\<forall>(ev, k) \<in> set evs. 13 \<le> k"
  shows "\<exists>vs e'. engine_run e (map (\<lambda>(ev, k). (Apply ev, k)) evs) = Some (vs, e') \<and>
    engine_holds e' (fed (limits e) M (map fst evs)) {}"
  using assms
proof (induction evs arbitrary: e M)
  case (Cons a evs)
  obtain ev k where a: "a = (ev, k)" by (cases a)
  obtain r e1 k1 where e1: "engine_apply e ev k = Done r e1 k1"
    "engine_holds e1 (snd (spec_apply (limits e) {} M ev)) {}" "limits e1 = limits e"
    using engine_apply_sat [OF Cons.prems(1), of ev k] Cons.prems(2) a
    by (cases "engine_apply e ev k") auto
  obtain vs e' where "engine_run e1 (map (\<lambda>(ev, k). (Apply ev, k)) evs) = Some (vs, e')"
    "engine_holds e' (fed (limits e) (snd (spec_apply (limits e) {} M ev)) (map fst evs)) {}"
    using Cons.IH [OF e1(2)] Cons.prems(2) e1(3) by auto
  with e1(1) a show ?case by (auto simp: engine_step_def)
qed auto

text \<open>A book that holds what operations leave shows what the reference book shows after them.\<close>

lemma book_shows_reference:
  assumes "engine_holds e M {}" "book_at M l = snd (market_run empty_market (completed ops))"
  shows "\<exists>ws r. ref_run new_reference (completed ops) = Some (ws, r) \<and>
    (case find_book e l of None \<Rightarrow> \<forall>x. ref_order r x = None | Some b \<Rightarrow> same_observations b r)"
proof -
  obtain r where r: "ref_run new_reference (completed ops) = Some (fst (market_run empty_market (completed ops)), r)"
    "ref_inv r" "ref_market r = book_at M l"
    using ref_run_correct [OF new_reference_inv(1), of "completed ops"] assms(2)
    by (auto simp: new_reference_inv(2))
  have "case find_book e l of None \<Rightarrow> \<forall>x. ref_order r x = None | Some b \<Rightarrow> same_observations b r"
  proof (cases "M l")
    case None
    then have "resting (ref_market r) x = None" for x
      using r(3) by (simp add: book_at_def empty_market_def)
    with None find_book_None [OF engine_holdsD(1) [OF assms(1)], of l] show ?thesis
      by (simp add: ref_resting ref_order_def)
  next
    case (Some m)
    obtain b where "find_book e l = Some b" "book_holds b m"
      using find_book_Some [OF engine_holdsD(1) [OF assms(1)] Some] .
    with Some r show ?thesis by (simp add: same_observationsI book_at_def)
  qed
  with r(1) show ?thesis by blast
qed

lemma fed_shows_reference:
  assumes "engine_holds e (fed default_limits (\<lambda>_. None) evs) {}" "length evs < 2 ^ 64 - 1"
  shows "\<exists>ws r. ref_run new_reference (completed (feed_ops l evs)) = Some (ws, r) \<and>
    (case find_book e l of None \<Rightarrow> \<forall>x. ref_order r x = None | Some b \<Rightarrow> same_observations b r)"
proof -
  have "total_size (\<lambda>_. None) + length evs < 2 ^ 64 - 1"
    using assms(2) by (simp add: total_size_def size_at_def)
  from fed_book_at [OF this, of l] have "book_at (fed default_limits (\<lambda>_. None) evs) l =
      snd (market_run empty_market (completed (feed_ops l evs)))"
    by (simp add: book_at_def)
  from book_shows_reference [OF assms(1) this] show ?thesis .
qed

end
