(* ===== verification/Engine_Fills.thy ===== *)
theory Engine_Fills
  imports Engine_Matching
begin

section \<open>The books after a match\<close>

text \<open>
  What a submitted order leaves in the engine, stated over the queries of the books: the orders it was
  executed against with what is left of them, the queues, the counters, and the books of the other
  instruments. The lemmas derive it from the abstract books the matching specification computes.
\<close>

subsection \<open>The state after, over the queries\<close>

text \<open>
  What is left of a resting order after a list of fills: the order itself when none is of it, and
  nothing when it was filled by its whole quantity.
\<close>

definition after_fills :: "(order_view \<times> quantity) list \<Rightarrow> order_view \<Rightarrow> order_view option" where
  "after_fills ss v =
     (case map_of (map (\<lambda>(w, f). (view_id w, f)) ss) (view_id v) of
        None \<Rightarrow> Some v
      | Some f \<Rightarrow>
          if f < view_quantity v then Some (v\<lparr>view_quantity := view_quantity v - f\<rparr>) else None)"

definition queue_of :: "engine \<Rightarrow> stock_locate \<Rightarrow> side \<Rightarrow> price \<Rightarrow> order_id list option" where
  "queue_of e l s p = (case find_book e l of None \<Rightarrow> Some [] | Some b \<Rightarrow> forward_ids b s p)"

text \<open>
  The engine \<open>e'\<close> is \<open>e\<close> after the fills \<open>ss\<close> at the instrument \<open>l\<close> and the
  arrival of the order \<open>new\<close>, if any. Every order has the quantity its fill left it; the queues
  are the old ones without the orders that are gone, in the old order, the new order behind its
  price's; the books of the other instruments are the same; and the counter has moved by the orders
  gone and come.
\<close>

definition engine_after ::
  "engine \<Rightarrow> stock_locate \<Rightarrow> (order_view \<times> quantity) list \<Rightarrow> order_view option \<Rightarrow> engine \<Rightarrow> bool" where
  "engine_after e l ss new e' \<longleftrightarrow>
     (\<forall>y. find_order e' l y =
        (if map_option view_id new = Some y then new
         else Option.bind (find_order e l y) (after_fills ss))) \<and>
     (\<forall>s p. \<exists>ys. queue_of e l s p = Some ys \<and>
        queue_of e' l s p = Some (filter (\<lambda>y. find_order e' l y \<noteq> None) ys @
          (case new of
             None \<Rightarrow> []
           | Some v \<Rightarrow> if view_side v = s \<and> view_price v = p then [view_id v] else []))) \<and>
     (\<forall>l'. l' \<noteq> l \<longrightarrow> find_book e' l' = find_book e l') \<and>
     (find_book e' l = None \<longleftrightarrow> find_book e l = None \<and> new = None) \<and>
     unat (resting_order_count e') + filled_whole ss =
       unat (resting_order_count e) + (case new of None \<Rightarrow> 0 | Some _ \<Rightarrow> 1) \<and>
     limits e' = limits e \<and> stats e' = stats e"

subsection \<open>The abstract book after the fills\<close>

lemma queue_rests: "market_inv m \<Longrightarrow> filter (\<lambda>y. resting m y \<noteq> None) (queue m s p) = queue m s p"
  using market_inv_D(2) by (fastforce simp: filter_id_conv)

lemma after_fills_Nil [simp]: "after_fills [] = Some"
  by (simp add: after_fills_def fun_eq_iff)

text \<open>The orders and the queues after a fill of the front order, which is removed, and the rest.\<close>

lemma fills_after:
  assumes "market_inv m" "ss = match_steps side limit_price has_limit m q"
  shows "(\<forall>y. map_option (market_view y) (resting (fold market_fill ss m) y) =
      Option.bind (map_option (market_view y) (resting m y)) (after_fills ss)) \<and>
    (\<forall>s p. queue (fold market_fill ss m) s p =
      filter (\<lambda>y. resting (fold market_fill ss m) y \<noteq> None) (queue m s p))"
  using assms
proof (induction "priority (opposite side) m" arbitrary: m q ss)
  case Nil
  then have "ss = []" by (simp add: match_steps_def eligible_def)
  with queue_rests [OF Nil(2)] show ?case by (simp add: bind_eq_Some_conv)
next
  case (Cons a L)
  obtain x p r where a: "a = (x, p, r)" by (cases a)
  then have pri: "priority (opposite side) m = (x, p, r) # L" using Cons.hyps(2) by simp
  note front = priority_Cons [OF Cons.prems(1) pri]
  let ?v = "\<lparr>view_id = x, view_side = opposite side, view_price = p, view_quantity = r\<rparr>"
  have r: "r \<noteq> 0" using market_inv_D(3) [OF Cons.prems(1) front(4)] by simp
  have view: "market_view x \<lparr>ro_side = opposite side, ro_price = p, ro_quantity = r\<rparr> = ?v"
    by (simp add: market_view_def)
  consider "q = 0 \<or> \<not> (has_limit \<longrightarrow> crosses side limit_price p)"
    | "q \<noteq> 0" "has_limit \<longrightarrow> crosses side limit_price p" "q < r"
    | "q \<noteq> 0" "has_limit \<longrightarrow> crosses side limit_price p" "\<not> q < r" by blast
  then show ?case
  proof cases
    case 1
    then have "ss = []" using Cons.prems(2) by (auto simp: match_steps_def pri eligible_def)
    with queue_rests [OF Cons.prems(1)] show ?thesis by simp
  next
    case 2
    then have ss: "ss = [(?v, q)]" using Cons.prems(2) by (simp add: match_steps_def pri eligible_def)
    have m': "market_fill (?v, q) m = resize_order x (r - q) m"
      using 2 front(4) by (auto simp: market_fill_def market_cancel_def)
    have "(resting (resize_order x (r - q) m) y = None) = (resting m y = None)" for y
      by (simp add: resize_order_def)
    moreover have "map_option (market_view y) (resting (resize_order x (r - q) m) y) =
        Option.bind (map_option (market_view y) (resting m y)) (after_fills ss)" for y
      using 2(3) front(4)
      by (cases "y = x"; cases "resting m y") (auto simp: ss resize_order_def after_fills_def market_view_def)
    moreover have "queue (resize_order x (r - q) m) = queue m" by (simp add: resize_order_def)
    ultimately show ?thesis using queue_rests [OF Cons.prems(1)] by (simp add: ss m')
  next
    case 3
    let ?m = "remove_order x m" and ?ss = "match_steps side limit_price has_limit (remove_order x m) (q - r)"
    have ss: "ss = (?v, r) # ?ss"
      using 3 Cons.prems(2) front(2) by (simp add: match_steps_def pri eligible_def)
    have m': "market_fill (?v, r) m = ?m" using r front(4) by (simp add: market_fill_def market_cancel_def)
    have inv: "market_inv ?m" by (rule remove_order_inv [OF Cons.prems(1)])
    note IH = Cons.hyps(1) [OF front(2) [symmetric] inv refl, of "q - r"]
    have gone: "resting (fold market_fill ?ss ?m) x = None"
      by (rule market_fill_None) (simp add: remove_order_def)
    have orders: "map_option (market_view y) (resting (fold market_fill ss m) y) =
      Option.bind (map_option (market_view y) (resting m y)) (after_fills ss)" for y
    proof (cases "y = x")
      case True
      then show ?thesis using gone front(4) view by (simp add: ss m' after_fills_def)
    next
      case False
      have "after_fills ((?v, r) # ?ss) (market_view y od) = after_fills ?ss (market_view y od)" for od
        using False by (simp add: after_fills_def market_view_def)
      moreover have "resting ?m y = resting m y" using False by (simp add: remove_order_def)
      ultimately show ?thesis using conjunct1 [OF IH, rule_format, of y]
        by (cases "resting m y") (simp_all add: ss m')
    qed
    have "queue ?m s p' = filter (\<lambda>y. y \<noteq> x) (queue m s p')" for s p'
      using market_inv_D(1) [OF Cons.prems(1)] by (simp add: remove_order_def distinct_remove1_removeAll
          removeAll_filter_not_eq eq_commute)
    then have "queue (fold market_fill ss m) s p' =
      filter (\<lambda>y. resting (fold market_fill ss m) y \<noteq> None) (queue m s p')" for s p'
      using conjunct2 [OF IH, rule_format, of s p'] gone by (auto simp: ss m' intro!: filter_cong)
    with orders show ?thesis by blast
  qed
qed

subsection \<open>The engine after the fills\<close>

lemma book_at_inv:
  assumes "engine_holds e M Z"
  shows "market_inv (book_at M l)"
proof (cases "M l")
  case (Some m)
  obtain b where "book_holds b m" using find_book_Some [OF engine_holdsD(1) [OF assms] Some] .
  with Some show ?thesis using book_stateD(1) [of b m "{}" "{}"] by (simp add: book_at_def)
qed (simp add: book_at_def)

lemma find_order_eq:
  assumes "engine_holds e M Z"
  shows "find_order e l x = map_option (market_view x) (resting (book_at M l) x)"
proof (cases "M l")
  case None
  with find_book_None [OF engine_holdsD(1) [OF assms], of l] show ?thesis
    by (simp add: find_order_def book_at_def empty_market_def)
next
  case (Some m)
  obtain b where "find_book e l = Some b" "book_holds b m"
    using find_book_Some [OF engine_holdsD(1) [OF assms] Some] .
  with Some show ?thesis by (simp add: find_order_def book_at_def book_order_correct)
qed

lemma queue_of_eq:
  assumes "engine_holds e M Z"
  shows "queue_of e l s p = Some (queue (book_at M l) s p)"
proof (cases "M l")
  case None
  with find_book_None [OF engine_holdsD(1) [OF assms], of l] show ?thesis
    by (simp add: queue_of_def book_at_def empty_market_def)
next
  case (Some m)
  obtain b where "find_book e l = Some b" "book_holds b m"
    using find_book_Some [OF engine_holdsD(1) [OF assms] Some] .
  with Some show ?thesis by (simp add: queue_of_def book_at_def ids_correct)
qed

text \<open>Orders filled whole leave the count, and nothing else does.\<close>

lemma fill_book_size:
  assumes "engine_holds e M Z" "ss = engine_steps M l side p hl q"
  shows "total_size (fill_book ss l M) + filled_whole ss = total_size M"
proof (cases "M l")
  case None
  with assms(2) show ?thesis by (simp add: engine_steps_def book_at_def fill_book_def filled_whole_def)
next
  case (Some m)
  obtain b where b: "find_book e l = Some b" "book_holds b m"
    using find_book_Some [OF engine_holdsD(1) [OF assms(1)] Some] .
  from match_loop_correct [of "\<lparr>ms_book = b, ms_remaining = q, ms_result = new_result,
      ms_output = [], ms_count = 0\<rparr>", OF _ refl, of m side p hl] b(2)
  obtain b' where "match_result_ok side p hl m q b'" by auto
  moreover have "ss = match_steps side p hl m q" using Some assms(2) by (simp add: engine_steps_def book_at_def)
  ultimately have "market_size (fold market_fill ss m) + filled_whole ss = market_size m"
    by (simp add: match_result_ok_def Let_def)
  with total_size_upd [of M l "fold market_fill ss m"] Some show ?thesis
    by (simp add: fill_book_def size_at_def)
qed

lemma engine_after_fills:
  assumes "engine_holds e M Z" "ss = engine_steps M l side p hl q" "engine_holds e' (fill_book ss l M) Z"
    "limits e' = limits e" "stats e' = stats e" "\<And>l'. l' \<noteq> l \<Longrightarrow> find_book e' l' = find_book e l'"
  shows "engine_after e l ss None e'"
proof -
  have at: "book_at (fill_book ss l M) l = fold market_fill ss (book_at M l)"
    unfolding assms(2) by (rule book_at_fill)
  note f = fills_after [OF book_at_inv [OF assms(1), of l] assms(2) [unfolded engine_steps_def]]
  have "find_book e' l = None \<longleftrightarrow> find_book e l = None"
    using find_book_None [OF engine_holdsD(1) [OF assms(1)], of l]
      find_book_None [OF engine_holdsD(1) [OF assms(3)], of l]
    by (simp add: fill_book_def split: option.splits)
  moreover have "find_order e' l y = Option.bind (find_order e l y) (after_fills ss)" for y
    using conjunct1 [OF f, rule_format, of y]
    by (simp only: find_order_eq [OF assms(1)] find_order_eq [OF assms(3)] at)
  moreover have "queue_of e' l s p' = Some (filter (\<lambda>y. find_order e' l y \<noteq> None) (queue (book_at M l) s p'))" for s p'
    using conjunct2 [OF f, rule_format, of s p']
    by (simp only: queue_of_eq [OF assms(3)] find_order_eq [OF assms(3)] at) (simp only: option.map_disc_iff)
  ultimately show ?thesis
    using fill_book_size [OF assms(1,2)] engine_holdsD(2) [OF assms(1)] engine_holdsD(2) [OF assms(3)] assms(4-6)
    unfolding engine_after_def queue_of_eq [OF assms(1)] by simp
qed

lemma engine_after_rest:
  assumes "engine_holds e M Z" "ss = engine_steps M l side p hl q" "resting (book_at M l) x = None"
    "engine_holds e' ((fill_book ss l M)(l \<mapsto> rest_order x od (book_at (fill_book ss l M) l))) Z"
    "limits e' = limits e" "stats e' = stats e" "\<And>l'. l' \<noteq> l \<Longrightarrow> find_book e' l' = find_book e l'"
  shows "engine_after e l ss (Some (market_view x od)) e'"
proof -
  let ?m = "fold market_fill ss (book_at M l)"
  have at: "book_at (fill_book ss l M) l = ?m" unfolding assms(2) by (rule book_at_fill)
  note f = fills_after [OF book_at_inv [OF assms(1), of l] assms(2) [unfolded engine_steps_def]]
  have fresh: "resting ?m x = None" by (rule market_fill_None [OF assms(3)])
  have at': "book_at ((fill_book ss l M)(l \<mapsto> rest_order x od (book_at (fill_book ss l M) l))) l = rest_order x od ?m"
    by (simp add: book_at_def at [unfolded book_at_def])
  have new: "x \<notin> set (queue (book_at M l) s p')" for s p'
    using market_inv_D(2) [OF book_at_inv [OF assms(1)]] assms(3) by simp
  have find: "find_order e' l y = (if y = x then Some (market_view x od)
      else map_option (market_view y) (resting ?m y))" for y
    unfolding find_order_eq [OF assms(4)] at' by (simp add: rest_order_def)
  have orders: "find_order e' l y = (if x = y then Some (market_view x od)
      else Option.bind (find_order e l y) (after_fills ss))" for y
    using conjunct1 [OF f, rule_format, of y] by (simp add: find find_order_eq [OF assms(1)])
  have "filter (\<lambda>y. find_order e' l y \<noteq> None) (queue (book_at M l) s p') = queue ?m s p'" for s p'
    using conjunct2 [OF f, rule_format, of s p'] new [of s p'] by (auto simp: find intro!: filter_cong)
  then have queues: "queue_of e' l s p' = Some (filter (\<lambda>y. find_order e' l y \<noteq> None) (queue (book_at M l) s p') @
      (if ro_side od = s \<and> ro_price od = p' then [x] else []))" for s p'
    unfolding queue_of_eq [OF assms(4)] at' by (auto simp: rest_order_def)
  have size: "total_size ((fill_book ss l M)(l \<mapsto> rest_order x od (book_at (fill_book ss l M) l))) =
      Suc (total_size (fill_book ss l M))"
    using total_size_upd [of "fill_book ss l M" l "rest_order x od (book_at (fill_book ss l M) l)"]
      market_size_simps(2) [of ?m x od] fresh by (simp add: size_book_at at [symmetric])
  have "find_book e' l \<noteq> None"
    using find_book_None [OF engine_holdsD(1) [OF assms(4)], of l] by simp
  with orders queues size fill_book_size [OF assms(1,2)] engine_holdsD(2) [OF assms(1)]
    engine_holdsD(2) [OF assms(4)] assms(5-7)
  show ?thesis
    by (simp add: engine_after_def queue_of_eq [OF assms(1)] market_view_def)
qed

subsection \<open>The books of the other instruments\<close>

lemma find_set_entry: "find_book (set_entry e l p) l' = (if l' = l then p else find_book e l')"
  by (simp add: find_book_def set_entry_def)

lemma match_orders_other:
  "match_orders e l side p q hl out = Some (r, e', out') \<Longrightarrow> l' \<noteq> l \<Longrightarrow> find_book e' l' = find_book e l'"
  by (auto simp: match_orders_def find_book_def set_entry_def bind_eq_Some_conv split: option.splits)

lemma submit_market_other:
  "submit_market e l side q out = Some (r, e', out') \<Longrightarrow> l' \<noteq> l \<Longrightarrow> find_book e' l' = find_book e l'"
  by (auto simp: submit_market_def bind_eq_Some_conv dest: match_orders_other split: if_splits)

lemma ensure_book_other:
  "ensure_book e l k = Done v e' k' \<Longrightarrow> l' \<noteq> l \<Longrightarrow> find_book e' l' = find_book e l'"
  by (auto simp: ensure_book_def Let_def find_set_entry outcome_Done split: option.splits)

lemma on_book_other:
  "on_book e l f k = Done v e' k' \<Longrightarrow> l' \<noteq> l \<Longrightarrow> find_book e' l' = find_book e l'"
  by (auto simp: on_book_def find_set_entry outcome_Done split: option.splits)

lemma submit_limit_other:
  assumes "submit_limit e l x side p q out k = Done r (e', out') k'" "l' \<noteq> l"
  shows "find_book e' l' = find_book e l'"
proof -
  have "find_book (count_order e1) l' = find_book e1 l'" for e1
    by (simp add: find_book_def count_order_def)
  with assms show ?thesis
    by (auto simp: submit_limit_def outcome_Done match_orders_other
        dest!: ensure_book_other on_book_other split: if_splits option.splits)
qed

end
