(* ===== verification/Engine_Properties.thy ===== *)
theory Engine_Properties
  imports Engine_Feed Engine_Fills
begin

section \<open>What the matching engine promises\<close>

text \<open>
  The properties of the engine over every state a run of its public calls reaches: the accounting of
  orders, instruments and messages, the reconstruction of each instrument's book from the feed,
  matching by price-time priority, and what an exception leaves.
\<close>

subsection \<open>Accounting\<close>

lemma order_count_at:
  assumes "engine_holds e M Z"
  shows "(case find_book e l of None \<Rightarrow> 0 | Some b \<Rightarrow> unat (book_order_count b)) = size_at M l"
proof (cases "M l")
  case None
  with find_book_None [OF engine_holdsD(1) [OF assms], of l] show ?thesis by (simp add: size_at_def)
next
  case (Some m)
  obtain b where b: "find_book e l = Some b" "book_holds b m"
    using find_book_Some [OF engine_holdsD(1) [OF assms] Some] .
  with market_size_lt [OF assms Some] Some show ?thesis
    by (simp add: size_at_def book_order_count_correct market_size_def unsigned_of_nat take_bit_nat_eq_self)
qed

text \<open>
  C10: in any run of calls that each find thirteen allocations nothing throws or is undefined, so that the
  loop of every match returns. The counter of resting orders is the number of orders of all books,
  neither limit is exceeded, and every message applied is counted once by its outcome.
\<close>

theorem engine_accounting:
  assumes "\<forall>(op, k) \<in> set ops. 13 \<le> k"
  shows "\<exists>vs e. engine_run (new_engine L) ops = Some (vs, e) \<and> None \<notin> set vs \<and>
    unat (resting_order_count e) =
      (\<Sum>l\<in>UNIV. case find_book e l of None \<Rightarrow> 0 | Some b \<Rightarrow> unat (book_order_count b)) \<and>
    resting_order_count e \<le> max_resting_orders L \<and> instrument_count e \<le> max_instruments L \<and>
    st_messages (stats e) = stats_total (stats e)"
proof -
  obtain vs e where run: "engine_run (new_engine L) ops = Some (vs, e)" "None \<notin> set vs" "ready L e"
    using engine_run_ready [OF new_engine_ready assms] by blast
  then obtain M where M: "engine_holds e M {}" "limits e = L" "stats_ok e" by (auto simp: ready_def)
  have "unat (resting_order_count e) =
      (\<Sum>l\<in>UNIV. case find_book e l of None \<Rightarrow> 0 | Some b \<Rightarrow> unat (book_order_count b))"
    using engine_holdsD(2) [OF M(1)] by (simp add: order_count_at [OF M(1)] total_size_def)
  moreover have "resting_order_count e \<le> max_resting_orders L" "instrument_count e \<le> max_instruments L"
    using engine_holdsD [OF M(1)] M(2) instrument_count_eq [of e M "{}"]
    by (simp_all add: within_limits_def word_le_nat_alt)
  ultimately show ?thesis using run M(3) by (auto simp: stats_ok_def)
qed

definition example_run :: "(engine_op \<times> nat) list" where
  "example_run = [(Submit_Limit 7 1 Sell 100 50 [], 13), (Submit_Limit 7 2 Buy 100 80 [], 13),
     (Submit_Market 7 Sell 10 [], 13)]"

lemma engine_accounting_witness:
  "\<exists>vs e. engine_run (new_engine \<lparr>max_instruments = 1, max_resting_orders = 2\<rparr>) example_run = Some (vs, e) \<and>
     None \<notin> set vs \<and> resting_order_count e \<le> 2 \<and> instrument_count e \<le> 1"
  using engine_accounting [of example_run "\<lparr>max_instruments = 1, max_resting_orders = 2\<rparr>"]
  by (auto simp: example_run_def simp del: engine_run.simps)

subsection \<open>Reconstruction of the books\<close>

text \<open>
  C5: without limits a feed of fewer than \<open>2 ^ 64 - 1\<close> events reconstructs every instrument on
  its own: the book of a locate shows the same observations as a reference book given the operations
  of that locate's events, in their order, and a locate without a book has no resting order there.
  Nothing in the feed is matched, and no event of another locate matters.
\<close>

theorem feed_reconstructs_books:
  assumes "\<forall>(ev, k) \<in> set evs. 13 \<le> k" "length evs < 2 ^ 64 - 1"
  shows "\<exists>vs e. engine_run (new_engine default_limits) (map (\<lambda>(ev, k). (Apply ev, k)) evs) = Some (vs, e) \<and>
    (\<forall>l. \<exists>ws r. ref_run new_reference (completed (feed_ops l (map fst evs))) = Some (ws, r) \<and>
      (case find_book e l of
         None \<Rightarrow> \<forall>x. ref_order r x = None
       | Some b \<Rightarrow> same_observations b r))"
proof -
  obtain vs e where run: "engine_run (new_engine default_limits) (map (\<lambda>(ev, k). (Apply ev, k)) evs) = Some (vs, e)"
    "engine_holds e (fed default_limits (\<lambda>_. None) (map fst evs)) {}"
    using feed_run [OF new_engine_holds assms(1), of default_limits] by (auto simp: new_engine_def)
  moreover have "length (map fst evs) < 2 ^ 64 - 1" using assms(2) by simp
  ultimately show ?thesis using fed_shows_reference by blast
qed

definition example_feed :: "(itch_event \<times> nat) list" where
  "example_feed =
     [(AddOrder \<lparr>ao_header = \<lparr>mh_stock_locate = 7, mh_tracking_number = 0, mh_timestamp = 1\<rparr>,
         ao_order_reference = 1, ao_side = Buy, ao_shares = 5, ao_stock = [], ao_price = 100\<rparr>, 13),
      (OrderDelete \<lparr>od_header = \<lparr>mh_stock_locate = 8, mh_tracking_number = 0, mh_timestamp = 2\<rparr>,
         od_order_reference = 1\<rparr>, 13)]"

lemma feed_reconstructs_books_witness:
  "\<exists>vs e. engine_run (new_engine default_limits) (map (\<lambda>(ev, k). (Apply ev, k)) example_feed) = Some (vs, e) \<and>
    (\<exists>ws r. ref_run new_reference (completed [Op_Add 1 Buy 100 5]) = Some (ws, r) \<and>
      (case find_book e 7 of None \<Rightarrow> \<forall>x. ref_order r x = None | Some b \<Rightarrow> same_observations b r))"
proof -
  have "feed_ops 7 (map fst example_feed) = [Op_Add 1 Buy 100 5]"
    by (simp add: feed_ops_def example_feed_def)
  moreover have "\<forall>(ev, k) \<in> set example_feed. 13 \<le> k" by (simp add: example_feed_def)
  moreover have "length example_feed < 2 ^ 64 - 1" by (simp add: example_feed_def)
  ultimately show ?thesis using feed_reconstructs_books [of example_feed] by metis
qed

subsection \<open>Matching\<close>

text \<open>
  The orders of a side of a book in price-time priority, read off its queues: best price first, and
  at one price from the head of the queue.
\<close>

definition book_priority :: "side \<Rightarrow> order_book \<Rightarrow> (order_id \<times> price \<times> quantity) list" where
  "book_priority s b =
     concat (map (\<lambda>p. map (\<lambda>x. (x, p, case book_order b x of None \<Rightarrow> 0 | Some v \<Rightarrow> view_quantity v))
         (the (forward_ids b s p)))
       (ranked s {p. forward_ids b s p \<noteq> Some []}))"

lemma book_priority_eq:
  assumes "book_holds b m"
  shows "book_priority s b = priority s m"
proof -
  have "{p. forward_ids b s p \<noteq> Some []} = active_prices s m"
    by (simp add: ids_correct [OF assms] active_prices_def)
  moreover have "(case book_order b x of None \<Rightarrow> 0 | Some v \<Rightarrow> view_quantity v) =
    (case resting m x of None \<Rightarrow> 0 | Some od \<Rightarrow> ro_quantity od)" for x
    by (simp add: book_order_correct [OF assms] market_view_def split: option.splits)
  moreover have "at_price m s = (\<lambda>p. map (\<lambda>x. (x, p,
      case resting m x of None \<Rightarrow> 0 | Some od \<Rightarrow> ro_quantity od)) (queue m s p))"
    by (simp add: at_price_def fun_eq_iff)
  ultimately show ?thesis
    by (simp add: book_priority_def priority_def ids_correct [OF assms])
qed

text \<open>The fills an incoming quantity is due, of the opposite side of the book in priority.\<close>

definition due_steps ::
  "engine \<Rightarrow> stock_locate \<Rightarrow> side \<Rightarrow> price \<Rightarrow> bool \<Rightarrow> quantity \<Rightarrow> (order_view \<times> quantity) list" where
  "due_steps e l side limit_price has_limit q =
     (case find_book e l of
        None \<Rightarrow> []
      | Some b \<Rightarrow> steps_of (opposite side)
          (eligible side limit_price has_limit (book_priority (opposite side) b)) q)"

lemma due_steps_eq:
  assumes "engine_holds e M Z"
  shows "due_steps e l side p hl q = engine_steps M l side p hl q"
proof (cases "M l")
  case None
  with find_book_None [OF engine_holdsD(1) [OF assms], of l] show ?thesis
    by (simp add: due_steps_def engine_steps_def book_at_def)
next
  case (Some m)
  obtain b where "find_book e l = Some b" "book_holds b m"
    using find_book_Some [OF engine_holdsD(1) [OF assms] Some] .
  with Some show ?thesis
    by (simp add: due_steps_def engine_steps_def book_at_def match_steps_def book_priority_eq)
qed

text \<open>The quantities of a result add up, without a wrap of any of them.\<close>

lemma matched_sum:
  assumes "(\<Sum>s\<leftarrow>ss. unat (snd s)) \<le> unat q"
  shows "unat (mr_filled (matched_result ss q n)) + unat (mr_resting (matched_result ss q n)) = unat q"
proof -
  have "unat q < 2 ^ 32" using unsigned_less [of q, where 'a = nat] by simp
  with assms have s: "unat (\<Sum>s\<leftarrow>ss. snd s) = (\<Sum>s\<leftarrow>ss. unat (snd s))" by (intro sum_list_unat) simp
  with assms have "(\<Sum>s\<leftarrow>ss. snd s) \<le> q" by (simp add: word_le_nat_alt)
  from unat_sub [OF this] s assms show ?thesis by (simp add: matched_result_def)
qed

lemma engine_steps_sum: "(\<Sum>s\<leftarrow>engine_steps M l side p hl q. unat (snd s)) \<le> unat q"
  by (simp add: engine_steps_def match_steps_def steps_of_sum)

text \<open>
  C2: a limit order with a new id and a quantity executes against exactly the orders of the opposite
  side that its price crosses, in price-time priority, each but the last for its whole quantity. The
  fills of the result are written to the caller's span as far as it has room, the rest of the span is
  untouched, and the result counts every fill. After it each of these orders has what its fill left of
  it, and is gone when that is nothing; the leftover rests under the new id at the tail of its price;
  every other order, queue and book is as it was, and the count of orders has followed. The leftover is
  refused only when a limit of the engine is reached.
\<close>

theorem limit_order_fills_by_priority:
  assumes "\<forall>(op, k) \<in> set ops. 13 \<le> k" "engine_run (new_engine L) ops = Some (vs, e)"
    "q \<noteq> 0" "\<forall>b. find_book e l = Some b \<longrightarrow> \<not> book_contains b x" "13 \<le> k"
    "ss = due_steps e l side p True q"
  shows "\<exists>r e' k'. submit_limit e l x side p q out k =
      Done r (e', take (length out) (map fill_of ss) @ drop (length ss) out) k' \<and>
    mr_filled r = (\<Sum>s\<leftarrow>ss. snd s) \<and> mr_fill_count r = of_nat (length ss) \<and>
    mr_fills_truncated r = (length out < length ss) \<and>
    unat (mr_filled r) + unat (mr_resting r) + unat (mr_unfilled r) = unat q \<and>
    (mr_accepted r \<longleftrightarrow> mr_unfilled r = 0) \<and>
    engine_after e l ss
      (if mr_resting r = 0 then None
       else Some \<lparr>view_id = x, view_side = side, view_price = p, view_quantity = mr_resting r\<rparr>) e' \<and>
    (mr_unfilled r \<noteq> 0 \<longrightarrow> mr_resting r = 0 \<and>
      (max_resting_orders L \<le> resting_order_count e' \<or>
       find_book e' l = None \<and> max_instruments L \<le> instrument_count e'))"
proof -
  obtain M where M: "engine_holds e M {}" "limits e = L" by (rule run_ready [OF assms(1,2)])
  have ss: "ss = engine_steps M l side p True q" using due_steps_eq [OF M(1)] assms(6) by simp
  have fresh: "resting (book_at M l) x = None"
  proof (cases "M l")
    case (Some m)
    obtain b where "find_book e l = Some b" "book_holds b m"
      using find_book_Some [OF engine_holdsD(1) [OF M(1)] Some] .
    with assms(4) Some show ?thesis by (simp add: book_at_def book_contains_correct)
  qed (simp add: book_at_def empty_market_def)
  let ?r = "matched_result ss q (length out)"
  obtain r e' k' where r: "submit_limit e l x side p q out k = Done r (e', matched_output ss out) k'"
    "r = fst (spec_limit L {} M l x side p q (length out))"
    "engine_holds e' (snd (spec_limit L {} M l x side p q (length out))) {}"
    "limits e' = limits e" "stats e' = stats e"
    using submit_limit_sat [OF M(1) _ assms(3) fresh, of side p out k] assms(5) M(2)
    by (cases "submit_limit e l x side p q out k") (auto simp: ss)
  note other = submit_limit_other [OF r(1)]
  let ?M = "fill_book ss l M" and ?new = "\<lambda>q. \<lparr>view_id = x, view_side = side, view_price = p, view_quantity = q\<rparr>"
  have "unat (mr_filled ?r) + unat (mr_resting ?r) = unat q"
    using matched_sum engine_steps_sum ss by blast
  moreover consider "r = ?r" "mr_resting r = 0" "engine_holds e' ?M {}"
    | "r = not_rested ?r" "mr_resting ?r \<noteq> 0" "\<not> may_create L {} ?M l" "engine_holds e' ?M {}"
    | "r = ?r" "mr_resting r \<noteq> 0" "engine_holds e' (?M(l \<mapsto>
        rest_order x \<lparr>ro_side = side, ro_price = p, ro_quantity = mr_resting r\<rparr> (book_at ?M l))) {}"
    using r(2,3) by (auto simp: spec_limit_def Let_def ss [symmetric] split: if_splits)
  then have "(r = ?r \<or> r = not_rested ?r \<and> mr_resting ?r \<noteq> 0) \<and>
    engine_after e l ss (if mr_resting r = 0 then None else Some (?new (mr_resting r))) e' \<and>
    (mr_unfilled r \<noteq> 0 \<longrightarrow> mr_resting r = 0 \<and> \<not> can_create_order e' l)"
  proof cases
    case 1
    with engine_after_fills [OF M(1) ss 1(3) r(4,5) other] show ?thesis by (simp add: matched_result_def)
  next
    case 2
    with engine_after_fills [OF M(1) ss 2(4) r(4,5) other] M(2) r(4)
      can_create_order_iff [of e' ?M "{}" l] engine_holdsD [OF 2(4)]
    show ?thesis by (simp add: not_rested_def)
  next
    case 3
    with engine_after_rest [OF M(1) ss fresh 3(3) r(4,5) other] show ?thesis
      by (simp add: market_view_def matched_result_def)
  qed
  ultimately show ?thesis
    using r(1,4) M(2)
    by (auto simp: matched_output_def matched_result_def not_rested_def can_create_order_def not_less
        split: if_splits)
qed

text \<open>An engine with one offer of 50 at 100, for the examples.\<close>

definition one_offer :: "(engine_op \<times> nat) list" where
  "one_offer = [(Submit_Limit 7 1 Sell 100 50 [], 13)]"

lemma one_offer_engine:
  obtains vs e b where "engine_run (new_engine default_limits) one_offer = Some (vs, e)"
    "find_book e 7 = Some b"
    "\<And>x. book_contains b x \<longleftrightarrow> x = 1"
    "\<And>q. 0 < q \<Longrightarrow> q < 50 \<Longrightarrow> due_steps e 7 Buy 120 True q =
      [(\<lparr>view_id = 1, view_side = Sell, view_price = 100, view_quantity = 50\<rparr>, q)]"
    "\<And>q. 0 < q \<Longrightarrow> q < 50 \<Longrightarrow> due_steps e 7 Buy 0 False q =
      [(\<lparr>view_id = 1, view_side = Sell, view_price = 100, view_quantity = 50\<rparr>, q)]"
    "\<exists>r e' k'. submit_limit e 7 2 Buy 90 20 [] 13 = Done r (e', []) k' \<and> mr_resting r = 20"
    "find_order e 7 1 = Some \<lparr>view_id = 1, view_side = Sell, view_price = 100, view_quantity = 50\<rparr>"
    "queue_of e 7 Sell 100 = Some [1]"
proof -
  let ?M = "(\<lambda>_. None) :: markets"
  let ?m = "rest_order 1 \<lparr>ro_side = Sell, ro_price = 100, ro_quantity = 50\<rparr> empty_market"
  have no_steps: "engine_steps ?M 7 Sell 100 True 50 = []" by (simp add: engine_steps_def book_at_def)
  have spec: "snd (spec_limit default_limits {} ?M 7 1 Sell 100 50 0) = ?M(7 \<mapsto> ?m)"
    using may_create_default [of ?M 7]
    by (simp add: spec_limit_def Let_def no_steps fill_book_def matched_result_def book_at_def
        total_size_def size_at_def)
  obtain r e k' where e: "submit_limit (new_engine default_limits) 7 1 Sell 100 50 [] 13 = Done r (e, []) k'"
    "engine_holds e (?M(7 \<mapsto> ?m)) {}" "limits e = default_limits"
    using submit_limit_sat [OF new_engine_holds, of 7 50 1 default_limits Sell 100 "[]" 13]
    by (cases "submit_limit (new_engine default_limits) 7 1 Sell 100 50 [] 13")
      (auto simp: spec book_at_def empty_market_def new_engine_def matched_output_def no_steps)
  have "active_prices Sell ?m = {100}" by (auto simp: active_prices_def rest_order_def empty_market_def)
  then have pri: "priority Sell ?m = [(1, 100, 50)]"
    by (simp add: priority_def ranked_def at_price_def rest_order_def empty_market_def)
  obtain b where b: "find_book e 7 = Some b" "book_holds b ?m"
    using find_book_Some [OF engine_holdsD(1) [OF e(2)], of 7] by auto
  have run: "engine_run (new_engine default_limits) one_offer = Some ([Some (Matched r [])], e)"
    using e(1) by (simp add: one_offer_def engine_step_def)
  have due: "due_steps e 7 Buy p hl q = steps_of Sell (eligible Buy p hl [(1, 100, 50)]) q" for p hl q
    using b by (simp add: due_steps_def book_priority_eq pri)
  have steps: "engine_steps (?M(7 \<mapsto> ?m)) 7 Buy 90 True 20 = []"
    using due_steps_eq [OF e(2), of 7 Buy 90 True 20] by (simp add: due eligible_def crosses_def)
  have "market_size ?m = 1"
    using market_size_simps(2) [of empty_market 1] by (simp only: size_at_empty) (simp add: empty_market_def)
  then have "total_size (?M(7 \<mapsto> ?m)) = 1"
    using total_size_upd [of ?M 7 ?m] by (simp add: total_size_def size_at_def)
  then have may: "may_create default_limits {} (?M(7 \<mapsto> ?m)) 7" by (intro may_create_default) simp
  have rests: "mr_resting (fst (spec_limit default_limits {} (?M(7 \<mapsto> ?m)) 7 2 Buy 90 20 0)) = 20"
    using may by (simp add: spec_limit_def Let_def steps matched_result_def fill_book_def)
  have "resting (book_at (?M(7 \<mapsto> ?m)) 7) 2 = None"
    by (simp add: book_at_def rest_order_def empty_market_def)
  from submit_limit_sat [OF e(2) _ _ this, of 20 Buy 90 "[]" 13] e(3) rests steps
  have rest: "\<exists>r e' k'. submit_limit e 7 2 Buy 90 20 [] 13 = Done r (e', []) k' \<and> mr_resting r = 20"
    by (cases "submit_limit e 7 2 Buy 90 20 [] 13") (auto simp: matched_output_def)
  have order: "find_order e 7 1 = Some \<lparr>view_id = 1, view_side = Sell, view_price = 100, view_quantity = 50\<rparr>"
    and queue: "queue_of e 7 Sell 100 = Some [1]"
    by (simp_all add: find_order_eq [OF e(2)] queue_of_eq [OF e(2)] book_at_def rest_order_def
        market_view_def empty_market_def)
  show thesis
    by (rule that [OF run b(1) _ _ _ rest order queue])
      (simp_all add: due eligible_def crosses_def book_contains_correct [OF b(2)],
       simp add: rest_order_def empty_market_def)
qed

text \<open>A fill of 20 leaves 30 of that offer, in its place.\<close>

lemma one_fill_after:
  assumes "find_order e 7 1 = Some \<lparr>view_id = 1, view_side = Sell, view_price = 100, view_quantity = 50\<rparr>"
    "queue_of e 7 Sell 100 = Some [1]"
    "engine_after e 7 [(\<lparr>view_id = 1, view_side = Sell, view_price = 100, view_quantity = 50\<rparr>, 20)] None e'"
  shows "find_order e' 7 1 = Some \<lparr>view_id = 1, view_side = Sell, view_price = 100, view_quantity = 30\<rparr>"
    "queue_of e' 7 Sell 100 = Some [1]"
proof -
  have orders: "find_order e' 7 y = Option.bind (find_order e 7 y) (after_fills
      [(\<lparr>view_id = 1, view_side = Sell, view_price = 100, view_quantity = 50\<rparr>, 20)])" for y
    using assms(3) by (simp add: engine_after_def)
  show one: "find_order e' 7 1 = Some \<lparr>view_id = 1, view_side = Sell, view_price = 100, view_quantity = 30\<rparr>"
    using orders [of 1] assms(1) by (simp add: after_fills_def)
  have "\<exists>ys. queue_of e 7 Sell 100 = Some ys \<and>
      queue_of e' 7 Sell 100 = Some (filter (\<lambda>y. find_order e' 7 y \<noteq> None) ys)"
    using assms(3) unfolding engine_after_def option.case append_Nil2 by blast
  with one assms(2) show "queue_of e' 7 Sell 100 = Some [1]" by simp
qed

lemma limit_order_fills_by_priority_witness:
  "\<exists>vs e r e' k'. engine_run (new_engine default_limits) one_offer = Some (vs, e) \<and>
     submit_limit e 7 2 Buy 120 20 [\<lparr>fill_resting_order = 0, fill_price = 0, fill_quantity = 0\<rparr>] 13 =
       Done r (e', [\<lparr>fill_resting_order = 1, fill_price = 100, fill_quantity = 20\<rparr>]) k' \<and>
     mr_filled r = 20 \<and> mr_fill_count r = 1 \<and> \<not> mr_fills_truncated r \<and>
     find_order e' 7 1 = Some \<lparr>view_id = 1, view_side = Sell, view_price = 100, view_quantity = 30\<rparr> \<and>
     queue_of e' 7 Sell 100 = Some [1]"
proof -
  obtain vs e b where e: "engine_run (new_engine default_limits) one_offer = Some (vs, e)"
    "find_book e 7 = Some b" "\<And>x. book_contains b x \<longleftrightarrow> x = 1"
    "\<And>q. 0 < q \<Longrightarrow> q < 50 \<Longrightarrow> due_steps e 7 Buy 120 True q =
      [(\<lparr>view_id = 1, view_side = Sell, view_price = 100, view_quantity = 50\<rparr>, q)]"
    and old: "find_order e 7 1 = Some \<lparr>view_id = 1, view_side = Sell, view_price = 100, view_quantity = 50\<rparr>"
      "queue_of e 7 Sell 100 = Some [1]"
    by (rule one_offer_engine) blast
  have "\<forall>(op, k) \<in> set one_offer. 13 \<le> k" by (simp add: one_offer_def)
  from limit_order_fills_by_priority [OF this e(1), of 20 7 2 13 _ Buy 120
      "[\<lparr>fill_resting_order = 0, fill_price = 0, fill_quantity = 0\<rparr>]", OF _ _ _ refl] e
  obtain r e' k' where r: "submit_limit e 7 2 Buy 120 20
      [\<lparr>fill_resting_order = 0, fill_price = 0, fill_quantity = 0\<rparr>] 13 =
      Done r (e', [\<lparr>fill_resting_order = 1, fill_price = 100, fill_quantity = 20\<rparr>]) k'"
    "mr_filled r = 20" "mr_fill_count r = 1" "\<not> mr_fills_truncated r" "mr_resting r = 0"
    "engine_after e 7 [(\<lparr>view_id = 1, view_side = Sell, view_price = 100, view_quantity = 50\<rparr>, 20)] None e'"
    by (auto simp: fill_of_def unsigned_eq_0_iff)
  with one_fill_after [OF old r(6)] e(1) show ?thesis by auto
qed

text \<open>What is left of a matched quantity finds no order it could be filled with.\<close>

lemma leftover_not_eligible:
  assumes "engine_holds e M Z" "ss = engine_steps M l side p hl q" "q - (\<Sum>s\<leftarrow>ss. snd s) \<noteq> 0"
  shows "eligible side p hl (priority (opposite side) (book_at (fill_book ss l M) l)) = []"
proof (cases "M l")
  case None
  have "priority (opposite side) empty_market = []"
    by (simp add: priority_Nil_iff active_prices_def empty_market_def)
  with None show ?thesis by (simp add: fill_book_def book_at_def eligible_def)
next
  case (Some m)
  obtain b where b: "find_book e l = Some b" "book_holds b m"
    using find_book_Some [OF engine_holdsD(1) [OF assms(1)] Some] .
  from match_loop_correct [of "\<lparr>ms_book = b, ms_remaining = q, ms_result = new_result,
      ms_output = [], ms_count = 0\<rparr>", OF _ refl, of m side p hl] b(2)
  obtain b' where "match_result_ok side p hl m q b'" by auto
  moreover have "ss = match_steps side p hl m q" using Some assms(2) by (simp add: engine_steps_def book_at_def)
  ultimately show ?thesis using Some assms(3)
    by (simp add: match_result_ok_def fill_book_def book_at_def Let_def)
qed

lemma no_eligible_best:
  assumes "market_inv m" "eligible side p True (priority s m) = []" "market_best s m = Some p'"
  shows "\<not> crosses side p p'"
proof -
  have "priority s m \<noteq> []" using assms(3) by (auto simp: priority_Nil_iff market_best_of)
  then obtain x p1 r L where L: "priority s m = (x, p1, r) # L" by (metis neq_Nil_conv prod_cases3)
  with priority_Cons(1) [OF assms(1) L] assms(2,3) show ?thesis
    by (simp add: eligible_def split: if_splits)
qed

text \<open>
  C15: when a limit order leaves a resting quantity, it rests under its id at its price with that
  quantity, and the best opposite price no longer crosses it: submitting never leaves a book crossed
  by the new order.
\<close>

theorem resting_limit_order_does_not_cross:
  assumes "\<forall>(op, k) \<in> set ops. 13 \<le> k" "engine_run (new_engine L) ops = Some (vs, e)" "13 \<le> k"
    "submit_limit e l x side p q out k = Done r (e', out') k'" "mr_resting r \<noteq> 0"
  shows "\<exists>b best. find_book e' l = Some b \<and>
    book_order b x = Some \<lparr>view_id = x, view_side = side, view_price = p, view_quantity = mr_resting r\<rparr> \<and>
    best_price (opposite side) b = Some best \<and>
    (case best of None \<Rightarrow> True | Some p' \<Rightarrow> \<not> crosses side p p')"
proof -
  obtain M where M: "engine_holds e M {}" "limits e = L" by (rule run_ready [OF assms(1,2)])
  have ok: "q \<noteq> 0" "resting (book_at M l) x = None"
    using submit_limit_refused [OF M(1), of q l x side p out k] assms(4,5)
    by (cases "q = 0 \<or> resting (book_at M l) x \<noteq> None"; simp add: new_result_def; auto)+
  define ss where "ss = engine_steps M l side p True q"
  let ?r = "matched_result ss q (length out)" and ?m = "book_at (fill_book ss l M) l"
  let ?od = "\<lparr>ro_side = side, ro_price = p, ro_quantity = mr_resting r\<rparr>"
  have spec: "r = fst (spec_limit L {} M l x side p q (length out))"
    "engine_holds e' (snd (spec_limit L {} M l x side p q (length out))) {}"
    using submit_limit_sat [OF M(1) _ ok, of side p out k] assms(4) M(2) by auto
  then have "r = ?r" "mr_resting ?r \<noteq> 0"
    "snd (spec_limit L {} M l x side p q (length out)) = (fill_book ss l M)(l \<mapsto> rest_order x ?od ?m)"
    using assms(5) by (auto simp: spec_limit_def Let_def ss_def [symmetric] not_rested_def split: if_splits)
  with spec(2) obtain b where b: "find_book e' l = Some b" "book_holds b (rest_order x ?od ?m)"
    using find_book_Some [of e' _ "{}" l] engine_holdsD(1) by (metis fun_upd_same)
  have other: "queue (rest_order x ?od ?m) (opposite side) = queue ?m (opposite side)"
    by (cases side) (simp_all add: rest_order_def fun_eq_iff)
  then have "active_prices (opposite side) (rest_order x ?od ?m) = active_prices (opposite side) ?m"
    by (simp add: active_prices_def)
  then have best: "market_best (opposite side) (rest_order x ?od ?m) = market_best (opposite side) ?m"
    by (simp add: market_best_of)
  have inv: "market_inv ?m"
  proof (cases "M l")
    case (Some m)
    obtain e1 where "engine_holds e1 (fill_book ss l M) {}"
      using match_orders_sat [OF M(1) ss_def] by blast
    moreover obtain m1 where "fill_book ss l M l = Some m1" using Some by (simp add: fill_book_def)
    ultimately show ?thesis
      using find_book_Some engine_holdsD(1) book_stateD(1) by (metis book_at_def option.case(2))
  qed (simp add: fill_book_def book_at_def)
  have "q - (\<Sum>s\<leftarrow>ss. snd s) \<noteq> 0" using \<open>mr_resting ?r \<noteq> 0\<close> by (simp add: matched_result_def)
  from no_eligible_best [OF inv leftover_not_eligible [OF M(1) ss_def this]] b best
  have "case market_best (opposite side) (rest_order x ?od ?m) of None \<Rightarrow> True | Some p' \<Rightarrow> \<not> crosses side p p'"
    by (simp split: option.splits)
  moreover have "book_order b x =
    Some \<lparr>view_id = x, view_side = side, view_price = p, view_quantity = mr_resting r\<rparr>"
    using book_order_correct [OF b(2), of x] by (simp add: rest_order_def market_view_def)
  ultimately show ?thesis using b(1) best_price_correct [OF b(2)] by blast
qed

lemma resting_limit_order_does_not_cross_witness:
  "\<exists>vs e r e' out' k' b. engine_run (new_engine default_limits) one_offer = Some (vs, e) \<and>
     submit_limit e 7 2 Buy 90 20 [] 13 = Done r (e', out') k' \<and>
     find_book e' 7 = Some b \<and> best_price Sell b \<noteq> None \<and>
     book_order b 2 = Some \<lparr>view_id = 2, view_side = Buy, view_price = 90, view_quantity = 20\<rparr>"
proof -
  obtain vs e r e' k' where e: "engine_run (new_engine default_limits) one_offer = Some (vs, e)"
    "submit_limit e 7 2 Buy 90 20 [] 13 = Done r (e', []) k'" "mr_resting r = 20"
    by (rule one_offer_engine) blast
  have "\<forall>(op, k) \<in> set one_offer. 13 \<le> k" by (simp add: one_offer_def)
  from resting_limit_order_does_not_cross [OF this e(1) _ e(2)] e(3)
  obtain b best where "find_book e' 7 = Some b" "best_price Sell b = Some best"
    "book_order b 2 = Some \<lparr>view_id = 2, view_side = Buy, view_price = 90, view_quantity = 20\<rparr>"
    by auto
  with e show ?thesis by blast
qed

text \<open>
  C22: a market order fills against the opposite side in price-time priority with no price limit, and
  never rests: what it does not fill it reports as unfilled, and if anything is unfilled the opposite
  side is empty. After it each order it met has what its fill left of it, no order is new, and every
  other order, queue and book is as it was.
\<close>

theorem market_order_fills_or_reports:
  assumes "\<forall>(op, k) \<in> set ops. 13 \<le> k" "engine_run (new_engine L) ops = Some (vs, e)" "q \<noteq> 0"
    "ss = due_steps e l side 0 False q"
  shows "\<exists>r e'. submit_market e l side q out =
      Some (r, e', take (length out) (map fill_of ss) @ drop (length ss) out) \<and>
    mr_accepted r \<and> mr_resting r = 0 \<and> mr_filled r = (\<Sum>s\<leftarrow>ss. snd s) \<and>
    unat (mr_filled r) + unat (mr_unfilled r) = unat q \<and>
    (\<forall>b. mr_unfilled r \<noteq> 0 \<longrightarrow> find_book e' l = Some b \<longrightarrow>
      best_price (opposite side) b = Some None) \<and>
    engine_after e l ss None e'"
proof -
  obtain M where M: "engine_holds e M {}" "limits e = L" by (rule run_ready [OF assms(1,2)])
  have ss: "ss = engine_steps M l side 0 False q" using due_steps_eq [OF M(1)] assms(4) by simp
  let ?r = "matched_result ss q (length out)"
  obtain e' where e': "submit_market e l side q out =
      Some (?r\<lparr>mr_unfilled := mr_resting ?r, mr_resting := 0\<rparr>, e', matched_output ss out)"
    "engine_holds e' (fill_book ss l M) {}" "limits e' = limits e" "stats e' = stats e"
    using submit_market_sat [OF M(1) assms(3) ss] by blast
  note after = engine_after_fills [OF M(1) ss e'(2-4) submit_market_other [OF e'(1)]]
  have "best_price (opposite side) b = Some None"
    if ne: "mr_resting ?r \<noteq> 0" and fb: "find_book e' l = Some b" for b
  proof -
    obtain m where m: "fill_book ss l M l = Some m"
      using find_book_None [OF engine_holdsD(1) [OF e'(2)], of l] fb by auto
    then have b: "book_holds b m"
      using find_book_Some [OF engine_holdsD(1) [OF e'(2)] m] fb by (metis option.inject)
    have "q - (\<Sum>s\<leftarrow>ss. snd s) \<noteq> 0" using ne by (simp add: matched_result_def)
    from leftover_not_eligible [OF M(1) ss this] m
    have "priority (opposite side) m = []"
      by (cases "priority (opposite side) m") (auto simp: book_at_def eligible_def)
    with b show ?thesis by (rule matching.no_best)
  qed
  moreover have "unat (mr_filled ?r) + unat (mr_resting ?r) = unat q"
    using matched_sum engine_steps_sum ss by blast
  ultimately show ?thesis
    using e'(1) after by (auto simp: matched_output_def matched_result_def)
qed

lemma market_order_fills_or_reports_witness:
  "\<exists>vs e r e'. engine_run (new_engine default_limits) one_offer = Some (vs, e) \<and>
     submit_market e 7 Buy 20 [] = Some (r, e', []) \<and> mr_filled r = 20 \<and> mr_unfilled r = 0 \<and>
     find_order e' 7 1 = Some \<lparr>view_id = 1, view_side = Sell, view_price = 100, view_quantity = 30\<rparr> \<and>
     queue_of e' 7 Sell 100 = Some [1]"
proof -
  obtain vs e b where e: "engine_run (new_engine default_limits) one_offer = Some (vs, e)"
    "find_book e 7 = Some b"
    "\<And>q. 0 < q \<Longrightarrow> q < 50 \<Longrightarrow> due_steps e 7 Buy 0 False q =
      [(\<lparr>view_id = 1, view_side = Sell, view_price = 100, view_quantity = 50\<rparr>, q)]"
    and old: "find_order e 7 1 = Some \<lparr>view_id = 1, view_side = Sell, view_price = 100, view_quantity = 50\<rparr>"
      "queue_of e 7 Sell 100 = Some [1]"
    by (rule one_offer_engine) blast
  have "\<forall>(op, k) \<in> set one_offer. 13 \<le> k" by (simp add: one_offer_def)
  from market_order_fills_or_reports [OF this e(1), of 20 _ 7 Buy "[]", OF _ refl] e
  obtain r e' where r: "submit_market e 7 Buy 20 [] = Some (r, e', [])" "mr_filled r = 20" "mr_unfilled r = 0"
    "engine_after e 7 [(\<lparr>view_id = 1, view_side = Sell, view_price = 100, view_quantity = 50\<rparr>, 20)] None e'"
    by (auto simp: unsigned_eq_0_iff)
  with one_fill_after [OF old r(4)] e(1) show ?thesis by auto
qed

subsection \<open>Exceptions\<close>

text \<open>How the number of instruments follows the books that are there.\<close>

lemma instrument_count_insert:
  assumes "books_hold e M Z" "books_hold e' M' Z'"
    "dom M' \<union> Z' = dom M \<union> Z \<or> l \<notin> dom M \<union> Z \<and> dom M' \<union> Z' = insert l (dom M \<union> Z)"
  shows "instrument_count e' = instrument_count e \<or>
    find_book e l = None \<and> instrument_count e' = instrument_count e + 1"
  using assms(3)
proof
  assume "dom M' \<union> Z' = dom M \<union> Z"
  then show ?thesis
    using instrument_count_eq [OF assms(1)] instrument_count_eq [OF assms(2)] by (simp add: word_unat_eq_iff)
next
  assume new: "l \<notin> dom M \<union> Z \<and> dom M' \<union> Z' = insert l (dom M \<union> Z)"
  then have "unat (instrument_count e') = Suc (unat (instrument_count e))"
    using instrument_count_eq [OF assms(1)] instrument_count_eq [OF assms(2)] by simp
  then have "instrument_count e' = instrument_count e + 1"
    using count_up [OF refl, of "instrument_count e" "instrument_count e'"] by (simp add: word_unat_eq_iff)
  with new show ?thesis using find_book_None [OF assms(1)] by auto
qed

lemma found_holds:
  assumes "books_hold e M Z" "find_book e l = Some b"
  obtains m where "M l = Some m" "book_holds b m"
proof -
  obtain m where m: "M l = Some m" using assms find_book_None [OF assms(1), of l] by auto
  moreover have "book_holds b m" using find_book_Some [OF assms(1) m] assms(2) by (metis option.inject)
  ultimately show thesis by (rule that)
qed

text \<open>
  C29: an event whose processing runs out of memory throws only when fewer than thirteen requests for
  memory were granted, and leaves every order of every instrument, every observation of every book that
  was there (depths included), the limits and the counter of resting orders as they were. What may
  differ is stated: the event is counted as a message and by no outcome, and the instrument it names,
  when it had no book, may now be counted, with a null entry or an empty book.
\<close>

theorem engine_exception_keeps_orders:
  assumes "\<forall>(op, k) \<in> set ops. 13 \<le> k" "engine_run (new_engine L) ops = Some (vs, e)"
    "engine_apply e ev k = Thrown e'"
  shows "k < 13 \<and> resting_order_count e' = resting_order_count e \<and>
    (\<forall>l x. find_order e' l x = find_order e l x) \<and>
    (\<forall>l b. find_book e l = Some b \<longrightarrow> (\<exists>b'. find_book e' l = Some b' \<and> unchanged b b')) \<and>
    limits e' = limits e \<and> stats e' = (stats e)\<lparr>st_messages := st_messages (stats e) + 1\<rparr> \<and>
    (instrument_count e' = instrument_count e \<or>
     find_book e (event_locate ev) = None \<and> instrument_count e' = instrument_count e + 1) \<and>
    (\<forall>l b. find_book e l = None \<longrightarrow> find_book e' l = Some b \<longrightarrow>
      l = event_locate ev \<and> unchanged new_book b)"
proof -
  obtain M where M: "engine_holds e M {}" "limits e = L" by (rule run_ready [OF assms(1,2)])
  have "thrown_as (bump_stats bump_messages e) M {} (event_locate ev) e'" "k < 13"
    using engine_apply_sat [OF M(1), of ev k] assms(3) by auto
  then obtain M' Z where M': "engine_holds e' M' Z" "M' = M \<or> M (event_locate ev) = None \<and>
      M' = M(event_locate ev \<mapsto> empty_market)"
    and rest: "limits e' = limits e" "stats e' = bump_messages (stats e)"
    and dom: "dom M' \<union> Z = dom M \<or> M (event_locate ev) = None \<and> dom M' \<union> Z = insert (event_locate ev) (dom M)"
    unfolding thrown_as_def by fastforce
  have "size_at M' l = size_at M l" for l using M'(2) by (auto simp: size_at_def)
  then have "total_size M' = total_size M" by (simp add: total_size_def)
  then have count: "resting_order_count e' = resting_order_count e"
    using engine_holdsD(2) [OF M(1)] engine_holdsD(2) [OF M'(1)] by (simp add: word_unat_eq_iff)
  have "book_at M' l = book_at M l" for l using M'(2) by (auto simp: book_at_def)
  then have orders: "find_order e' l x = find_order e l x" for l x
    by (simp add: find_order_eq [OF M(1)] find_order_eq [OF M'(1)])
  note h = engine_holdsD(1) [OF M(1)] engine_holdsD(1) [OF M'(1)]
  have "\<exists>b'. find_book e' l = Some b' \<and> unchanged b b'" if fb: "find_book e l = Some b" for l b
  proof -
    obtain m where m: "M l = Some m" "book_holds b m" by (rule found_holds [OF h(1) fb])
    then have "M' l = Some m" using M'(2) by auto
    with m show ?thesis using find_book_Some [OF h(2)] unchangedI by metis
  qed
  moreover have "instrument_count e' = instrument_count e \<or>
      find_book e (event_locate ev) = None \<and> instrument_count e' = instrument_count e + 1"
    using dom by (intro instrument_count_insert [OF h]) auto
  moreover have "l = event_locate ev \<and> unchanged new_book b"
    if fb: "find_book e l = None" "find_book e' l = Some b" for l b
  proof -
    obtain m where "M' l = Some m" "book_holds b m" by (rule found_holds [OF h(2) fb(2)])
    moreover have "M l = None" using fb(1) find_book_None [OF h(1)] by simp
    ultimately have "l = event_locate ev" "book_holds b empty_market" using M'(2) by (auto split: if_splits)
    then show ?thesis using unchangedI [OF new_book_holds] by blast
  qed
  ultimately show ?thesis using count orders \<open>k < 13\<close> rest by (simp add: bump_messages_def)
qed

definition example_event :: itch_event where
  "example_event = AddOrder
     \<lparr>ao_header = \<lparr>mh_stock_locate = 7, mh_tracking_number = 0, mh_timestamp = 1\<rparr>,
      ao_order_reference = 1, ao_side = Buy, ao_shares = 5, ao_stock = [], ao_price = 100\<rparr>"

lemma failed_ensure:
  "engine_apply (new_engine default_limits) example_event 2 =
     Thrown (set_entry (bump_stats bump_messages (new_engine default_limits)) 7 None)"
proof -
  have "bump_messages = (\<lambda>s. s\<lparr>st_messages := st_messages s + 1\<rparr>)"
    by (simp add: fun_eq_iff bump_messages_def)
  then show ?thesis
    by (simp add: engine_apply_def visit_def example_event_def apply_add_def can_create_order_def
        new_engine_def default_limits_def bump_stats_def find_book_def instrument_count_def
        ensure_book_def Let_def word_gt_0 fcard.rep_eq numeral_2_eq_2)
qed

lemma engine_exception_keeps_orders_witness:
  "\<exists>e'. engine_apply (new_engine default_limits) example_event 2 = Thrown e' \<and>
     resting_order_count e' = 0 \<and> (\<forall>l x. find_order e' l x = None)"
proof -
  have "engine_run (new_engine default_limits) [] = Some ([], new_engine default_limits)" by simp
  from engine_exception_keeps_orders [OF _ this failed_ensure] failed_ensure show ?thesis
    by (auto simp: new_engine_def find_order_def find_book_def)
qed

text \<open>
  C30: the exception of \<^verbatim>\<open>ensure_book\<close> leaves a null entry behind: the instrument counts
  as one although it has no book, and the next add for it dereferences the null pointer, whatever
  memory there is by then.
\<close>

theorem failed_allocation_leaves_null_book:
  "\<exists>e'. engine_apply (new_engine default_limits) example_event 2 = Thrown e' \<and>
     find_book e' 7 = None \<and> instrument_count e' = 1 \<and>
     engine_apply e' example_event k = Undefined"
proof -
  let ?e = "set_entry (bump_stats bump_messages (new_engine default_limits)) 7 None"
  have "find_book ?e 7 = None" "instrument_count ?e = 1" "fmlookup (books ?e) 7 = Some None"
    by (simp_all add: instrument_count_def set_entry_def bump_stats_def new_engine_def find_book_def fcard.rep_eq)
  moreover have "(1 :: size_t) < - 1"
    by (simp add: word_less_nat_alt unsigned_minus_1_eq_mask mask_eq_exp_minus_1)
  then have "engine_apply ?e example_event k = Undefined"
    by (simp add: engine_apply_def visit_def example_event_def apply_add_def can_create_order_def
        default_limits_def find_book_def instrument_count_def ensure_book_def new_engine_def
        set_entry_def bump_stats_def word_gt_0 fcard.rep_eq)
  ultimately show ?thesis using failed_ensure by blast
qed

end
