(* ===== verification/Spsc_Ring.thy ===== *)
theory Spsc_Ring
  imports Prelude
begin

section \<open>The single-producer single-consumer ring\<close>

text \<open>
  The class template \<^verbatim>\<open>SpscRing\<close> (\<^verbatim>\<open>include/lob/spsc_ring.hpp\<close>) under the
  release and acquire orders the code asks for. Each index is an atomic with one writer, so its
  modification order is the list of its stores, the initial zero first. A load picks a store that is
  not older than what its thread has seen. A store carries what the storing thread had seen of the
  other index, and a load that acquires it learns that too.

  A slot is raw storage or holds an object, and remembers the next store of the thread that touched
  it last. The other thread may touch it only once it has acquired that store; anything else is a
  data race. Races, objects used outside of their lifetime and slots outside of the array are
  undefined behaviour, the value \<open>None\<close>.
\<close>

subsection \<open>State\<close>

datatype 'a slot = Raw nat | Live 'a nat | Moved nat

record index_store =
  stored :: size_t
  seen :: nat

record 'a ring =
  capacity :: size_t
  mask_bits :: size_t
  slots :: "'a slot list"
  write_stores :: "index_store list"
  read_stores :: "index_store list"

datatype ring_error = Invalid_Argument | Bad_Alloc

definition valid_capacity :: "size_t \<Rightarrow> bool" where
  "valid_capacity n \<longleftrightarrow> \<not> (n = 0 \<or> n AND (n - 1) \<noteq> 0)"

definition allocate_slots :: "bool \<Rightarrow> size_t \<Rightarrow> ring_error + 'a slot list" where
  "allocate_slots memory n =
     (if \<not> valid_capacity n then Inl Invalid_Argument
      else if \<not> memory then Inl Bad_Alloc
      else Inr (replicate (unat n) (Raw 0)))"

definition first_store :: index_store where
  "first_store = \<lparr>stored = 0, seen = 0\<rparr>"

definition new_ring :: "bool \<Rightarrow> size_t \<Rightarrow> ring_error + 'a ring" where
  "new_ring memory n =
     (case allocate_slots memory n of
        Inl err \<Rightarrow> Inl err
      | Inr ss \<Rightarrow> Inr \<lparr>capacity = n, mask_bits = n - 1, slots = ss,
          write_stores = [first_store], read_stores = [first_store]\<rparr>)"

subsection \<open>Memory\<close>

definition slot_at :: "'a ring \<Rightarrow> size_t \<Rightarrow> nat" where
  "slot_at q i = unat (i AND mask_bits q)"

text \<open>
  Placement new into a slot, moving an object out of it and ending its lifetime. \<open>k\<close> is how
  many stores of the other thread the acting thread has acquired.
\<close>

definition construct :: "'a ring \<Rightarrow> nat \<Rightarrow> size_t \<Rightarrow> 'a \<Rightarrow> 'a ring option" where
  "construct q k i v =
     (if slot_at q i < length (slots q) then
        (case slots q ! slot_at q i of
           Raw e \<Rightarrow>
             if e \<le> k
             then Some (q\<lparr>slots := (slots q)[slot_at q i := Live v (length (write_stores q))]\<rparr>)
             else None
         | _ \<Rightarrow> None)
      else None)"

definition move_out :: "'a ring \<Rightarrow> nat \<Rightarrow> size_t \<Rightarrow> ('a \<times> 'a ring) option" where
  "move_out q k i =
     (if slot_at q i < length (slots q) then
        (case slots q ! slot_at q i of
           Live v e \<Rightarrow>
             if e \<le> k
             then Some (v, q\<lparr>slots := (slots q)[slot_at q i := Moved (length (read_stores q))]\<rparr>)
             else None
         | _ \<Rightarrow> None)
      else None)"

definition destroy_moved :: "'a ring \<Rightarrow> size_t \<Rightarrow> 'a ring option" where
  "destroy_moved q i =
     (if slot_at q i < length (slots q) then
        (case slots q ! slot_at q i of
           Moved e \<Rightarrow> Some (q\<lparr>slots := (slots q)[slot_at q i := Raw e]\<rparr>)
         | _ \<Rightarrow> None)
      else None)"

definition own_index :: "index_store list \<Rightarrow> size_t" where
  "own_index ms = stored (last ms)"

definition store_write :: "'a ring \<Rightarrow> size_t \<Rightarrow> nat \<Rightarrow> 'a ring" where
  "store_write q i k = q\<lparr>write_stores := write_stores q @ [\<lparr>stored = i, seen = k\<rparr>]\<rparr>"

definition store_read :: "'a ring \<Rightarrow> size_t \<Rightarrow> nat \<Rightarrow> 'a ring" where
  "store_read q i k = q\<lparr>read_stores := read_stores q @ [\<lparr>stored = i, seen = k\<rparr>]\<rparr>"

subsection \<open>Threads\<close>

text \<open>
  The calls of the two threads and the points between their accesses to shared memory. A third
  thread takes snapshots with \<^verbatim>\<open>size\<close>.
\<close>

datatype 'a producer_call = Emplace 'a | Full

datatype 'a producer_point =
    P_Ready
  | P_Own "'a producer_call" size_t
  | P_Loaded "'a producer_call" size_t size_t
  | P_Built 'a size_t

datatype consumer_call = Try_Pop | Empty

datatype 'a consumer_point =
    C_Ready
  | C_Own consumer_call size_t
  | C_Loaded consumer_call size_t size_t
  | C_Moved 'a size_t
  | C_Destroyed 'a size_t

datatype observer_point = O_Ready | O_Before | O_Read size_t

record 'a ring_system =
  shared :: "'a ring"
  producer :: "'a producer_point"
  producer_view :: nat
  consumer :: "'a consumer_point"
  consumer_view :: nat
  observer :: observer_point
  observer_writes :: nat
  observer_reads :: nat

definition start :: "'a ring \<Rightarrow> 'a ring_system" where
  "start q = \<lparr>shared = q, producer = P_Ready, producer_view = 0, consumer = C_Ready,
     consumer_view = 0, observer = O_Ready, observer_writes = 0, observer_reads = 0\<rparr>"

text \<open>What a step returns to its caller.\<close>

datatype 'a ring_event =
    Silent
  | Pushed 'a
  | Push_Failed
  | Push_Threw
  | Full_Is bool
  | Popped 'a
  | Pop_Failed
  | Empty_Is bool
  | Size_Is size_t

text \<open>What the two queries answer of the indices they have loaded.\<close>

definition ring_full :: "'a ring \<Rightarrow> size_t \<Rightarrow> size_t \<Rightarrow> bool" where
  [simp]: "ring_full q w r \<longleftrightarrow> w - r = capacity q"

definition ring_empty :: "size_t \<Rightarrow> size_t \<Rightarrow> bool" where
  [simp]: "ring_empty r w \<longleftrightarrow> r = w"

text \<open>The stores a load may read from, when its thread has seen those before \<open>k\<close>.\<close>

definition loadable :: "index_store list \<Rightarrow> nat \<Rightarrow> nat \<Rightarrow> bool" where
  "loadable ms k i \<longleftrightarrow> k \<le> i \<and> i < length ms"

inductive producer_step :: "'a ring_system \<Rightarrow> 'a ring_event \<Rightarrow> 'a ring_system option \<Rightarrow> bool" where
  load_own_write:
    "producer s = P_Ready \<Longrightarrow>
     producer_step s Silent (Some (s\<lparr>producer := P_Own c (own_index (write_stores (shared s)))\<rparr>))"
| acquire_read:
    "producer s = P_Own c w \<Longrightarrow> loadable (read_stores (shared s)) (producer_view s) i \<Longrightarrow>
     producer_step s Silent
       (Some (s\<lparr>producer := P_Loaded c w (stored (read_stores (shared s) ! i)), producer_view := i\<rparr>))"
| report_full:
    "producer s = P_Loaded Full w r \<Longrightarrow>
     producer_step s (Full_Is (ring_full (shared s) w r)) (Some (s\<lparr>producer := P_Ready\<rparr>))"
| push_fails:
    "producer s = P_Loaded (Emplace v) w r \<Longrightarrow> w - r = capacity (shared s) \<Longrightarrow>
     producer_step s Push_Failed (Some (s\<lparr>producer := P_Ready\<rparr>))"
| construct_object:
    "producer s = P_Loaded (Emplace v) w r \<Longrightarrow> w - r \<noteq> capacity (shared s) \<Longrightarrow>
     producer_step s Silent
       (map_option (\<lambda>q. s\<lparr>shared := q, producer := P_Built v w\<rparr>)
         (construct (shared s) (producer_view s) w v))"
| construct_throws:
    "producer s = P_Loaded (Emplace v) w r \<Longrightarrow> w - r \<noteq> capacity (shared s) \<Longrightarrow>
     producer_step s Push_Threw (Some (s\<lparr>producer := P_Ready\<rparr>))"
| release_write:
    "producer s = P_Built v w \<Longrightarrow>
     producer_step s (Pushed v)
       (Some (s\<lparr>shared := store_write (shared s) (w + 1) (producer_view s), producer := P_Ready\<rparr>))"

inductive consumer_step :: "'a ring_system \<Rightarrow> 'a ring_event \<Rightarrow> 'a ring_system option \<Rightarrow> bool" where
  load_own_read:
    "consumer s = C_Ready \<Longrightarrow>
     consumer_step s Silent (Some (s\<lparr>consumer := C_Own d (own_index (read_stores (shared s)))\<rparr>))"
| acquire_write:
    "consumer s = C_Own d r \<Longrightarrow> loadable (write_stores (shared s)) (consumer_view s) i \<Longrightarrow>
     consumer_step s Silent
       (Some (s\<lparr>consumer := C_Loaded d r (stored (write_stores (shared s) ! i)), consumer_view := i\<rparr>))"
| report_empty:
    "consumer s = C_Loaded Empty r w \<Longrightarrow>
     consumer_step s (Empty_Is (ring_empty r w)) (Some (s\<lparr>consumer := C_Ready\<rparr>))"
| pop_fails:
    "consumer s = C_Loaded Try_Pop r w \<Longrightarrow> r = w \<Longrightarrow>
     consumer_step s Pop_Failed (Some (s\<lparr>consumer := C_Ready\<rparr>))"
| move_object:
    "consumer s = C_Loaded Try_Pop r w \<Longrightarrow> r \<noteq> w \<Longrightarrow>
     consumer_step s Silent
       (map_option (\<lambda>(v, q). s\<lparr>shared := q, consumer := C_Moved v r\<rparr>)
         (move_out (shared s) (consumer_view s) r))"
| destroy_object:
    "consumer s = C_Moved v r \<Longrightarrow>
     consumer_step s Silent
       (map_option (\<lambda>q. s\<lparr>shared := q, consumer := C_Destroyed v r\<rparr>) (destroy_moved (shared s) r))"
| release_read:
    "consumer s = C_Destroyed v r \<Longrightarrow>
     consumer_step s (Popped v)
       (Some (s\<lparr>shared := store_read (shared s) (r + 1) (consumer_view s), consumer := C_Ready\<rparr>))"

inductive observer_step :: "'a ring_system \<Rightarrow> 'a ring_event \<Rightarrow> 'a ring_system option \<Rightarrow> bool" where
  size_before:
    "observer s = O_Ready \<Longrightarrow> loadable (write_stores (shared s)) (observer_writes s) i \<Longrightarrow>
     observer_step s Silent
       (Some (s\<lparr>observer := O_Before, observer_writes := i,
          observer_reads := max (observer_reads s) (seen (write_stores (shared s) ! i))\<rparr>))"
| size_read:
    "observer s = O_Before \<Longrightarrow> loadable (read_stores (shared s)) (observer_reads s) i \<Longrightarrow>
     observer_step s Silent
       (Some (s\<lparr>observer := O_Read (stored (read_stores (shared s) ! i)), observer_reads := i,
          observer_writes := max (observer_writes s) (seen (read_stores (shared s) ! i))\<rparr>))"
| size_write:
    "observer s = O_Read r \<Longrightarrow> loadable (write_stores (shared s)) (observer_writes s) i \<Longrightarrow>
     used = stored (write_stores (shared s) ! i) - r \<Longrightarrow>
     observer_step s (Size_Is (if used \<le> capacity (shared s) then used else capacity (shared s)))
       (Some (s\<lparr>observer := O_Ready, observer_writes := i,
          observer_reads := max (observer_reads s) (seen (write_stores (shared s) ! i))\<rparr>))"

text \<open>Any of the three threads takes the next step.\<close>

inductive ring_step :: "'a ring_system \<Rightarrow> 'a ring_event \<Rightarrow> 'a ring_system option \<Rightarrow> bool" where
  by_producer: "producer_step s ev t \<Longrightarrow> ring_step s ev t"
| by_consumer: "consumer_step s ev t \<Longrightarrow> ring_step s ev t"
| by_observer: "observer_step s ev t \<Longrightarrow> ring_step s ev t"

inductive_cases ring_stepE: "ring_step s ev t"

inductive_cases push_failsE: "producer_step s Push_Failed t"
inductive_cases full_isE: "producer_step s (Full_Is b) t"
inductive_cases pop_failsE: "consumer_step s Pop_Failed t"
inductive_cases empty_isE: "consumer_step s (Empty_Is b) t"
inductive_cases size_isE: "observer_step s (Size_Is z) t"

text \<open>
  The consumer acquires a store of another atomic that the producer released after its \<open>k\<close>-th
  store to the write index.
\<close>

definition learn_writes :: "nat \<Rightarrow> 'a ring_system \<Rightarrow> 'a ring_system" where
  "learn_writes k s = s\<lparr>consumer_view := max (consumer_view s) k\<rparr>"

lemma Some_map_option [simp]: "Some t = map_option f x \<longleftrightarrow> (\<exists>z. x = Some z \<and> t = f z)"
  by (cases x) auto

text \<open>A run of the three threads, with the events it returned.\<close>

definition ring_run :: "'a ring_system \<Rightarrow> 'a ring_event list \<Rightarrow> 'a ring_system \<Rightarrow> bool" where
  "ring_run = event_run (\<lambda>s ev t. ring_step s ev (Some t))"

fun pushes :: "'a ring_event list \<Rightarrow> 'a list" where
  "pushes [] = []"
| "pushes (Pushed v # evs) = v # pushes evs"
| "pushes (_ # evs) = pushes evs"

fun pops :: "'a ring_event list \<Rightarrow> 'a list" where
  "pops [] = []"
| "pops (Popped v # evs) = v # pops evs"
| "pops (_ # evs) = pops evs"

lemma pushes_append [simp]: "pushes (evs @ fs) = pushes evs @ pushes fs"
  by (induction evs rule: pushes.induct) auto

lemma pops_append [simp]: "pops (evs @ fs) = pops evs @ pops fs"
  by (induction evs rule: pops.induct) auto

subsection \<open>Destruction\<close>

definition destroy_live :: "'a ring \<Rightarrow> size_t \<Rightarrow> 'a ring option" where
  "destroy_live q i =
     (if slot_at q i < length (slots q) then
        (case slots q ! slot_at q i of
           Live v e \<Rightarrow> Some (q\<lparr>slots := (slots q)[slot_at q i := Raw e]\<rparr>)
         | _ \<Rightarrow> None)
      else None)"

function clear_from :: "size_t \<Rightarrow> size_t \<Rightarrow> 'a ring \<Rightarrow> 'a ring option" where
  "clear_from r w q =
     (if r = w then Some q
      else Option.bind (destroy_live q r) (clear_from (r + 1) w))"
  by pat_completeness auto
termination
proof (relation "measure (\<lambda>(r, w, q). unat (w - r))")
  fix r w :: size_t and q q' :: "'a ring"
  assume "r \<noteq> w"
  then have "w - r \<noteq> 0" by simp
  then have "unat (w - r - 1) < unat (w - r)" by (simp add: unat_minus_one unat_gt_0)
  then show "((r + 1, w, q'), r, w, q) \<in> measure (\<lambda>(r, w, q). unat (w - r))"
    by (simp add: diff_diff_add)
qed simp

definition ring_clear :: "'a ring \<Rightarrow> 'a ring option" where
  "ring_clear q = clear_from (own_index (read_stores q)) (own_index (write_stores q)) q"

end
