(* ===== verification/Channel.thy ===== *)
theory Channel
  imports Spsc_Ring
begin

section \<open>The contract of a bounded channel\<close>

text \<open>
  What a client of the ring relies on: whatever the interleaving, the received values are a prefix of
  the sent ones, and no more than the capacity are under way. A bounded queue that accepts the events
  of a run one after the other is the abstract machine this amounts to.
\<close>

fun bounded_queue :: "nat \<Rightarrow> 'a list \<Rightarrow> 'a ring_event list \<Rightarrow> 'a list option" where
  "bounded_queue cap xs [] = Some xs"
| "bounded_queue cap xs (Pushed v # evs) =
     (if length xs < cap then bounded_queue cap (xs @ [v]) evs else None)"
| "bounded_queue cap xs (Popped v # evs) =
     (case xs of
        [] \<Rightarrow> None
      | x # xs' \<Rightarrow> if x = v then bounded_queue cap xs' evs else None)"
| "bounded_queue cap xs (_ # evs) = bounded_queue cap xs evs"

lemma bounded_queue_append:
  "bounded_queue cap xs (evs @ fs) = Option.bind (bounded_queue cap xs evs) (\<lambda>ys. bounded_queue cap ys fs)"
  by (induction cap xs evs rule: bounded_queue.induct) (auto split: list.splits)

locale bounded_channel =
  fixes cap :: nat
    and step :: "'q \<Rightarrow> 'a ring_event \<Rightarrow> 'q \<Rightarrow> bool"
    and ok :: "'a list \<Rightarrow> 'a list \<Rightarrow> 'q \<Rightarrow> bool"
  assumes keeps: "ok ps rs q \<Longrightarrow> step q ev t \<Longrightarrow> ok (ps @ pushes [ev]) (rs @ pops [ev]) t"
    and in_order: "ok ps rs q \<Longrightarrow> rs = take (length rs) ps"
    and room: "ok ps rs q \<Longrightarrow> length ps \<le> length rs + cap"
begin

lemma received_le: "ok ps rs q \<Longrightarrow> length rs \<le> length ps"
  using in_order by (metis length_take min.cobounded1)

lemma run_ok:
  assumes "event_run step q evs t" "ok [] [] q"
  shows "ok (pushes evs) (pops evs) t"
  using assms
proof (induction rule: event_run.induct)
  case (run_step evs t ev u)
  from keeps [OF run_step.IH [OF run_step.prems] run_step.hyps(2)] show ?case by simp
qed simp

lemma step_accepted:
  assumes "ok ps rs q" "step q ev t"
  shows "bounded_queue cap (drop (length rs) ps) [ev] =
    Some (drop (length (rs @ pops [ev])) (ps @ pushes [ev]))"
proof (cases ev)
  case (Pushed v)
  then have "length ps < length rs + cap" using room [OF keeps [OF assms]] by simp
  moreover have "length rs \<le> length ps" using received_le [OF assms(1)] .
  ultimately show ?thesis using Pushed by (simp add: less_diff_conv2)
next
  case (Popped v)
  have "rs @ [v] = take (Suc (length rs)) ps" using in_order [OF keeps [OF assms]] Popped by simp
  moreover have "Suc (length rs) \<le> length ps" using received_le [OF keeps [OF assms]] Popped by simp
  ultimately have "v = ps ! length rs" "length rs < length ps"
    by (metis append_eq_append_conv length_append_singleton nth_append_length nth_take lessI, simp)
  then show ?thesis using Popped by (simp flip: Cons_nth_drop_Suc)
qed (use received_le [OF assms(1)] in simp_all)

lemma run_accepted:
  assumes "event_run step q evs t" "ok [] [] q"
  shows "bounded_queue cap [] evs = Some (drop (length (pops evs)) (pushes evs))"
  using assms
proof (induction rule: event_run.induct)
  case (run_step evs t ev u)
  from step_accepted [OF run_ok [OF run_step.hyps(1) run_step.prems] run_step.hyps(2)]
    run_step.IH [OF run_step.prems]
  show ?case by (simp add: bounded_queue_append)
qed simp

end


text \<open>
  A channel whose receiver can also learn of sends from elsewhere, here from a flag the sender stores
  after its last one: when it then finds the channel empty, it has received everything.
\<close>

locale synchronised_channel = bounded_channel cap step ok
  for cap :: nat
    and step :: "'q \<Rightarrow> 'a ring_event \<Rightarrow> 'q \<Rightarrow> bool"
    and ok :: "'a list \<Rightarrow> 'a list \<Rightarrow> 'q \<Rightarrow> bool" +
  fixes known :: "'q \<Rightarrow> nat"
    and idle :: "'q \<Rightarrow> bool"
    and learn :: "nat \<Rightarrow> 'q \<Rightarrow> 'q"
  assumes learn_ok: "ok ps rs q \<Longrightarrow> idle q \<Longrightarrow> k \<le> length ps \<Longrightarrow> ok ps rs (learn k q)"
    and learn_known: "k \<le> known (learn k q)"
    and known_mono: "step q ev t \<Longrightarrow> known q \<le> known t"
    and empty_known: "ok ps rs q \<Longrightarrow> step q (Empty_Is True) t \<Longrightarrow> length rs = known q"
begin

lemma drained:
  assumes "ok ps rs q" "length ps \<le> known q" "step q (Empty_Is True) t"
  shows "rs = ps"
  using in_order [OF assms(1)] received_le [OF assms(1)] empty_known [OF assms(1,3)] assms(2) by simp

end

end
