(* ===== verification/Ring_Invariant.thy ===== *)
theory Ring_Invariant
  imports Channel
begin

section \<open>The invariant of the ring\<close>

text \<open>
  What every reachable state of the ring keeps, stated with the unbounded numbers of pushes and pops
  so far. The indices are these numbers modulo \<open>2 ^ 64\<close>; a view is a bound on how stale a
  thread's knowledge of the other index is; and the content and the last toucher of each slot follow
  from the number of the push or pop the slot is due for next.
\<close>

subsection \<open>Capacities, indices and slots\<close>

lemma power_of_two_capacity:
  assumes "valid_capacity n"
  shows "\<exists>k<64. unat n = 2 ^ k"
proof -
  have pos: "0 < unat n" using assms by (simp add: valid_capacity_def unat_gt_0)
  obtain k where k: "2 ^ k \<le> unat n" "unat n < 2 ^ Suc k"
    using ex_power_ivl1 [of 2 "unat n"] pos by auto
  have "unat n < 2 ^ 64" using unsigned_less [of n, where 'a = nat] by simp
  with k(1) have "(2 :: nat) ^ k < 2 ^ 64" by (rule le_less_trans)
  then have k64: "k < 64" by (rule power_less_imp_less_exp [rotated]) simp
  have "unat n = 2 ^ k"
  proof (rule ccontr)
    assume ne: "unat n \<noteq> 2 ^ k"
    have "m div 2 ^ k = 1" if "2 ^ k \<le> m" "m < 2 ^ Suc k" for m :: nat
      using that by (intro div_nat_eqI) auto
    moreover have "unat (n - 1) = unat n - 1" using pos by (simp add: unat_minus_one unat_gt_0)
    ultimately have "unat n div 2 ^ k = 1" "unat (n - 1) div 2 ^ k = 1" using k ne by auto
    then have "bit (unat n) k" "bit (unat (n - 1)) k" by (simp_all add: bit_iff_odd)
    then have "bit (n AND (n - 1)) k" using k64 by (simp add: bit_and_iff bit_unsigned_iff)
    then show False using assms by (simp add: valid_capacity_def)
  qed
  with k64 show ?thesis by blast
qed

lemma index_in_slots:
  assumes "valid_capacity n"
  shows "unat ((of_nat i :: size_t) AND (n - 1)) = i mod unat n"
proof -
  obtain k where k: "k < 64" "unat n = 2 ^ k" using power_of_two_capacity [OF assms] by blast
  then have "n = 2 ^ k" by (metis of_nat_numeral of_nat_power of_nat_unat ucast_id)
  then have "(of_nat i :: size_t) AND (n - 1) = take_bit k (of_nat i)"
    by (simp add: take_bit_eq_mask mask_eq_exp_minus_1)
  moreover have "unat (take_bit k (of_nat i :: size_t)) = i mod 2 ^ k"
    using k(1) by (simp add: unsigned_take_bit_eq unsigned_of_nat min_def flip: take_bit_eq_mod)
  ultimately show ?thesis using k(2) by simp
qed

lemma capacity_bound: "valid_capacity n \<Longrightarrow> 0 < unat n \<and> unat n \<le> 2 ^ 63"
proof -
  assume "valid_capacity n"
  then obtain k where "k < 64" "unat n = 2 ^ k" using power_of_two_capacity by blast
  moreover from this have "(2 :: nat) ^ k \<le> 2 ^ 63" by (intro power_increasing) auto
  ultimately show ?thesis by simp
qed

lemma near_indices:
  assumes "a \<le> b" "b \<le> a + unat n" "valid_capacity n"
  shows "(of_nat a = (of_nat b :: size_t)) = (a = b)"
    "((of_nat b :: size_t) - of_nat a = n) = (b = a + unat n)"
    "unat ((of_nat b :: size_t) - of_nat a) = b - a"
proof -
  have "unat n < 2 ^ 64" using capacity_bound [OF assms(3)] by simp
  then have small: "b - a < 2 ^ 64" using assms(2) by linarith
  have d: "(of_nat b :: size_t) - of_nat a = of_nat (b - a)" using assms(1) by (simp add: of_nat_diff)
  show u: "unat ((of_nat b :: size_t) - of_nat a) = b - a"
    using small by (simp add: d unsigned_of_nat take_bit_nat_eq_self)
  show "(of_nat a = (of_nat b :: size_t)) = (a = b)"
  proof
    assume "of_nat a = (of_nat b :: size_t)"
    with u have "b - a = 0" by simp
    with assms(1) show "a = b" by simp
  qed simp
  show "((of_nat b :: size_t) - of_nat a = n) = (b = a + unat n)"
    using u assms(1) by (auto simp: word_unat_eq_iff)
qed

lemma mod_window:
  assumes "r \<le> i" "i < r + n" "r \<le> j" "j < r + n" "i mod n = j mod n"
  shows "i = (j :: nat)"
proof -
  have *: "a = b" if "a \<le> b" "b < a + n" "a mod n = b mod n" for a b :: nat
  proof -
    have "n dvd b - a" using that(1,3) by (metis mod_eq_dvd_iff_nat)
    with that(1,2) show ?thesis by (metis dvd_imp_le le_add_diff_inverse less_diff_conv2 nat_less_le
          not_less zero_less_diff add.commute)
  qed
  show ?thesis using *[of i j] *[of j i] assms by (cases "i \<le> j") auto
qed

subsection \<open>The invariant\<close>

text \<open>
  What the slot of the \<open>n\<close>-th push or pop holds while it is the one due for it: \<open>tk\<close> when
  the consumer is taking the oldest object, \<open>mk\<close> when the producer has made the next one.
\<close>

definition taken :: "nat \<Rightarrow> 'a consumer_point \<Rightarrow> 'a slot option" where
  "taken R c =
     (case c of C_Moved _ _ \<Rightarrow> Some (Moved (Suc R)) | C_Destroyed _ _ \<Rightarrow> Some (Raw (Suc R)) | _ \<Rightarrow> None)"

definition made :: "'a producer_point \<Rightarrow> 'a option" where
  "made p = (case p of P_Built v _ \<Rightarrow> Some v | _ \<Rightarrow> None)"

lemma taken_simps [simp]:
  "taken R C_Ready = None" "taken R (C_Own d r) = None" "taken R (C_Loaded d r w) = None"
  "taken R (C_Moved v r) = Some (Moved (Suc R))" "taken R (C_Destroyed v r) = Some (Raw (Suc R))"
  by (simp_all add: taken_def)

lemma made_simps [simp]:
  "made P_Ready = None" "made (P_Own c w) = None" "made (P_Loaded c w r) = None"
  "made (P_Built v w) = Some v"
  by (simp_all add: made_def)

definition due_slot ::
  "nat \<Rightarrow> 'a list \<Rightarrow> nat \<Rightarrow> 'a slot option \<Rightarrow> 'a option \<Rightarrow> nat \<Rightarrow> 'a slot" where
  "due_slot cap ps R tk mk n =
     (if n = R \<and> tk \<noteq> None then the tk
      else if n < length ps then Live (ps ! n) (Suc n)
      else if n = length ps \<and> mk \<noteq> None then Live (the mk) (Suc n)
      else Raw (Suc n - cap))"

definition slots_ok ::
  "'a ring \<Rightarrow> 'a list \<Rightarrow> nat \<Rightarrow> 'a slot option \<Rightarrow> 'a option \<Rightarrow> bool" where
  "slots_ok q ps R tk mk \<longleftrightarrow>
     (\<forall>n. R \<le> n \<longrightarrow> n < R + length (slots q) \<longrightarrow>
       slots q ! (n mod length (slots q)) = due_slot (length (slots q)) ps R tk mk n)"

definition stores_ok :: "index_store list \<Rightarrow> nat \<Rightarrow> (nat \<Rightarrow> nat \<Rightarrow> bool) \<Rightarrow> bool" where
  "stores_ok ms n P \<longleftrightarrow> length ms = Suc n \<and> (\<forall>i\<le>n. stored (ms ! i) = of_nat i \<and> P i (seen (ms ! i)))"

definition ring_ok :: "size_t \<Rightarrow> nat \<Rightarrow> nat \<Rightarrow> 'a ring \<Rightarrow> bool" where
  "ring_ok n W R q \<longleftrightarrow>
     valid_capacity n \<and> capacity q = n \<and> mask_bits q = n - 1 \<and> length (slots q) = unat n \<and>
     stores_ok (write_stores q) W (\<lambda>i k. k \<le> R) \<and> stores_ok (read_stores q) R (\<lambda>i k. i \<le> k \<and> k \<le> W)"

definition producer_ok :: "nat \<Rightarrow> nat \<Rightarrow> nat \<Rightarrow> 'a producer_point \<Rightarrow> bool" where
  "producer_ok cap W k p =
     (case p of
        P_Ready \<Rightarrow> True
      | P_Own c w \<Rightarrow> w = of_nat W
      | P_Loaded c w r \<Rightarrow> w = of_nat W \<and> r = of_nat k
      | P_Built v w \<Rightarrow> w = of_nat W \<and> W < k + cap)"

definition consumer_ok :: "'a list \<Rightarrow> nat \<Rightarrow> nat \<Rightarrow> 'a consumer_point \<Rightarrow> bool" where
  "consumer_ok ps R k c =
     (case c of
        C_Ready \<Rightarrow> True
      | C_Own d r \<Rightarrow> r = of_nat R
      | C_Loaded d r w \<Rightarrow> r = of_nat R \<and> w = of_nat k
      | C_Moved v r \<Rightarrow> r = of_nat R \<and> R < k \<and> v = ps ! R
      | C_Destroyed v r \<Rightarrow> r = of_nat R \<and> R < k \<and> v = ps ! R)"

definition observer_ok :: "nat \<Rightarrow> nat \<Rightarrow> observer_point \<Rightarrow> bool" where
  "observer_ok j i p = (case p of O_Read r \<Rightarrow> r = of_nat i \<and> i \<le> j | _ \<Rightarrow> True)"

definition ring_inv :: "size_t \<Rightarrow> 'a list \<Rightarrow> 'a list \<Rightarrow> 'a ring_system \<Rightarrow> bool" where
  "ring_inv n ps rs s \<longleftrightarrow>
     ring_ok n (length ps) (length rs) (shared s) \<and> rs = take (length rs) ps \<and>
     slots_ok (shared s) ps (length rs) (taken (length rs) (consumer s)) (made (producer s)) \<and>
     producer_view s \<le> length rs \<and> length ps \<le> producer_view s + unat n \<and>
     length rs \<le> consumer_view s \<and> consumer_view s \<le> length ps \<and>
     producer_ok (unat n) (length ps) (producer_view s) (producer s) \<and>
     consumer_ok ps (length rs) (consumer_view s) (consumer s) \<and>
     observer_writes s \<le> length ps \<and> observer_reads s \<le> length rs \<and>
     observer_ok (observer_writes s) (observer_reads s) (observer s)"

lemma new_ring_inv:
  assumes "new_ring memory n = Inr q"
  shows "ring_inv n [] [] (start q)"
proof -
  have q: "valid_capacity n" "q = \<lparr>capacity = n, mask_bits = n - 1, slots = replicate (unat n) (Raw 0),
      write_stores = [first_store], read_stores = [first_store]\<rparr>"
    using assms by (auto simp: new_ring_def allocate_slots_def split: if_splits)
  have "slots_ok q [] 0 None None"
    by (auto simp: slots_ok_def q(2) due_slot_def)
  with q show ?thesis
    by (simp add: ring_inv_def ring_ok_def start_def stores_ok_def first_store_def producer_ok_def
        consumer_ok_def observer_ok_def)
qed

subsection \<open>Accesses to the slots\<close>

lemma stores_ok_nth:
  assumes "stores_ok ms n P" "loadable ms k i"
  shows "stored (ms ! i) = of_nat i" "P i (seen (ms ! i))" "i \<le> n" "k \<le> i"
  using assms by (auto simp: stores_ok_def loadable_def)

lemma own_index_ok: "stores_ok ms n P \<Longrightarrow> own_index ms = of_nat n"
  by (auto simp: stores_ok_def own_index_def last_conv_nth simp flip: length_greater_0_conv)

lemma stores_ok_append:
  assumes "stores_ok ms n P" "P (Suc n) k" "\<And>i j. i \<le> n \<Longrightarrow> P i j \<Longrightarrow> Q i j" "Q (Suc n) k"
  shows "stores_ok (ms @ [\<lparr>stored = of_nat n + 1, seen = k\<rparr>]) (Suc n) Q"
  using assms by (auto simp: stores_ok_def nth_append le_Suc_eq)

lemma stores_ok_mono: "stores_ok ms n P \<Longrightarrow> (\<And>i j. P i j \<Longrightarrow> Q i j) \<Longrightarrow> stores_ok ms n Q"
  by (auto simp: stores_ok_def)

lemma ring_slot:
  assumes "ring_ok n W R q"
  shows "slot_at q (of_nat i) = i mod length (slots q)" "i mod length (slots q) < length (slots q)"
  using assms capacity_bound by (auto simp: ring_ok_def slot_at_def index_in_slots)

lemma slots_ok_update:
  assumes "slots_ok q ps R tk mk" "R \<le> n" "n < R + length (slots q)"
    "due_slot (length (slots q)) ps R tk' mk' n = x"
    "\<And>m. R \<le> m \<Longrightarrow> m < R + length (slots q) \<Longrightarrow> m \<noteq> n \<Longrightarrow>
      due_slot (length (slots q)) ps R tk' mk' m = due_slot (length (slots q)) ps R tk mk m"
  shows "slots_ok (q\<lparr>slots := (slots q)[n mod length (slots q) := x]\<rparr>) ps R tk' mk'"
proof -
  have "length (slots q) > 0" using assms(2,3) by (cases "slots q") auto
  then have "n mod length (slots q) < length (slots q)" by simp
  then have "(slots q)[n mod length (slots q) := x] ! (m mod length (slots q)) =
      due_slot (length (slots q)) ps R tk' mk' m" if "R \<le> m" "m < R + length (slots q)" for m
    using assms that mod_window [OF assms(2,3) that]
    by (cases "m = n") (auto simp: slots_ok_def nth_list_update)
  then show ?thesis by (simp add: slots_ok_def)
qed

text \<open>The three accesses find what they expect and bring the slots to the next point.\<close>

lemma due_slot_cases:
  "due_slot cap ps R (Some x) mk R = x"
  "R < length ps \<Longrightarrow> due_slot cap ps R None mk R = Live (ps ! R) (Suc R)"
  "R < length ps \<Longrightarrow> due_slot cap ps R tk (Some v) (length ps) = Live v (Suc (length ps))"
  "R \<le> length ps \<Longrightarrow> (R = length ps \<Longrightarrow> tk = None) \<Longrightarrow>
     due_slot cap ps R tk None (length ps) = Raw (Suc (length ps) - cap)"
  "m \<noteq> R \<Longrightarrow> due_slot cap ps R tk mk m = due_slot cap ps R None mk m"
  "m \<noteq> length ps \<Longrightarrow> due_slot cap ps R tk mk m = due_slot cap ps R tk None m"
  by (auto simp: due_slot_def)

lemma construct_ok:
  assumes "ring_ok n (length ps) R q" "slots_ok q ps R tk None" "R \<le> length ps"
    "length ps < k + unat n" "k \<le> R" "R = length ps \<Longrightarrow> tk = None"
  shows "\<exists>q'. construct q k (of_nat (length ps)) v = Some q' \<and> ring_ok n (length ps) R q' \<and>
    slots_ok q' ps R tk (Some v)"
proof -
  let ?W = "length ps" and ?N = "length (slots q)"
  have N: "?N = unat n" "length (write_stores q) = Suc ?W"
    using assms(1) by (auto simp: ring_ok_def stores_ok_def)
  have "slots q ! (?W mod ?N) = Raw (Suc ?W - ?N)"
    using assms(2-6) N(1) due_slot_cases(4) [of R ps tk ?N] by (auto simp: slots_ok_def)
  then have c: "construct q k (of_nat ?W) v = Some (q\<lparr>slots := (slots q)[?W mod ?N := Live v (Suc ?W)]\<rparr>)"
    using ring_slot [OF assms(1)] assms(4) N by (auto simp: construct_def)
  have "slots_ok (q\<lparr>slots := (slots q)[?W mod ?N := Live v (Suc ?W)]\<rparr>) ps R tk (Some v)"
    using assms(3-6) N(1) due_slot_cases(6) [of _ ps ?N R tk "Some v"]
    by (intro slots_ok_update [OF assms(2)]) (auto simp: due_slot_def)
  moreover have "ring_ok n ?W R (q\<lparr>slots := (slots q)[?W mod ?N := Live v (Suc ?W)]\<rparr>)"
    using assms(1) by (simp add: ring_ok_def)
  ultimately show ?thesis using c by blast
qed

lemma move_out_ok:
  assumes "ring_ok n (length ps) R q" "slots_ok q ps R None mk" "R < k" "k \<le> length ps"
  shows "\<exists>q'. move_out q k (of_nat R) = Some (ps ! R, q') \<and> ring_ok n (length ps) R q' \<and>
    slots_ok q' ps R (Some (Moved (Suc R))) mk"
proof -
  let ?N = "length (slots q)"
  have N: "?N = unat n" "length (read_stores q) = Suc R" "0 < ?N"
    using assms(1) capacity_bound by (auto simp: ring_ok_def stores_ok_def)
  have "slots q ! (R mod ?N) = Live (ps ! R) (Suc R)"
    using assms(2-4) N(3) by (auto simp: slots_ok_def due_slot_def)
  then have c: "move_out q k (of_nat R) = Some (ps ! R, q\<lparr>slots := (slots q)[R mod ?N := Moved (Suc R)]\<rparr>)"
    using ring_slot [OF assms(1)] assms(3) N by (auto simp: move_out_def)
  have "slots_ok (q\<lparr>slots := (slots q)[R mod ?N := Moved (Suc R)]\<rparr>) ps R (Some (Moved (Suc R))) mk"
    using N(3) by (intro slots_ok_update [OF assms(2)]) (auto simp: due_slot_def)
  moreover have "ring_ok n (length ps) R (q\<lparr>slots := (slots q)[R mod ?N := Moved (Suc R)]\<rparr>)"
    using assms(1) by (simp add: ring_ok_def)
  ultimately show ?thesis using c by blast
qed

lemma destroy_moved_ok:
  assumes "ring_ok n (length ps) R q" "slots_ok q ps R (Some (Moved (Suc R))) mk"
  shows "\<exists>q'. destroy_moved q (of_nat R) = Some q' \<and> ring_ok n (length ps) R q' \<and>
    slots_ok q' ps R (Some (Raw (Suc R))) mk"
proof -
  let ?N = "length (slots q)"
  have N: "0 < ?N" using assms(1) capacity_bound by (auto simp: ring_ok_def)
  have "slots q ! (R mod ?N) = Moved (Suc R)" using assms(2) N by (auto simp: slots_ok_def due_slot_def)
  then have c: "destroy_moved q (of_nat R) = Some (q\<lparr>slots := (slots q)[R mod ?N := Raw (Suc R)]\<rparr>)"
    using ring_slot [OF assms(1)] N by (auto simp: destroy_moved_def)
  have "slots_ok (q\<lparr>slots := (slots q)[R mod ?N := Raw (Suc R)]\<rparr>) ps R (Some (Raw (Suc R))) mk"
    using N by (intro slots_ok_update [OF assms(2)]) (auto simp: due_slot_def)
  moreover have "ring_ok n (length ps) R (q\<lparr>slots := (slots q)[R mod ?N := Raw (Suc R)]\<rparr>)"
    using assms(1) by (simp add: ring_ok_def)
  ultimately show ?thesis using c by blast
qed

text \<open>The two releasing stores.\<close>

lemma store_write_ok:
  assumes "ring_ok n (length ps) R q" "slots_ok q ps R tk (Some v)" "k \<le> R"
  shows "ring_ok n (Suc (length ps)) R (store_write q (of_nat (length ps) + 1) k)"
    "slots_ok (store_write q (of_nat (length ps) + 1) k) (ps @ [v]) R tk None"
proof -
  let ?q = "store_write q (of_nat (length ps) + 1) k"
  have "stores_ok (write_stores ?q) (Suc (length ps)) (\<lambda>i k. k \<le> R)"
    using assms(1,3) stores_ok_append [of "write_stores q" "length ps" "\<lambda>i k. k \<le> R" k]
    by (simp add: ring_ok_def store_write_def)
  moreover have "stores_ok (read_stores q) R (\<lambda>i k. i \<le> k \<and> k \<le> Suc (length ps))"
    using assms(1) by (auto simp: ring_ok_def intro: stores_ok_mono)
  ultimately show "ring_ok n (Suc (length ps)) R ?q"
    using assms(1) by (simp add: ring_ok_def store_write_def)
  show "slots_ok ?q (ps @ [v]) R tk None"
    using assms(2) by (auto simp: slots_ok_def store_write_def due_slot_def nth_append)
qed

lemma store_read_ok:
  assumes "ring_ok n (length ps) R q" "slots_ok q ps R (Some (Raw (Suc R))) mk"
    "R < k" "k \<le> length ps" "mk \<noteq> None \<Longrightarrow> length ps < R + unat n" "length ps \<le> R + unat n"
  shows "ring_ok n (length ps) (Suc R) (store_read q (of_nat R + 1) k)"
    "slots_ok (store_read q (of_nat R + 1) k) ps (Suc R) None mk"
proof -
  let ?q = "store_read q (of_nat R + 1) k" and ?N = "length (slots q)"
  have N: "?N = unat n" "0 < ?N" using assms(1) capacity_bound by (auto simp: ring_ok_def)
  have "stores_ok (read_stores ?q) (Suc R) (\<lambda>i k. i \<le> k \<and> k \<le> length ps)"
    using assms(1,3,4) stores_ok_append [of "read_stores q" R "\<lambda>i k. i \<le> k \<and> k \<le> length ps" k]
    by (simp add: ring_ok_def store_read_def)
  moreover have "stores_ok (write_stores q) (length ps) (\<lambda>i k. k \<le> Suc R)"
    using assms(1) by (auto simp: ring_ok_def intro: stores_ok_mono)
  ultimately show "ring_ok n (length ps) (Suc R) ?q"
    using assms(1) by (simp add: ring_ok_def store_read_def)
  have "slots q ! (m mod ?N) = due_slot ?N ps (Suc R) None mk m"
    if "Suc R \<le> m" "m < Suc R + ?N" for m
  proof (cases "m = R + ?N")
    case True
    have "slots q ! (R mod ?N) = Raw (Suc R)" using assms(2) N(2) by (auto simp: slots_ok_def due_slot_def)
    then show ?thesis using True assms(5,6) N by (cases mk) (auto simp: due_slot_def)
  next
    case False
    with assms(2) that show ?thesis by (auto simp: slots_ok_def due_slot_def)
  qed
  then show "slots_ok ?q ps (Suc R) None mk" by (simp add: slots_ok_def store_read_def)
qed

subsection \<open>Steps keep the invariant\<close>

lemma ring_invD:
  assumes "ring_inv n ps rs s"
  shows "ring_ok n (length ps) (length rs) (shared s)"
    "slots_ok (shared s) ps (length rs) (taken (length rs) (consumer s)) (made (producer s))"
    "rs = take (length rs) ps" "length rs \<le> length ps" "length ps \<le> length rs + unat n"
    "stores_ok (write_stores (shared s)) (length ps) (\<lambda>i k. k \<le> length rs)"
    "stores_ok (read_stores (shared s)) (length rs) (\<lambda>i k. i \<le> k \<and> k \<le> length ps)"
    "valid_capacity n" "capacity (shared s) = n"
  using assms by (auto simp: ring_inv_def ring_ok_def)

text \<open>The steps of each thread, one lemma for each thread.\<close>

lemma construct_step:
  assumes inv: "ring_inv n ps rs s" and p: "producer s = P_Loaded (Emplace v) w r" "w - r \<noteq> capacity (shared s)"
  shows "\<exists>q. construct (shared s) (producer_view s) w v = Some q \<and>
    ring_inv n ps rs (s\<lparr>shared := q, producer := P_Built v w\<rparr>)"
proof -
  note ok = ring_invD [OF inv]
  have w: "w = of_nat (length ps)" "r = of_nat (producer_view s)" "producer_view s \<le> length rs"
      "length ps \<le> producer_view s + unat n"
    using inv p(1) by (auto simp: ring_inv_def producer_ok_def)
  then have lt: "length ps < producer_view s + unat n"
    using near_indices(2) [of "producer_view s" "length ps" n] ok(4,8,9) p(2) by auto
  have tk: "length rs = length ps \<Longrightarrow> taken (length rs) (consumer s) = None"
    using inv by (cases "consumer s") (auto simp: ring_inv_def consumer_ok_def)
  obtain q where q: "construct (shared s) (producer_view s) (of_nat (length ps)) v = Some q"
    "ring_ok n (length ps) (length rs) q"
    "slots_ok q ps (length rs) (taken (length rs) (consumer s)) (Some v)"
    using construct_ok [OF ok(1) _ ok(4) lt w(3) tk, of v] ok(2) p(1) by auto
  then show ?thesis using inv w lt by (auto simp: ring_inv_def producer_ok_def)
qed

lemma move_step:
  assumes inv: "ring_inv n ps rs s" and c: "consumer s = C_Loaded Try_Pop r w" "r \<noteq> w"
  shows "\<exists>v q. move_out (shared s) (consumer_view s) r = Some (v, q) \<and>
    ring_inv n ps rs (s\<lparr>shared := q, consumer := C_Moved v r\<rparr>)"
proof -
  note ok = ring_invD [OF inv]
  have w: "r = of_nat (length rs)" "w = of_nat (consumer_view s)" "length rs \<le> consumer_view s"
      "consumer_view s \<le> length ps"
    using inv c(1) by (auto simp: ring_inv_def consumer_ok_def)
  with c(2) have lt: "length rs < consumer_view s" by (cases "length rs = consumer_view s") auto
  obtain q where q: "move_out (shared s) (consumer_view s) (of_nat (length rs)) = Some (ps ! length rs, q)"
    "ring_ok n (length ps) (length rs) q"
    "slots_ok q ps (length rs) (Some (Moved (Suc (length rs)))) (made (producer s))"
    using move_out_ok [OF ok(1) _ lt w(4)] ok(2) c(1) by fastforce
  then show ?thesis using inv w lt by (auto simp: ring_inv_def consumer_ok_def)
qed

lemma destroy_step:
  assumes inv: "ring_inv n ps rs s" and c: "consumer s = C_Moved v r"
  shows "\<exists>q. destroy_moved (shared s) r = Some q \<and>
    ring_inv n ps rs (s\<lparr>shared := q, consumer := C_Destroyed v r\<rparr>)"
proof -
  note ok = ring_invD [OF inv]
  have r: "r = of_nat (length rs)" using inv c by (auto simp: ring_inv_def consumer_ok_def)
  obtain q where "destroy_moved (shared s) (of_nat (length rs)) = Some q"
    "ring_ok n (length ps) (length rs) q"
    "slots_ok q ps (length rs) (Some (Raw (Suc (length rs)))) (made (producer s))"
    using destroy_moved_ok [OF ok(1)] ok(2) c by fastforce
  then show ?thesis using inv c r by (auto simp: ring_inv_def consumer_ok_def)
qed

lemma release_write_step:
  assumes inv: "ring_inv n ps rs s" and p: "producer s = P_Built v w"
  shows "ring_inv n (ps @ [v]) rs
    (s\<lparr>shared := store_write (shared s) (w + 1) (producer_view s), producer := P_Ready\<rparr>)"
proof -
  note ok = ring_invD [OF inv]
  have w: "w = of_nat (length ps)" "producer_view s \<le> length rs" "length ps < producer_view s + unat n"
    using inv p by (auto simp: ring_inv_def producer_ok_def)
  have "consumer_ok (ps @ [v]) (length rs) (consumer_view s) (consumer s)"
    using inv by (auto simp: ring_inv_def consumer_ok_def nth_append split: consumer_point.splits)
  moreover have "rs = take (length rs) (ps @ [v])" using ok(3,4) by simp
  ultimately show ?thesis
    using inv store_write_ok [OF ok(1) ok(2) [unfolded p made_simps] w(2)] p w
    by (simp add: ring_inv_def producer_ok_def)
qed

lemma release_read_step:
  assumes inv: "ring_inv n ps rs s" and c: "consumer s = C_Destroyed v r"
  shows "ring_inv n ps (rs @ [v])
    (s\<lparr>shared := store_read (shared s) (r + 1) (consumer_view s), consumer := C_Ready\<rparr>)"
proof -
  note ok = ring_invD [OF inv]
  have r: "r = of_nat (length rs)" "length rs < consumer_view s" "consumer_view s \<le> length ps" "v = ps ! length rs"
    using inv c by (auto simp: ring_inv_def consumer_ok_def)
  have full: "made (producer s) \<noteq> None \<Longrightarrow> length ps < length rs + unat n"
    using inv by (cases "producer s") (auto simp: ring_inv_def producer_ok_def)
  have "rs @ [v] = take (Suc (length rs)) ps" using ok(3) r by (simp add: take_Suc_conv_app_nth)
  then show ?thesis
    using inv store_read_ok [OF ok(1) ok(2) [unfolded c taken_simps] r(2,3) full ok(5)] c r
    by (simp add: ring_inv_def consumer_ok_def)
qed

lemma size_steps:
  assumes inv: "ring_inv n ps rs s" and i: "loadable (write_stores (shared s)) (observer_writes s) i"
  shows "ring_inv n ps rs (s\<lparr>observer := O_Before, observer_writes := i,
      observer_reads := max (observer_reads s) (seen (write_stores (shared s) ! i))\<rparr>)"
    "ring_inv n ps rs (s\<lparr>observer := O_Ready, observer_writes := i,
      observer_reads := max (observer_reads s) (seen (write_stores (shared s) ! i))\<rparr>)"
  using inv stores_ok_nth [OF ring_invD(6) [OF inv] i] by (auto simp: ring_inv_def observer_ok_def)

lemma size_read_step:
  assumes inv: "ring_inv n ps rs s" and i: "loadable (read_stores (shared s)) (observer_reads s) i"
  shows "ring_inv n ps rs (s\<lparr>observer := O_Read (stored (read_stores (shared s) ! i)), observer_reads := i,
      observer_writes := max (observer_writes s) (seen (read_stores (shared s) ! i))\<rparr>)"
  using inv stores_ok_nth [OF ring_invD(7) [OF inv] i] by (auto simp: ring_inv_def observer_ok_def)

lemma acquire_steps:
  assumes inv: "ring_inv n ps rs s"
  shows "producer s = P_Own c w \<Longrightarrow> loadable (read_stores (shared s)) (producer_view s) i \<Longrightarrow>
      ring_inv n ps rs (s\<lparr>producer := P_Loaded c w (stored (read_stores (shared s) ! i)), producer_view := i\<rparr>)"
    "consumer s = C_Own d r \<Longrightarrow> loadable (write_stores (shared s)) (consumer_view s) i \<Longrightarrow>
      ring_inv n ps rs (s\<lparr>consumer := C_Loaded d r (stored (write_stores (shared s) ! i)), consumer_view := i\<rparr>)"
  using inv stores_ok_nth [OF ring_invD(7) [OF inv], of "producer_view s" i]
    stores_ok_nth [OF ring_invD(6) [OF inv], of "consumer_view s" i]
  by (auto simp: ring_inv_def producer_ok_def consumer_ok_def)

lemma local_steps:
  assumes inv: "ring_inv n ps rs s"
  shows "producer s = P_Ready \<Longrightarrow>
      ring_inv n ps rs (s\<lparr>producer := P_Own c (own_index (write_stores (shared s)))\<rparr>)"
    "consumer s = C_Ready \<Longrightarrow>
      ring_inv n ps rs (s\<lparr>consumer := C_Own d (own_index (read_stores (shared s)))\<rparr>)"
    "producer s = P_Loaded c w r \<Longrightarrow> ring_inv n ps rs (s\<lparr>producer := P_Ready\<rparr>)"
    "consumer s = C_Loaded d r w \<Longrightarrow> ring_inv n ps rs (s\<lparr>consumer := C_Ready\<rparr>)"
  using inv own_index_ok [OF ring_invD(6) [OF inv]] own_index_ok [OF ring_invD(7) [OF inv]]
  by (auto simp: ring_inv_def producer_ok_def consumer_ok_def)

lemma producer_step_inv:
  assumes "ring_inv n ps rs s" "producer_step s ev t"
  shows "\<exists>u. t = Some u \<and> ring_inv n (ps @ pushes [ev]) (rs @ pops [ev]) u"
  using assms(2)
proof cases
  case (construct_object v w r)
  with construct_step [OF assms(1) this(3,4)] show ?thesis by auto
next
  case (release_write v w)
  with release_write_step [OF assms(1) this(3)] show ?thesis by simp
qed (use acquire_steps [OF assms(1)] local_steps [OF assms(1)] in simp_all)

lemma consumer_step_inv:
  assumes "ring_inv n ps rs s" "consumer_step s ev t"
  shows "\<exists>u. t = Some u \<and> ring_inv n (ps @ pushes [ev]) (rs @ pops [ev]) u"
  using assms(2)
proof cases
  case (move_object r w)
  with move_step [OF assms(1) this(3,4)] show ?thesis by auto
next
  case (destroy_object v r)
  with destroy_step [OF assms(1) this(3)] show ?thesis by auto
next
  case (release_read v r)
  with release_read_step [OF assms(1) this(3)] show ?thesis by simp
qed (use acquire_steps [OF assms(1)] local_steps [OF assms(1)] in simp_all)

lemma observer_step_inv:
  assumes "ring_inv n ps rs s" "observer_step s ev t"
  shows "\<exists>u. t = Some u \<and> ring_inv n (ps @ pushes [ev]) (rs @ pops [ev]) u"
  using assms(2)
  by cases (use size_steps [OF assms(1)] size_read_step [OF assms(1)] in simp_all)

lemma ring_step_inv:
  assumes "ring_inv n ps rs s" "ring_step s ev t"
  shows "\<exists>u. t = Some u \<and> ring_inv n (ps @ pushes [ev]) (rs @ pops [ev]) u"
  using assms(2) producer_step_inv [OF assms(1)] consumer_step_inv [OF assms(1)]
    observer_step_inv [OF assms(1)] by (auto elim: ring_stepE)

lemma answer_inv:
  assumes inv: "ring_inv n ps rs s"
  shows "producer s = P_Loaded c w r \<Longrightarrow>
      (w - r = capacity (shared s)) = (length ps = producer_view s + unat n)"
    "consumer s = C_Loaded d r w \<Longrightarrow> (r = w) = (consumer_view s = length rs)"
proof -
  have *: "capacity (shared s) = n" "valid_capacity n" "producer_view s \<le> length ps"
    "length ps \<le> producer_view s + unat n" "length rs \<le> consumer_view s"
    "consumer_view s \<le> length rs + unat n"
    using inv ring_invD [OF inv] by (auto simp: ring_inv_def)
  show "producer s = P_Loaded c w r \<Longrightarrow>
      (w - r = capacity (shared s)) = (length ps = producer_view s + unat n)"
    using near_indices(2) [OF *(3,4,2)] inv *(1) by (auto simp: ring_inv_def producer_ok_def)
  show "consumer s = C_Loaded d r w \<Longrightarrow> (r = w) = (consumer_view s = length rs)"
    using near_indices(1) [OF *(5,6,2)] inv by (auto simp: ring_inv_def consumer_ok_def)
qed

lemma learn_writes_inv:
  "ring_inv n ps rs s \<Longrightarrow> consumer s = C_Ready \<Longrightarrow> k \<le> length ps \<Longrightarrow> ring_inv n ps rs (learn_writes k s)"
  by (auto simp: ring_inv_def learn_writes_def consumer_ok_def)

lemma views_grow: "ring_step s ev (Some t) \<Longrightarrow> consumer_view s \<le> consumer_view t"
  by (erule ring_stepE; erule producer_step.cases consumer_step.cases observer_step.cases)
    (auto simp: loadable_def)

lemma learn_writes_known: "k \<le> consumer_view (learn_writes k s)"
  by (simp add: learn_writes_def)

lemma empty_view:
  assumes "ring_inv n ps rs s" "ring_step s (Empty_Is True) (Some t)"
  shows "length rs = consumer_view s"
  using assms(2) answer_inv(2) [OF assms(1)]
  by (auto elim!: ring_stepE elim: producer_step.cases observer_step.cases empty_isE)

text \<open>The ring is such a channel.\<close>

interpretation ring: bounded_channel "unat n" "\<lambda>s ev t. ring_step s ev (Some t)" "ring_inv n"
  for n :: size_t
  by unfold_locales (auto dest: ring_step_inv ring_invD)

interpretation ring: synchronised_channel "unat n" "\<lambda>s ev t. ring_step s ev (Some t)" "ring_inv n"
    consumer_view "\<lambda>s. consumer s = C_Ready" learn_writes
  for n :: size_t
  by unfold_locales
    (auto intro: learn_writes_inv learn_writes_known views_grow empty_view)

end
