(* ===== verification/Ring_Calls.thy ===== *)
theory Ring_Calls
  imports Ring_Invariant
begin

section \<open>What a call on the ring answers\<close>

text \<open>
  One call of a thread, followed through any steps of the other threads to its answer, when its load of
  the other index is fresh: when it returns at least the stores the caller counts on. A push then finds
  the room there was, and a pop the value there was. The lemmas also bound the steps of a thread that
  goes on alone.
\<close>

subsection \<open>Fresh loads\<close>

text \<open>A step in which a thread acquires the other's index finds at least \<open>n\<close> stores after the initial one.\<close>

definition fresh_producer :: "nat \<Rightarrow> 'a ring_system \<Rightarrow> 'a ring_system \<Rightarrow> bool" where
  "fresh_producer n s t \<longleftrightarrow>
     (case (producer s, producer t) of (P_Own c w, P_Loaded c' w' r) \<Rightarrow> n \<le> producer_view t | _ \<Rightarrow> True)"

definition fresh_consumer :: "nat \<Rightarrow> 'a ring_system \<Rightarrow> 'a ring_system \<Rightarrow> bool" where
  "fresh_consumer n s t \<longleftrightarrow>
     (case (consumer s, consumer t) of (C_Own d r, C_Loaded d' r' w) \<Rightarrow> n \<le> consumer_view t | _ \<Rightarrow> True)"

lemma fresh_load: "ring_inv n ps rs s \<Longrightarrow>
    loadable (read_stores (shared s)) (producer_view s) (length rs) \<and>
    loadable (write_stores (shared s)) (consumer_view s) (length ps)"
  by (auto simp: ring_inv_def ring_ok_def stores_ok_def loadable_def)

text \<open>
  A run of all threads in which the producer's loads find at least \<open>i\<close> stores and the consumer's at
  least \<open>j\<close>, and the runs of one thread alone.
\<close>

definition fresh_run :: "nat \<Rightarrow> nat \<Rightarrow> 'a ring_system \<Rightarrow> 'a ring_event list \<Rightarrow> 'a ring_system \<Rightarrow> bool" where
  "fresh_run i j =
     event_run (\<lambda>s ev t. ring_step s ev (Some t) \<and> fresh_producer i s t \<and> fresh_consumer j s t)"

definition producer_alone :: "nat \<Rightarrow> 'a ring_system \<Rightarrow> 'a ring_event list \<Rightarrow> 'a ring_system \<Rightarrow> bool" where
  "producer_alone i = event_run (\<lambda>s ev t. producer_step s ev (Some t) \<and> fresh_producer i s t)"

definition consumer_alone :: "nat \<Rightarrow> 'a ring_system \<Rightarrow> 'a ring_event list \<Rightarrow> 'a ring_system \<Rightarrow> bool" where
  "consumer_alone j = event_run (\<lambda>s ev t. consumer_step s ev (Some t) \<and> fresh_consumer j s t)"

text \<open>The answers of each of the two threads in a run, in order.\<close>

definition producer_answers :: "'a ring_event list \<Rightarrow> 'a ring_event list" where
  "producer_answers = filter (\<lambda>ev. case ev of
     Pushed v \<Rightarrow> True | Push_Failed \<Rightarrow> True | Push_Threw \<Rightarrow> True | Full_Is b \<Rightarrow> True | _ \<Rightarrow> False)"

definition consumer_answers :: "'a ring_event list \<Rightarrow> 'a ring_event list" where
  "consumer_answers = filter (\<lambda>ev. case ev of
     Popped v \<Rightarrow> True | Pop_Failed \<Rightarrow> True | Empty_Is b \<Rightarrow> True | _ \<Rightarrow> False)"

lemma answers_simps [simp]:
  "producer_answers [] = []" "consumer_answers [] = []"
  "producer_answers (evs @ fs) = producer_answers evs @ producer_answers fs"
  "consumer_answers (evs @ fs) = consumer_answers evs @ consumer_answers fs"
  by (simp_all add: producer_answers_def consumer_answers_def)

lemma no_answer_no_value:
  "producer_answers evs = [] \<Longrightarrow> pushes evs = []" "consumer_answers evs = [] \<Longrightarrow> pops evs = []"
  by (induction evs rule: pushes.induct) (simp_all add: producer_answers_def consumer_answers_def)

lemma event_run_mono:
  assumes "event_run step s evs t" "\<And>s ev t. step s ev t \<Longrightarrow> step' s ev t"
  shows "event_run step' s evs t"
  using assms(1) by (induction rule: event_run.induct) (auto intro: event_run.intros assms(2))

lemma alone_run:
  "producer_alone i s evs t \<Longrightarrow> ring_run s evs t" "consumer_alone i s evs t \<Longrightarrow> ring_run s evs t"
  unfolding producer_alone_def consumer_alone_def ring_run_def
  by (erule event_run_mono; blast intro: ring_step.intros)+

lemma alone_step:
  "producer_step s ev (Some t) \<Longrightarrow> fresh_producer i s t \<Longrightarrow> producer_alone i t evs u \<Longrightarrow>
     producer_alone i s (ev # evs) u"
  "consumer_step s ev (Some t) \<Longrightarrow> fresh_consumer i s t \<Longrightarrow> consumer_alone i t evs u \<Longrightarrow>
     consumer_alone i s (ev # evs) u"
  unfolding producer_alone_def consumer_alone_def
  by (rule event_run_trans [of _ _ _ _ _ "[ev]", simplified], assumption, rule event_run_one, simp)+

subsection \<open>A push\<close>

text \<open>The producer is in a push of \<open>v\<close> and its load found, or will find, \<open>k\<close> pops.\<close>

definition emplacing :: "nat \<Rightarrow> 'a \<Rightarrow> 'a ring_system \<Rightarrow> bool" where
  "emplacing k v s \<longleftrightarrow>
     (case producer s of
        P_Ready \<Rightarrow> False
      | P_Own c w \<Rightarrow> c = Emplace v
      | P_Loaded c w r \<Rightarrow> c = Emplace v \<and> k \<le> producer_view s
      | P_Built u w \<Rightarrow> u = v)"

lemma emplacing_step:
  assumes inv: "ring_inv n ps rs s" and step: "ring_step s ev (Some t)" "fresh_producer k s t"
    and call: "emplacing k v s" "length ps < k + unat n"
  shows "if producer_answers [ev] = [] then emplacing k v t else ev = Pushed v \<or> ev = Push_Threw"
  using step(1)
proof cases
  case by_producer
  then show ?thesis
  proof cases
    case (push_fails u w r)
    with answer_inv(1) [OF inv push_fails(3)] call show ?thesis by (simp add: emplacing_def)
  next
    case (construct_object u w r)
    with call show ?thesis by (auto simp: emplacing_def producer_answers_def)
  qed (use call step(2) in \<open>auto simp: emplacing_def fresh_producer_def producer_answers_def split: producer_point.splits\<close>)
next
  case by_consumer
  then show ?thesis by cases (use call in \<open>auto simp: emplacing_def producer_answers_def split: producer_point.splits\<close>)
next
  case by_observer
  then show ?thesis by cases (use call in \<open>auto simp: emplacing_def producer_answers_def split: producer_point.splits\<close>)
qed

lemma emplacing_run:
  assumes "fresh_run k j s fs t" "ring_inv n ps rs s" "emplacing k v s" "length ps < k + unat n"
  shows "case producer_answers fs of
      [] \<Rightarrow> emplacing k v t \<and> ring_inv n ps (rs @ pops fs) t
    | a # _ \<Rightarrow> a = Pushed v \<or> a = Push_Threw"
  using assms(1) unfolding fresh_run_def
proof (induction rule: event_run.induct)
  case run_start
  with assms(2,3) show ?case by simp
next
  case (run_step fs t ev u)
  show ?case
  proof (cases "producer_answers fs")
    case Nil
    with run_step.IH have t: "emplacing k v t" "ring_inv n ps (rs @ pops fs) t" by simp_all
    have step: "ring_step t ev (Some u)" "fresh_producer k t u" using run_step.hyps(2) by simp_all
    have "ring_inv n (ps @ pushes [ev]) ((rs @ pops fs) @ pops [ev]) u"
      using ring_step_inv [OF t(2) step(1)] by simp
    with emplacing_step [OF t(2) step t(1) assms(4)] Nil no_answer_no_value(1) [of "[ev]"] show ?thesis
      by (cases "producer_answers [ev]") (auto simp: producer_answers_def split: if_splits)
  qed (use run_step.IH in simp)
qed

text \<open>Alone, the producer returns from it after at most three more steps, with the value pushed.\<close>

lemma emplace_finishes:
  assumes inv: "ring_inv n ps rs s" and call: "emplacing k v s" "length ps < k + unat n" "k \<le> length rs"
  shows "\<exists>evs t. producer_alone k s evs t \<and> length evs \<le> 3 \<and> producer_answers evs = [Pushed v] \<and>
    pushes evs = [v] \<and> pops evs = [] \<and> producer t = P_Ready \<and> consumer t = consumer s"
proof -
  have built: "\<exists>t. producer_alone k u [Pushed v] t \<and> producer t = P_Ready \<and> consumer t = consumer u"
    if p: "producer u = P_Built v w" for u w
    using alone_step(1) [OF producer_step.release_write [OF p]]
    by (fastforce simp: fresh_producer_def producer_alone_def p intro: event_run.run_start)
  have loaded: "\<exists>t. producer_alone k u [Silent, Pushed v] t \<and> producer t = P_Ready \<and> consumer t = consumer u"
    if u: "ring_inv n ps rs u" "producer u = P_Loaded (Emplace v) w r" "k \<le> producer_view u" for u w r
  proof -
    have c: "w - r \<noteq> capacity (shared u)" using answer_inv(1) [OF u(1,2)] u(3) call(2) by simp
    obtain q where q: "construct (shared u) (producer_view u) w v = Some q"
      using construct_step [OF u(1,2) c] by blast
    have "producer_step u Silent (Some (u\<lparr>shared := q, producer := P_Built v w\<rparr>))"
      using producer_step.construct_object [OF u(2) c] q by simp
    with built [of "u\<lparr>shared := q, producer := P_Built v w\<rparr>" w] show ?thesis
      by (fastforce simp: fresh_producer_def u(2) intro: alone_step(1))
  qed
  show ?thesis
  proof (cases "producer s")
    case P_Ready
    with call(1) show ?thesis by (simp add: emplacing_def)
  next
    case (P_Own c w)
    have load: "loadable (read_stores (shared s)) (producer_view s) (length rs)" using fresh_load [OF inv] by simp
    let ?u = "s\<lparr>producer := P_Loaded c w (stored (read_stores (shared s) ! length rs)), producer_view := length rs\<rparr>"
    have step: "producer_step s Silent (Some ?u)" by (rule producer_step.acquire_read [OF P_Own load])
    have "ring_inv n ps rs ?u" using ring_step_inv [OF inv by_producer [OF step]] by simp
    then obtain t where "producer_alone k ?u [Silent, Pushed v] t" "producer t = P_Ready" "consumer t = consumer ?u"
      using loaded [of ?u w] call(1,3) P_Own by (auto simp: emplacing_def)
    with alone_step(1) [OF step, of k "[Silent, Pushed v]" t] call(3) show ?thesis
      by (intro exI [of _ "[Silent, Silent, Pushed v]"] exI [of _ t])
        (simp add: fresh_producer_def P_Own producer_answers_def)
  next
    case (P_Loaded c w r)
    with call(1) loaded [OF inv, of w r] show ?thesis
      by (auto simp: emplacing_def producer_answers_def intro!: exI [of _ "[Silent, Pushed v]"])
  next
    case (P_Built u w)
    with call(1) built [of s w] show ?thesis
      by (auto simp: emplacing_def producer_answers_def intro!: exI [of _ "[Pushed v]"])
  qed
qed

lemma push_alone:
  assumes inv: "ring_inv n ps rs s" and p: "producer s = P_Ready" "length ps < length rs + unat n"
  shows "\<exists>evs t. ring_run s evs t \<and> pushes evs = [v] \<and> pops evs = [] \<and> producer t = P_Ready \<and>
    consumer t = consumer s"
proof -
  let ?u = "s\<lparr>producer := P_Own (Emplace v) (own_index (write_stores (shared s)))\<rparr>"
  have step: "producer_step s Silent (Some ?u)" by (rule producer_step.load_own_write [OF p(1)])
  have "ring_inv n ps rs ?u" using ring_step_inv [OF inv by_producer [OF step]] by simp
  from emplace_finishes [OF this, of "length rs" v] p(2)
  obtain evs t where "producer_alone (length rs) ?u evs t" "pushes evs = [v]" "pops evs = []"
    "producer t = P_Ready" "consumer t = consumer s" by (auto simp: emplacing_def)
  with alone_step(1) [OF step, of "length rs" evs t] alone_run(1) show ?thesis
    by (intro exI [of _ "Silent # evs"] exI [of _ t]) (simp add: fresh_producer_def p(1))
qed

subsection \<open>A pop\<close>

text \<open>The consumer is in a pop and its load found, or will find, \<open>k\<close> pushes.\<close>

definition popping :: "nat \<Rightarrow> 'a ring_system \<Rightarrow> bool" where
  "popping k s \<longleftrightarrow>
     (case consumer s of
        C_Ready \<Rightarrow> False
      | C_Own d r \<Rightarrow> d = Try_Pop
      | C_Loaded d r w \<Rightarrow> d = Try_Pop \<and> k \<le> consumer_view s
      | _ \<Rightarrow> True)"

lemma popping_step:
  assumes inv: "ring_inv n ps rs s" and step: "ring_step s ev (Some t)" "fresh_consumer k s t"
    and call: "popping k s" "length rs < k"
  shows "if consumer_answers [ev] = [] then popping k t else ev = Popped (ps ! length rs)"
  using step(1)
proof cases
  case by_consumer
  then show ?thesis
  proof cases
    case (pop_fails r w)
    with answer_inv(2) [OF inv pop_fails(3)] call show ?thesis by (simp add: popping_def)
  next
    case (release_read v r)
    then have "v = ps ! length rs" using inv by (simp add: ring_inv_def consumer_ok_def)
    with release_read show ?thesis by (simp add: consumer_answers_def)
  qed (use call step(2) in \<open>auto simp: popping_def fresh_consumer_def consumer_answers_def split: consumer_point.splits\<close>)
next
  case by_producer
  then show ?thesis by cases (use call in \<open>auto simp: popping_def consumer_answers_def split: consumer_point.splits\<close>)
next
  case by_observer
  then show ?thesis by cases (use call in \<open>auto simp: popping_def consumer_answers_def split: consumer_point.splits\<close>)
qed

lemma popping_run:
  assumes "fresh_run j k s fs t" "ring_inv n ps rs s" "popping k s" "length rs < k" "k \<le> length ps"
  shows "case consumer_answers fs of
      [] \<Rightarrow> popping k t \<and> ring_inv n (ps @ pushes fs) rs t
    | a # _ \<Rightarrow> a = Popped (ps ! length rs)"
  using assms(1) unfolding fresh_run_def
proof (induction rule: event_run.induct)
  case run_start
  with assms(2,3) show ?case by simp
next
  case (run_step fs t ev u)
  show ?case
  proof (cases "consumer_answers fs")
    case Nil
    with run_step.IH have t: "popping k t" "ring_inv n (ps @ pushes fs) rs t" by simp_all
    have step: "ring_step t ev (Some u)" "fresh_consumer k t u" using run_step.hyps(2) by simp_all
    have "ring_inv n ((ps @ pushes fs) @ pushes [ev]) (rs @ pops [ev]) u"
      using ring_step_inv [OF t(2) step(1)] by simp
    moreover have "(ps @ pushes fs) ! length rs = ps ! length rs" using assms(4,5) by (simp add: nth_append)
    ultimately show ?thesis
      using popping_step [OF t(2) step t(1) assms(4)] Nil no_answer_no_value(2) [of "[ev]"]
      by (cases "consumer_answers [ev]") (auto simp: consumer_answers_def split: if_splits)
  qed (use run_step.IH in simp)
qed

text \<open>Alone, the consumer returns from it after at most four more steps, with the oldest value.\<close>

lemma pop_finishes:
  assumes inv: "ring_inv n ps rs s" and call: "popping k s" "length rs < k" "k \<le> length ps"
  shows "\<exists>evs t. consumer_alone k s evs t \<and> length evs \<le> 4 \<and> consumer_answers evs = [Popped (ps ! length rs)] \<and>
    pushes evs = [] \<and> pops evs = [ps ! length rs] \<and> consumer t = C_Ready \<and> producer t = producer s"
proof -
  let ?v = "ps ! length rs"
  have destroyed: "\<exists>t. consumer_alone k u [Popped v] t \<and> consumer t = C_Ready \<and> producer t = producer u"
    if c: "consumer u = C_Destroyed v r" for u v r
    using alone_step(2) [OF consumer_step.release_read [OF c]]
    by (fastforce simp: fresh_consumer_def consumer_alone_def c intro: event_run.run_start)
  have moved: "\<exists>t. consumer_alone k u [Silent, Popped v] t \<and> consumer t = C_Ready \<and> producer t = producer u"
    if u: "ring_inv n ps rs u" "consumer u = C_Moved v r" for u v r
  proof -
    obtain q where q: "destroy_moved (shared u) r = Some q" using destroy_step [OF u] by blast
    have "consumer_step u Silent (Some (u\<lparr>shared := q, consumer := C_Destroyed v r\<rparr>))"
      using consumer_step.destroy_object [OF u(2)] q by simp
    with destroyed [of "u\<lparr>shared := q, consumer := C_Destroyed v r\<rparr>" v r] show ?thesis
      by (fastforce simp: fresh_consumer_def u(2) intro: alone_step(2))
  qed
  have loaded: "\<exists>t. consumer_alone k u [Silent, Silent, Popped ?v] t \<and> consumer t = C_Ready \<and>
      producer t = producer u"
    if u: "ring_inv n ps rs u" "consumer u = C_Loaded Try_Pop r w" "k \<le> consumer_view u" for u w r
  proof -
    have c: "r \<noteq> w" using answer_inv(2) [OF u(1,2)] u(3) call(2) by simp
    obtain v q where q: "move_out (shared u) (consumer_view u) r = Some (v, q)"
      "ring_inv n ps rs (u\<lparr>shared := q, consumer := C_Moved v r\<rparr>)"
      using move_step [OF u(1,2) c] by blast
    then have v: "v = ?v" by (simp add: ring_inv_def consumer_ok_def)
    have "consumer_step u Silent (Some (u\<lparr>shared := q, consumer := C_Moved v r\<rparr>))"
      using consumer_step.move_object [OF u(2) c] q by simp
    with moved [OF q(2), of v r] v show ?thesis
      by (fastforce simp: fresh_consumer_def u(2) intro: alone_step(2))
  qed
  show ?thesis
  proof (cases "consumer s")
    case C_Ready
    with call(1) show ?thesis by (simp add: popping_def)
  next
    case (C_Own d r)
    have load: "loadable (write_stores (shared s)) (consumer_view s) (length ps)" using fresh_load [OF inv] by simp
    let ?u = "s\<lparr>consumer := C_Loaded d r (stored (write_stores (shared s) ! length ps)), consumer_view := length ps\<rparr>"
    have step: "consumer_step s Silent (Some ?u)" by (rule consumer_step.acquire_write [OF C_Own load])
    have "ring_inv n ps rs ?u" using ring_step_inv [OF inv by_consumer [OF step]] by simp
    then obtain t where "consumer_alone k ?u [Silent, Silent, Popped ?v] t" "consumer t = C_Ready"
      "producer t = producer ?u"
      using loaded [of ?u r] call(1,3) C_Own by (auto simp: popping_def)
    with alone_step(2) [OF step, of k "[Silent, Silent, Popped ?v]" t] call(3) show ?thesis
      by (intro exI [of _ "[Silent, Silent, Silent, Popped ?v]"] exI [of _ t])
        (simp add: fresh_consumer_def C_Own consumer_answers_def)
  next
    case (C_Loaded d r w)
    with call(1) loaded [OF inv, of r w] show ?thesis
      by (auto simp: popping_def consumer_answers_def intro!: exI [of _ "[Silent, Silent, Popped ?v]"])
  next
    case (C_Moved v r)
    moreover have "v = ?v" using inv C_Moved by (simp add: ring_inv_def consumer_ok_def)
    ultimately show ?thesis using moved [OF inv, of v r]
      by (auto simp: consumer_answers_def intro!: exI [of _ "[Silent, Popped ?v]"])
  next
    case (C_Destroyed v r)
    moreover have "v = ?v" using inv C_Destroyed by (simp add: ring_inv_def consumer_ok_def)
    ultimately show ?thesis using destroyed [of s v r]
      by (auto simp: consumer_answers_def intro!: exI [of _ "[Popped ?v]"])
  qed
qed

end
