(* ===== verification/Ring_Properties.thy ===== *)
theory Ring_Properties
  imports Ring_Calls
begin

section \<open>What the ring promises\<close>

text \<open>
  The properties of the ring over every interleaving of its producer, its consumer and a thread that
  takes snapshots, every choice of how stale their loads are, and any number of pushes, past the wrap
  of the indices too.
\<close>

lemma ring_reachable:
  assumes "new_ring memory n = Inr q" "ring_run (start q) evs s"
  shows "ring_inv n (pushes evs) (pops evs) s"
  using ring.run_ok [OF _ new_ring_inv [OF assms(1)]] assms(2) by (simp add: ring_run_def)

lemma ring_run_trans: "ring_run s evs t \<Longrightarrow> ring_run t fs u \<Longrightarrow> ring_run s (evs @ fs) u"
  unfolding ring_run_def by (rule event_run_trans)

text \<open>A ring of two slots, for the examples.\<close>

definition two_slots :: "nat ring" where
  "two_slots = \<lparr>capacity = 2, mask_bits = 1, slots = [Raw 0, Raw 0],
     write_stores = [first_store], read_stores = [first_store]\<rparr>"

lemma new_two_slots: "new_ring True 2 = Inr two_slots"
proof -
  have "replicate 2 (Raw 0 :: nat slot) = [Raw 0, Raw 0]" by (simp add: numeral_2_eq_2)
  then show ?thesis by (simp add: new_ring_def allocate_slots_def valid_capacity_def two_slots_def)
qed

subsection \<open>Construction\<close>

text \<open>A ring is made exactly for the powers of two that memory can be found for.\<close>

lemma valid_capacity_iff: "valid_capacity n \<longleftrightarrow> (\<exists>k<64. n = 2 ^ k)"
proof
  assume "valid_capacity n"
  then obtain k where "k < 64" "unat n = 2 ^ k" using power_of_two_capacity by blast
  then have "k < 64 \<and> n = 2 ^ k" by (metis of_nat_numeral of_nat_power of_nat_unat ucast_id)
  then show "\<exists>k<64. n = 2 ^ k" by blast
next
  assume "\<exists>k<64. n = 2 ^ k"
  then obtain k where k: "k < 64" "n = 2 ^ k" by blast
  have "n AND (n - 1) = 0"
    by (rule bit_eqI) (simp add: k(2) bit_and_iff bit_exp_iff bit_mask_iff flip: mask_eq_exp_minus_1)
  moreover have "bit n k" using k by (simp add: bit_exp_iff)
  then have "n \<noteq> 0" by auto
  ultimately show "valid_capacity n" by (simp add: valid_capacity_def)
qed

lemma new_ring_capacity:
  "(\<exists>q. new_ring memory n = Inr q) \<longleftrightarrow> memory \<and> (\<exists>k<64. n = 2 ^ k)"
  "new_ring memory n = Inl Invalid_Argument \<longleftrightarrow> \<not> (\<exists>k<64. n = 2 ^ k)"
  using valid_capacity_iff [of n] by (auto simp: new_ring_def allocate_slots_def)

subsection \<open>Progress\<close>

text \<open>How many steps a call has left before it returns, at most.\<close>

fun producer_left :: "'a producer_point \<Rightarrow> nat" where
  "producer_left P_Ready = 0"
| "producer_left (P_Own c w) = 3"
| "producer_left (P_Loaded c w r) = 2"
| "producer_left (P_Built v w) = 1"

fun consumer_left :: "'a consumer_point \<Rightarrow> nat" where
  "consumer_left C_Ready = 0"
| "consumer_left (C_Own d r) = 4"
| "consumer_left (C_Loaded d r w) = 3"
| "consumer_left (C_Moved v r) = 2"
| "consumer_left (C_Destroyed v r) = 1"

lemma producer_enabled:
  assumes "ring_inv n ps rs s"
  shows "\<exists>ev t. producer_step s ev (Some t) \<and> producer t \<noteq> producer s"
proof (cases "producer s")
  case P_Ready
  then show ?thesis using producer_step.load_own_write [of s Full] by fastforce
next
  case (P_Own c w)
  with fresh_load [OF assms] show ?thesis using producer_step.acquire_read [of s c w] by fastforce
next
  case (P_Loaded c w r)
  show ?thesis
  proof (cases c)
    case Full
    with P_Loaded show ?thesis using producer_step.report_full [of s w r] by fastforce
  next
    case (Emplace v)
    with P_Loaded construct_step [OF assms, of v w r] show ?thesis
      using producer_step.push_fails [of s v w r] producer_step.construct_object [of s v w r]
      by (cases "w - r = capacity (shared s)") fastforce+
  qed
next
  case (P_Built v w)
  then show ?thesis using producer_step.release_write [of s v w] by fastforce
qed

lemma consumer_enabled:
  assumes "ring_inv n ps rs s"
  shows "\<exists>ev t. consumer_step s ev (Some t) \<and> consumer t \<noteq> consumer s"
proof (cases "consumer s")
  case C_Ready
  then show ?thesis using consumer_step.load_own_read [of s Empty] by fastforce
next
  case (C_Own d r)
  with fresh_load [OF assms] show ?thesis using consumer_step.acquire_write [of s d r] by fastforce
next
  case (C_Loaded d r w)
  show ?thesis
  proof (cases d)
    case Empty
    with C_Loaded show ?thesis using consumer_step.report_empty [of s r w] by fastforce
  next
    case Try_Pop
    with C_Loaded move_step [OF assms, of r w] show ?thesis
      using consumer_step.pop_fails [of s r w] consumer_step.move_object [of s r w]
      by (cases "r = w") fastforce+
  qed
next
  case (C_Moved v r)
  with destroy_step [OF assms, of v r] show ?thesis using consumer_step.destroy_object [of s v r] by fastforce
next
  case (C_Destroyed v r)
  then show ?thesis using consumer_step.release_read [of s v r] by fastforce
qed

lemma producer_left_le: "producer_left p \<le> 3"
  by (cases p) auto

lemma consumer_left_le: "consumer_left c \<le> 4"
  by (cases c) auto

lemma producer_step_left:
  "producer_step s ev t \<Longrightarrow> t = Some u \<Longrightarrow>
     consumer u = consumer s \<and> (producer s = P_Ready \<or> producer_left (producer u) < producer_left (producer s))"
  by (induction rule: producer_step.induct) auto

lemma consumer_step_left:
  "consumer_step s ev t \<Longrightarrow> t = Some u \<Longrightarrow>
     producer u = producer s \<and> (consumer s = C_Ready \<or> consumer_left (consumer u) < consumer_left (consumer s))"
  by (induction rule: consumer_step.induct) auto

text \<open>
  C31: both ends are wait-free. In every reachable state each thread can take a step of its own,
  whatever the other one is doing, every step of a call brings it nearer to its return, which is
  three steps away for a push and four for a pop once they have read their own index, and no step of one thread sets the other one back.
\<close>

theorem ring_wait_free:
  assumes "new_ring memory n = Inr q" "ring_run (start q) evs s"
  shows "(\<exists>ev t. producer_step s ev (Some t) \<and> producer t \<noteq> producer s) \<and>
    (\<exists>ev t. consumer_step s ev (Some t) \<and> consumer t \<noteq> consumer s) \<and>
    (\<forall>ev t. producer_step s ev (Some t) \<longrightarrow> consumer t = consumer s \<and>
      (producer s = P_Ready \<or> producer_left (producer t) < producer_left (producer s))) \<and>
    (\<forall>ev t. consumer_step s ev (Some t) \<longrightarrow> producer t = producer s \<and>
      (consumer s = C_Ready \<or> consumer_left (consumer t) < consumer_left (consumer s))) \<and>
    producer_left (producer s) \<le> 3 \<and> consumer_left (consumer s) \<le> 4"
  using producer_enabled [OF ring_reachable [OF assms]] consumer_enabled [OF ring_reachable [OF assms]]
    producer_step_left [OF _ refl] consumer_step_left [OF _ refl] producer_left_le consumer_left_le
  by blast

text \<open>The example ring after one push of 5, and after another of 6.\<close>

lemma one_pushed:
  obtains evs s where "ring_run (start two_slots) evs s" "pushes evs = [5]" "pops evs = []"
    "producer s = P_Ready" "consumer s = C_Ready"
  using push_alone [OF new_ring_inv [OF new_two_slots], of 5] by (auto simp: start_def)

lemma two_pushed:
  obtains evs s where "ring_run (start two_slots) evs s" "pushes evs = [5, 6]" "pops evs = []"
    "producer s = P_Ready" "consumer s = C_Ready"
proof -
  obtain evs s where s: "ring_run (start two_slots) evs s" "pushes evs = [5]" "pops evs = []"
    "producer s = P_Ready" "consumer s = C_Ready" by (rule one_pushed)
  obtain fs t where "ring_run s fs t" "pushes fs = [6]" "pops fs = []" "producer t = P_Ready"
    "consumer t = C_Ready"
    using push_alone [OF ring_reachable [OF new_two_slots s(1)] s(4), of 6] s by auto
  with s show ?thesis using that [OF ring_run_trans [OF s(1)]] by simp
qed

lemma ring_wait_free_witness:
  "\<exists>evs s ev t. ring_run (start two_slots) evs s \<and> pushes evs = [5] \<and> consumer_step s ev (Some t)"
proof -
  obtain evs s where s: "ring_run (start two_slots) evs s" "pushes evs = [5]" by (rule one_pushed)
  with ring_wait_free [OF new_two_slots s(1)] show ?thesis by blast
qed

text \<open>
  C32: a push begun while the ring is not full, whose load finds the pops there were by then, is never
  refused: in every run, whatever the other threads do, its answer is the push of its value or the
  exception of the value's constructor. A pop begun while the ring is not empty, whose load finds the
  pushes there were, delivers the oldest value, in every run. And neither needs the other thread: as
  long as there is no answer, the thread alone gets there in three, in four steps.
\<close>

theorem ring_accepts_and_delivers:
  assumes "new_ring memory n = Inr q" "ring_run (start q) evs s"
  shows "(\<forall>w fs t. producer s = P_Own (Emplace v) w \<longrightarrow> length (pushes evs) < length (pops evs) + unat n \<longrightarrow>
      fresh_run (length (pops evs)) 0 s fs t \<longrightarrow>
      (case producer_answers fs of
         [] \<Rightarrow> \<exists>gs u. producer_alone (length (pops evs)) t gs u \<and> length gs \<le> 3 \<and>
           producer_answers gs = [Pushed v] \<and> consumer u = consumer t
       | a # _ \<Rightarrow> a = Pushed v \<or> a = Push_Threw)) \<and>
    (\<forall>r fs t. consumer s = C_Own Try_Pop r \<longrightarrow> length (pops evs) < length (pushes evs) \<longrightarrow>
      fresh_run 0 (length (pushes evs)) s fs t \<longrightarrow>
      (case consumer_answers fs of
         [] \<Rightarrow> \<exists>gs u. consumer_alone (length (pushes evs)) t gs u \<and> length gs \<le> 4 \<and>
           consumer_answers gs = [Popped (pushes evs ! length (pops evs))] \<and> producer u = producer t
       | a # _ \<Rightarrow> a = Popped (pushes evs ! length (pops evs))))"
proof (intro conjI allI impI)
  note inv = ring_reachable [OF assms]
  let ?ps = "pushes evs" and ?rs = "pops evs"
  show "case producer_answers fs of
         [] \<Rightarrow> \<exists>gs u. producer_alone (length ?rs) t gs u \<and> length gs \<le> 3 \<and>
           producer_answers gs = [Pushed v] \<and> consumer u = consumer t
       | a # _ \<Rightarrow> a = Pushed v \<or> a = Push_Threw"
    if "producer s = P_Own (Emplace v) w" "length ?ps < length ?rs + unat n"
      "fresh_run (length ?rs) 0 s fs t" for w fs t
  proof (cases "producer_answers fs")
    case Nil
    with emplacing_run [OF that(3) inv _ that(2), of v] that(1)
    have t: "emplacing (length ?rs) v t" "ring_inv n ?ps (?rs @ pops fs) t" by (simp_all add: emplacing_def)
    from emplace_finishes [OF t(2,1) that(2)] Nil show ?thesis by auto
  qed (use emplacing_run [OF that(3) inv _ that(2), of v] that(1) in \<open>simp add: emplacing_def\<close>)
  show "case consumer_answers fs of
         [] \<Rightarrow> \<exists>gs u. consumer_alone (length ?ps) t gs u \<and> length gs \<le> 4 \<and>
           consumer_answers gs = [Popped (?ps ! length ?rs)] \<and> producer u = producer t
       | a # _ \<Rightarrow> a = Popped (?ps ! length ?rs)"
    if "consumer s = C_Own Try_Pop r" "length ?rs < length ?ps" "fresh_run 0 (length ?ps) s fs t" for r fs t
  proof (cases "consumer_answers fs")
    case Nil
    with popping_run [OF that(3) inv _ that(2)] that(1)
    have t: "popping (length ?ps) t" "ring_inv n (?ps @ pushes fs) ?rs t" by (simp_all add: popping_def)
    have "(?ps @ pushes fs) ! length ?rs = ?ps ! length ?rs" using that(2) by (simp add: nth_append)
    with pop_finishes [OF t(2,1) that(2)] Nil show ?thesis by auto
  qed (use popping_run [OF that(3) inv _ that(2)] that(1) in \<open>simp add: popping_def\<close>)
qed

lemma ring_accepts_and_delivers_witness:
  "\<exists>evs s gs u. ring_run (start two_slots) evs s \<and> pushes evs = [5, 6] \<and>
     consumer_alone 2 s gs u \<and> consumer_answers gs = [Popped 5]"
proof -
  obtain evs s where s: "ring_run (start two_slots) evs s" "pushes evs = [5, 6]" "pops evs = []"
    "consumer s = C_Ready" by (rule two_pushed)
  let ?t = "s\<lparr>consumer := C_Own Try_Pop (own_index (read_stores (shared s)))\<rparr>"
  have "ring_step s Silent (Some ?t)" by (rule by_consumer [OF consumer_step.load_own_read [OF s(4)]])
  then have t: "ring_run (start two_slots) (evs @ [Silent]) ?t"
    using ring_run_trans [OF s(1)] by (simp add: ring_run_def event_run_one)
  have vals: "pushes (evs @ [Silent]) = [5, 6]" "pops (evs @ [Silent]) = []" using s(2,3) by simp_all
  have fresh: "fresh_run 0 (length (pushes (evs @ [Silent]))) ?t [] ?t"
    by (simp add: fresh_run_def event_run.run_start)
  have "consumer ?t = C_Own Try_Pop (own_index (read_stores (shared s)))"
    "length (pops (evs @ [Silent])) < length (pushes (evs @ [Silent]))" using s(2,3) by simp_all
  from conjunct2 [OF ring_accepts_and_delivers [OF new_two_slots t, of 0], rule_format, OF this fresh]
  have "\<exists>gs u. consumer_alone (length [5 :: nat, 6]) ?t gs u \<and> length gs \<le> 4 \<and>
      consumer_answers gs = [Popped ([5, 6] ! length ([] :: nat list))] \<and> producer u = producer ?t"
    by (simp only: vals answers_simps list.case)
  then obtain gs u where "consumer_alone 2 ?t gs u" "consumer_answers gs = [Popped 5]"
    by (auto simp: numeral_2_eq_2)
  with t vals(1) show ?thesis by blast
qed

subsection \<open>Safety and order\<close>

text \<open>
  C8: no step of any reachable state is undefined: no data race on a slot, no object constructed over
  another, used before its construction or after its destruction, no slot outside of the array.
\<close>

theorem ring_never_undefined:
  assumes "new_ring memory n = Inr q" "ring_run (start q) evs s" "ring_step s ev t"
  shows "t \<noteq> None"
  using ring_step_inv [OF ring_reachable [OF assms(1,2)] assms(3)] by auto

lemma ring_never_undefined_witness:
  "\<exists>evs s t. ring_run (start two_slots) evs s \<and> pushes evs = [5] \<and>
     ring_step s Silent (Some t) \<and> consumer t \<noteq> C_Ready"
proof -
  obtain evs s where s: "ring_run (start two_slots) evs s" "pushes evs = [5]" "consumer s = C_Ready"
    by (rule one_pushed)
  let ?t = "Some (s\<lparr>consumer := C_Own Try_Pop (own_index (read_stores (shared s)))\<rparr>)"
  have t: "ring_step s Silent ?t" by (rule by_consumer [OF consumer_step.load_own_read [OF s(3)]])
  from ring_never_undefined [OF new_two_slots s(1) t] have "?t \<noteq> None" .
  with s t show ?thesis by (intro exI conjI) (assumption, assumption, rule t, simp)
qed

text \<open>
  C4: the ring is a bounded first-in first-out queue: the pushes and pops of any run, in the order in
  which they return, are those of a queue of that capacity, which holds what was pushed and not yet
  popped. Nothing is lost, duplicated, reordered or overwritten.
\<close>

theorem ring_is_bounded_queue:
  assumes "new_ring memory n = Inr q" "ring_run (start q) evs s"
  shows "bounded_queue (unat n) [] evs = Some (drop (length (pops evs)) (pushes evs)) \<and>
    pops evs = take (length (pops evs)) (pushes evs)"
  using ring.run_accepted [OF _ new_ring_inv [OF assms(1)]] ring.in_order [OF ring_reachable [OF assms]]
    assms(2) by (simp add: ring_run_def)

lemma ring_is_bounded_queue_witness:
  "\<exists>evs s. ring_run (start two_slots) evs s \<and> bounded_queue 2 [] evs = Some [5, 6]"
proof -
  obtain evs s where s: "ring_run (start two_slots) evs s" "pushes evs = [5, 6]" "pops evs = []"
    by (rule two_pushed)
  with ring_is_bounded_queue [OF new_two_slots s(1)] show ?thesis by auto
qed

subsection \<open>Answers\<close>

text \<open>
  C33: a push is refused and \<^verbatim>\<open>full\<close> is true exactly when all slots are taken by pushes whose
  pop the producer has not seen; a pop is refused and \<^verbatim>\<open>empty\<close> is true exactly when the
  consumer has popped all it has seen. What a thread has seen never exceeds what happened.
\<close>

theorem ring_answers:
  assumes "new_ring memory n = Inr q" "ring_run (start q) evs s" "ring_step s ev t"
  shows "producer_view s \<le> length (pops evs) \<and> consumer_view s \<le> length (pushes evs) \<and>
    (case ev of
       Push_Failed \<Rightarrow> length (pushes evs) = producer_view s + unat n
     | Full_Is b \<Rightarrow> b = (length (pushes evs) = producer_view s + unat n)
     | Pop_Failed \<Rightarrow> consumer_view s = length (pops evs)
     | Empty_Is b \<Rightarrow> b = (consumer_view s = length (pops evs))
     | _ \<Rightarrow> True)"
proof -
  note inv = ring_reachable [OF assms(1,2)]
  have "producer_view s \<le> length (pops evs)" "consumer_view s \<le> length (pushes evs)"
    using inv by (simp_all add: ring_inv_def)
  moreover have "case ev of
       Push_Failed \<Rightarrow> length (pushes evs) = producer_view s + unat n
     | Full_Is b \<Rightarrow> b = (length (pushes evs) = producer_view s + unat n)
     | Pop_Failed \<Rightarrow> consumer_view s = length (pops evs)
     | Empty_Is b \<Rightarrow> b = (consumer_view s = length (pops evs))
     | _ \<Rightarrow> True"
    using assms(3)
  proof cases
    case by_producer
    then show ?thesis by cases (use answer_inv(1) [OF inv] in simp_all)
  next
    case by_consumer
    then show ?thesis by cases (use answer_inv(2) [OF inv] in simp_all)
  next
    case by_observer
    then show ?thesis by cases simp_all
  qed
  ultimately show ?thesis by blast
qed

lemma ring_answers_witness:
  "\<exists>s t. ring_run (start two_slots) [Silent, Silent] s \<and> ring_step s (Empty_Is True) t"
proof -
  let ?s1 = "(start two_slots)\<lparr>consumer := C_Own Empty 0\<rparr>"
  let ?s2 = "(start two_slots)\<lparr>consumer := C_Loaded Empty 0 0\<rparr>"
  have "ring_step (start two_slots) Silent (Some ?s1)"
    using by_consumer [OF consumer_step.load_own_read [of "start two_slots" Empty]]
    by (simp add: start_def two_slots_def own_index_def first_store_def)
  moreover have "ring_step ?s1 Silent (Some ?s2)"
    using by_consumer [OF consumer_step.acquire_write [of ?s1 Empty 0 0]]
    by (simp add: start_def two_slots_def loadable_def first_store_def)
  ultimately have run: "ring_run (start two_slots) ([Silent] @ [Silent]) ?s2"
    unfolding ring_run_def by (intro event_run_trans event_run_one) assumption+
  have step: "ring_step ?s2 (Empty_Is True) (Some (?s2\<lparr>consumer := C_Ready\<rparr>))"
    using by_consumer [OF consumer_step.report_empty [of ?s2 0 0]] by simp
  from ring_answers [OF new_two_slots run step] have "consumer_view ?s2 = 0" by simp
  with run step show ?thesis by auto
qed

text \<open>
  C34: \<^verbatim>\<open>size\<close> takes its second read of the write index no earlier than the read index it
  subtracts, so that the difference counts pushes and is never negative. Its answer is that count,
  modulo \<open>2 ^ 64\<close>, cut at the capacity.
\<close>

theorem ring_size_bounded:
  assumes "new_ring memory n = Inr q" "ring_run (start q) evs s" "ring_step s (Size_Is z) (Some t)"
  shows "observer_reads s \<le> observer_writes t \<and> observer_reads s \<le> length (pops evs) \<and>
    observer_writes t \<le> length (pushes evs) \<and>
    unat z = min ((observer_writes t - observer_reads s) mod 2 ^ 64) (unat n)"
proof -
  note inv = ring_reachable [OF assms(1,2)]
  obtain r i where i: "observer s = O_Read r" "loadable (write_stores (shared s)) (observer_writes s) i"
    "observer_writes t = i"
    "z = (if stored (write_stores (shared s) ! i) - r \<le> capacity (shared s)
      then stored (write_stores (shared s) ! i) - r else capacity (shared s))"
    using assms(3) by (auto elim!: ring_stepE elim: producer_step.cases consumer_step.cases size_isE)
  note st = stores_ok_nth [OF ring_invD(6) [OF inv] i(2)]
  have o: "r = of_nat (observer_reads s)" "observer_reads s \<le> i" "observer_reads s \<le> length (pops evs)"
    using inv i(1) st(4) by (auto simp: ring_inv_def observer_ok_def)
  then have "stored (write_stores (shared s) ! i) - r = of_nat (i - observer_reads s)"
    using st(1) by (simp add: of_nat_diff)
  moreover have "unat (of_nat (i - observer_reads s) :: size_t) = (i - observer_reads s) mod 2 ^ 64"
    by (simp add: unsigned_of_nat take_bit_eq_mod)
  ultimately have "unat z = min ((i - observer_reads s) mod 2 ^ 64) (unat n)"
    using i(4) ring_invD(9) [OF inv] by (auto simp: word_le_nat_alt)
  with o st(3) i(3) show ?thesis by simp
qed

lemma ring_size_bounded_witness:
  "\<exists>s t. ring_run (start two_slots) [Silent, Silent] s \<and> ring_step s (Size_Is 0) (Some t) \<and>
     observer_writes t = 0"
proof -
  let ?s1 = "(start two_slots)\<lparr>observer := O_Before\<rparr>"
  let ?s2 = "(start two_slots)\<lparr>observer := O_Read 0\<rparr>"
  have "ring_step (start two_slots) Silent (Some ?s1)"
    using by_observer [OF observer_step.size_before [of "start two_slots" 0]]
    by (simp add: start_def two_slots_def loadable_def first_store_def)
  moreover have "ring_step ?s1 Silent (Some ?s2)"
    using by_observer [OF observer_step.size_read [of ?s1 0]]
    by (simp add: start_def two_slots_def loadable_def first_store_def)
  ultimately have run: "ring_run (start two_slots) ([Silent] @ [Silent]) ?s2"
    unfolding ring_run_def by (intro event_run_trans event_run_one) assumption+
  have step: "ring_step ?s2 (Size_Is 0) (Some (start two_slots))"
    using by_observer [OF observer_step.size_write [of ?s2 0 0]]
    by (simp add: start_def two_slots_def loadable_def first_store_def)
  from ring_size_bounded [OF new_two_slots run step] have "observer_writes (start two_slots :: nat ring_system) = 0"
    by simp
  with run step show ?thesis by auto
qed

subsection \<open>Destruction\<close>

declare clear_from.simps [simp del]

text \<open>The slot of the \<open>m\<close>-th push still has its object, or is raw when there was no such push.\<close>

definition live_until :: "'a ring \<Rightarrow> nat \<Rightarrow> nat \<Rightarrow> bool" where
  "live_until q W m \<longleftrightarrow>
     (if m < W then \<exists>v e. slots q ! (m mod length (slots q)) = Live v e
      else \<exists>e. slots q ! (m mod length (slots q)) = Raw e)"

definition clearable :: "'a ring \<Rightarrow> nat \<Rightarrow> nat \<Rightarrow> bool" where
  "clearable q R W \<longleftrightarrow> R \<le> W \<and> W \<le> R + length (slots q) \<and> valid_capacity (capacity q) \<and>
     mask_bits q = capacity q - 1 \<and> length (slots q) = unat (capacity q) \<and>
     (\<forall>m. R \<le> m \<longrightarrow> m < R + length (slots q) \<longrightarrow> live_until q W m)"

lemma clearable_slot:
  assumes "clearable q R W" "R \<le> m" "m < R + length (slots q)"
  shows "live_until q W m"
  using assms unfolding clearable_def by blast

lemma all_slots_in_window:
  assumes "j < N"
  shows "\<exists>m \<ge> R. m < R + N \<and> m mod N = (j :: nat)"
proof (intro exI conjI)
  let ?m = "R + (j + N - R mod N) mod N"
  have "R mod N < N" using assms by simp
  then have le: "R mod N \<le> j + N" by linarith
  show "R \<le> ?m" by simp
  show "?m < R + N" using assms by simp
  have "?m mod N = (R mod N + (j + N - R mod N)) mod N" by (simp add: mod_add_left_eq mod_add_right_eq)
  also have "\<dots> = j" using le assms by simp
  finally show "?m mod N = j" .
qed

lemma clear_from_ok:
  assumes "clearable q R W"
  shows "\<exists>q'. clear_from (of_nat R) (of_nat W) q = Some q' \<and> (\<forall>x \<in> set (slots q'). \<exists>e. x = Raw e)"
  using assms
proof (induction "W - R" arbitrary: R q)
  case 0
  then have "R = W" by (simp add: clearable_def)
  have "\<exists>e. slots q ! j = Raw e" if j: "j < length (slots q)" for j
  proof -
    obtain m where "R \<le> m" "m < R + length (slots q)" "m mod length (slots q) = j"
      using all_slots_in_window [OF j] by blast
    with 0 \<open>R = W\<close> show ?thesis using clearable_slot [of q R W] by (auto simp: live_until_def)
  qed
  then have "\<forall>x \<in> set (slots q). \<exists>e. x = Raw e" by (auto simp: in_set_conv_nth)
  moreover have "clear_from (of_nat R) (of_nat W) q = Some q"
    by (subst clear_from.simps) (simp add: \<open>R = W\<close>)
  ultimately show ?case by blast
next
  case (Suc d)
  let ?N = "length (slots q)"
  have c: "R < W" "W \<le> R + unat (capacity q)" "valid_capacity (capacity q)" "0 < ?N" "?N = unat (capacity q)"
    using Suc.prems Suc.hyps(2) capacity_bound by (auto simp: clearable_def)
  have "R < R + ?N" using c(4) by simp
  then obtain v e where v: "slots q ! (R mod ?N) = Live v e"
    using clearable_slot [OF Suc.prems order.refl] c(1) by (auto simp: live_until_def)
  have at: "slot_at q (of_nat R) = R mod ?N"
    using Suc.prems index_in_slots [OF c(3)] by (simp add: slot_at_def clearable_def)
  let ?q = "q\<lparr>slots := (slots q)[R mod ?N := Raw e]\<rparr>"
  have d: "destroy_live q (of_nat R) = Some ?q" using c v by (simp add: destroy_live_def at)
  have "clearable ?q (Suc R) W"
  proof -
    have "live_until ?q W m" if m: "Suc R \<le> m" "m < Suc R + ?N" for m
    proof (cases "m = R + ?N")
      case False
      with m have "m < R + ?N" by linarith
      then have "R mod ?N \<noteq> m mod ?N" using mod_window [of R R ?N m] m(1) c(4) by fastforce
      moreover have "R \<le> m" "m < R + ?N" using m(1) \<open>m < R + ?N\<close> by simp_all
      ultimately show ?thesis using clearable_slot [OF Suc.prems] by (auto simp: live_until_def)
    qed (use c in \<open>auto simp: live_until_def\<close>)
    with Suc.prems c show ?thesis by (simp add: clearable_def)
  qed
  moreover have "d = W - Suc R" using Suc.hyps(2) by simp
  ultimately obtain q' where "clear_from (of_nat (Suc R)) (of_nat W) ?q = Some q'"
    "\<forall>x \<in> set (slots q'). \<exists>e. x = Raw e"
    using Suc.hyps(1) [of "Suc R" ?q] by blast
  moreover have "(of_nat R :: size_t) \<noteq> of_nat W" using near_indices(1) [of R W] c by simp
  ultimately show ?case by (subst clear_from.simps) (simp add: d add.commute)
qed

text \<open>
  C35: the destructor of a ring whose threads have returned ends the lifetime of exactly the objects
  still in it: its loop returns, touches no slot without an object, and leaves only raw storage.
\<close>

theorem ring_clear_destroys_all:
  assumes "new_ring memory n = Inr q" "ring_run (start q) evs s" "producer s = P_Ready" "consumer s = C_Ready"
  shows "\<exists>q'. ring_clear (shared s) = Some q' \<and> (\<forall>x \<in> set (slots q'). \<exists>e. x = Raw e)"
proof -
  note inv = ring_reachable [OF assms(1,2)]
  note ok = ring_invD [OF inv]
  have "clearable (shared s) (length (pops evs)) (length (pushes evs))"
    using ok(1,2,4,5) assms(3,4) by (auto simp: clearable_def live_until_def ring_ok_def slots_ok_def due_slot_def)
  from clear_from_ok [OF this] show ?thesis
    using own_index_ok [OF ok(6)] own_index_ok [OF ok(7)] by (simp add: ring_clear_def)
qed

lemma ring_clear_destroys_all_witness:
  "\<exists>evs s q'. ring_run (start two_slots) evs s \<and> pushes evs = [5, 6] \<and> ring_clear (shared s) = Some q' \<and>
     (\<forall>x \<in> set (slots q'). \<exists>e. x = Raw e)"
proof -
  obtain evs s where s: "ring_run (start two_slots) evs s" "pushes evs = [5, 6]" "producer s = P_Ready"
    "consumer s = C_Ready" by (rule two_pushed)
  with ring_clear_destroys_all [OF new_two_slots s(1)] show ?thesis by blast
qed

end
