(* ===== verification/Latency.thy ===== *)
theory Latency
  imports Prelude Complex_Main "HOL-Library.Log_Nat" "HOL-Library.Monad_Syntax"
begin

section \<open>The latency histogram\<close>

text \<open>
  The class \<^verbatim>\<open>HdrHistogram\<close> (\<^verbatim>\<open>src/metrics/latency.cpp\<close> and
  \<^verbatim>\<open>include/lob/latency.hpp\<close>). Values and counters are words; an access outside of the
  counters and a shift by the width of its operand are undefined, the value \<open>None\<close>.
  The percentile is computed in \<^verbatim>\<open>long double\<close>, whose precision the platform chooses: 64
  bits on x86-64, 53 where it is \<^verbatim>\<open>double\<close>, 113 in quadruple precision. The precision is a
  parameter, the rounding to nearest of that precision is defined here.
\<close>

definition significant_bits :: u32 where
  "significant_bits = 10"

definition sub_bucket_count :: size_t where
  "sub_bucket_count = push_bit (unat (significant_bits + 1)) 1"

definition sub_bucket_half_count :: size_t where
  "sub_bucket_half_count = sub_bucket_count div 2"

definition bucket_count :: size_t where
  "bucket_count = 64"

definition bin_count :: size_t where
  "bin_count = sub_bucket_count + (bucket_count - (ucast significant_bits + 1)) * sub_bucket_half_count"

record histogram =
  bin_counts :: "u64 list"
  total_count :: u64
  min_value :: u64
  max_value :: u64

record latency_summary =
  sum_count :: u64
  sum_min_ns :: u64
  sum_max_ns :: u64
  sum_p50_ns :: u64
  sum_p99_ns :: u64
  sum_p999_ns :: u64

subsection \<open>Bins\<close>

definition index_for :: "u64 \<Rightarrow> size_t" where
  "index_for value =
     (let exponent = (if value = 0 then 0 else of_nat (bit_width value) - 1) :: u32;
          shift = (if exponent > significant_bits then exponent - significant_bits else 0);
          sub_bucket = drop_bit (unat shift) value in
      if exponent \<le> significant_bits then sub_bucket
      else
        let compact_bucket = ucast (exponent - (significant_bits + 1)) in
        sub_bucket_count + compact_bucket * sub_bucket_half_count + (sub_bucket - sub_bucket_half_count))"

definition value_for_index :: "size_t \<Rightarrow> u64 option" where
  "value_for_index index =
     (if index < sub_bucket_count then Some index
      else
        let compact_index = index - sub_bucket_count;
            exponent = ucast (ucast (significant_bits + 1) + compact_index div sub_bucket_half_count) :: u32;
            sub_bucket = sub_bucket_half_count + compact_index mod sub_bucket_half_count;
            shift = exponent - significant_bits in
        if unat shift < 64 then Some (push_bit (unat shift) sub_bucket) else None)"

subsection \<open>Recording\<close>

definition reset :: "histogram \<Rightarrow> histogram" where
  "reset h = h\<lparr>bin_counts := replicate (length (bin_counts h)) 0, total_count := 0, min_value := 0,
     max_value := 0\<rparr>"

definition new_histogram :: histogram where
  "new_histogram = reset \<lparr>bin_counts = replicate (unat bin_count) 0, total_count = 0, min_value = 0,
     max_value = 0\<rparr>"

definition record_value :: "histogram \<Rightarrow> u64 \<Rightarrow> histogram option" where
  "record_value h v =
     (let i = unat (index_for v) in
      if i < length (bin_counts h) then
        let c = total_count h + 1 in
        Some (h\<lparr>bin_counts := (bin_counts h)[i := bin_counts h ! i + 1],
           total_count := c,
           min_value := (if c = 1 \<or> v < min_value h then v else min_value h),
           max_value := (if v > max_value h then v else max_value h)\<rparr>)
      else None)"

definition histogram_count :: "histogram \<Rightarrow> u64" where
  "histogram_count h = total_count h"

definition histogram_min :: "histogram \<Rightarrow> u64" where
  "histogram_min h = (if total_count h = 0 then 0 else min_value h)"

definition histogram_max :: "histogram \<Rightarrow> u64" where
  "histogram_max h = (if total_count h = 0 then 0 else max_value h)"

subsection \<open>Floating point\<close>

text \<open>
  The exponent \<open>e\<close> of a positive number, \<open>2 ^ e \<le> x < 2 ^ (e + 1)\<close>, from the lengths of its
  numerator and denominator, and rounding to a multiple of the last place of \<open>prec\<close> bits, ties to
  even. The numbers that arise are far from the ends of the exponent range.
\<close>

definition exponent_of :: "rat \<Rightarrow> int" where
  "exponent_of x =
     (case quotient_of x of
        (a, b) \<Rightarrow>
          let e = bitlen a - bitlen b in
          if x < 2 powi e then e - 1 else e)"

definition round_even :: "rat \<Rightarrow> int" where
  "round_even x =
     (let f = \<lfloor>x\<rfloor>; r = x - of_int f in
      if r < 1 / 2 \<or> r = 1 / 2 \<and> even f then f else f + 1)"

definition round_to :: "nat \<Rightarrow> rat \<Rightarrow> rat" where
  "round_to prec x =
     (if x \<le> 0 then x
      else
        let u = 2 powi (exponent_of x - int prec + 1) in
        of_int (round_even (x / u)) * u)"

text \<open>A \<^verbatim>\<open>double\<close> argument, and \<^verbatim>\<open>std::clamp\<close> of it, which keeps a NaN.\<close>

datatype double = Finite rat | Infinite bool | Not_A_Number

fun clamp_percentile :: "double \<Rightarrow> rat option" where
  "clamp_percentile (Finite x) = Some (if x < 0 then 0 else if 100 < x then 100 else x)"
| "clamp_percentile (Infinite negative) = Some (if negative then 0 else 100)"
| "clamp_percentile Not_A_Number = None"

subsection \<open>Percentiles\<close>

text \<open>
  The conversions to \<^verbatim>\<open>long double\<close> round, the conversion back truncates and is undefined
  out of the range of its type.
\<close>

definition rank_for :: "nat \<Rightarrow> rat \<Rightarrow> u64 \<Rightarrow> u64 option" where
  "rank_for prec percentile count =
     (let scaled = round_to prec
            (round_to prec (round_to prec percentile * round_to prec (of_nat (unat count))) / 100) in
      if 0 \<le> \<lfloor>scaled\<rfloor> \<and> \<lfloor>scaled\<rfloor> < 2 ^ 64 then
        let rank = of_int \<lfloor>scaled\<rfloor> :: u64;
            rank = (if round_to prec (of_nat (unat rank)) < scaled then rank + 1 else rank) in
        Some (max rank 1)
      else None)"

text \<open>
  The loop over the bins, and the result when it falls through. \<open>index\<close> is the bin the rest of the
  counters starts with.
\<close>

fun find_bin :: "u64 \<Rightarrow> u64 \<Rightarrow> size_t \<Rightarrow> u64 list \<Rightarrow> size_t option" where
  "find_bin rank observed index [] = None"
| "find_bin rank observed index (c # cs) =
     (let observed = observed + c in
      if observed \<ge> rank then Some index else find_bin rank observed (index + 1) cs)"

definition value_at_percentile :: "nat \<Rightarrow> histogram \<Rightarrow> double \<Rightarrow> u64 option" where
  "value_at_percentile prec h percentile =
     (if total_count h = 0 then Some 0
      else do {
        p \<leftarrow> clamp_percentile percentile;
        rank \<leftarrow> rank_for prec p (total_count h);
        (case find_bin rank 0 0 (bin_counts h) of
           Some index \<Rightarrow> value_for_index index
         | None \<Rightarrow> Some (max_value h))
      })"

text \<open>The literal 99.9 is the nearest \<^verbatim>\<open>double\<close>.\<close>

definition summary :: "nat \<Rightarrow> histogram \<Rightarrow> latency_summary option" where
  "summary prec h = do {
     p50 \<leftarrow> value_at_percentile prec h (Finite 50);
     p99 \<leftarrow> value_at_percentile prec h (Finite 99);
     p999 \<leftarrow> value_at_percentile prec h (Finite (round_to 53 (999 / 10)));
     Some \<lparr>sum_count = histogram_count h, sum_min_ns = histogram_min h, sum_max_ns = histogram_max h,
       sum_p50_ns = p50, sum_p99_ns = p99, sum_p999_ns = p999\<rparr>
   }"

end
