(* ===== verification/Latency_Bins.thy ===== *)
theory Latency_Bins
  imports Latency
begin

section \<open>The bins of the histogram\<close>

text \<open>
  The index of a value and the value of an index over the natural numbers: a value below 2048 is its
  own bin; a value of exponent \<open>e\<close> from 11 on is in one of the 1024 bins of that exponent, each
  \<open>2 ^ (e - 10)\<close> wide.
\<close>

definition low_of :: "nat \<Rightarrow> nat" where
  "low_of i = (if i < 2048 then i else (1024 + (i - 2048) mod 1024) * 2 ^ (1 + (i - 2048) div 1024))"

lemma constants:
  "unat sub_bucket_count = 2048" "unat sub_bucket_half_count = 1024" "unat bin_count = 56320"
  "sub_bucket_count = 2048" "sub_bucket_half_count = 1024" "bin_count = 56320"
proof -
  show c: "sub_bucket_count = 2048" by (simp add: sub_bucket_count_def significant_bits_def)
  show h: "sub_bucket_half_count = 1024" by (simp add: sub_bucket_half_count_def c)
  show b: "bin_count = 56320" by (simp add: bin_count_def c h bucket_count_def significant_bits_def)
  show "unat sub_bucket_count = 2048" "unat sub_bucket_half_count = 1024" "unat bin_count = 56320"
    by (simp_all add: c h b)
qed

lemma unat_small: "n < 2 ^ 64 \<Longrightarrow> unat (of_nat n :: u64) = n"
  by (simp add: unsigned_of_nat take_bit_nat_eq_self)

subsection \<open>The exponent\<close>

lemma bit_width_bounds:
  fixes v :: u64
  assumes "v \<noteq> 0"
  obtains e where "bit_width v = Suc e" "e < 64" "2 ^ e \<le> unat v" "unat v < 2 ^ Suc e"
proof -
  define e where "e = 63 - countl_zero v"
  have c: "countl_zero v < 64" using countl_zero_bound [OF assms] by simp
  then have w: "bit_width v = Suc e" "e < 64" by (simp_all add: bit_width_def e_def)
  have "bit v e" using bit_countl_zero [OF assms] by (simp add: e_def)
  then have "odd (unat v div 2 ^ e)" by (simp add: bit_unsigned_iff flip: bit_iff_odd)
  then have lo: "2 ^ e \<le> unat v" by (metis div_less even_zero not_le)
  have "take_bit (Suc e) v = v"
  proof (rule bit_eqI)
    fix i assume "possible_bit TYPE(64 word) i"
    show "bit (take_bit (Suc e) v) i = bit v i"
      using countl_zero_greatest [of v i] by (auto simp: bit_take_bit_iff e_def)
  qed
  then have "take_bit (Suc e) (unat v) = unat v" by (metis unsigned_take_bit_eq)
  then have "unat v < 2 ^ Suc e" by (metis take_bit_nat_less_exp)
  with w lo show thesis by (rule that)
qed

lemma low_of_bin:
  assumes "11 \<le> e"  "1024 \<le> s" "s < 2048"
  shows "low_of (2048 + (e - 11) * 1024 + (s - 1024)) = s * 2 ^ (e - 10)"
proof -
  have "(e - 11) * 1024 + (s - 1024) = (s - 1024) + (e - 11) * 1024" by simp
  moreover have "((s - 1024) + (e - 11) * 1024) mod 1024 = s - 1024"
    using assms by (subst mod_mult_self1) simp
  moreover have "((s - 1024) + (e - 11) * 1024) div 1024 = e - 11"
    using assms by (subst div_mult_self1) simp_all
  moreover have "1 + (e - 11) = e - 10" using assms by simp
  ultimately show ?thesis using assms by (simp add: low_of_def)
qed

lemma sub_bucket_bounds:
  fixes n :: nat
  assumes "11 \<le> e" "2 ^ e \<le> n" "n < 2 ^ Suc e"
  shows "1024 \<le> n div 2 ^ (e - 10)" "n div 2 ^ (e - 10) < 2048"
proof -
  have e: "(2::nat) ^ e = 1024 * 2 ^ (e - 10)" "(2::nat) ^ Suc e = 2048 * 2 ^ (e - 10)"
    using assms(1) power_add [of "2::nat" 10 "e - 10"] by simp_all
  show "1024 \<le> n div 2 ^ (e - 10)" using assms(2) e(1) by (simp add: less_eq_div_iff_mult_less_eq)
  show "n div 2 ^ (e - 10) < 2048" using assms(3) e(2) by (simp add: less_mult_imp_div_less)
qed

lemma index_small: "unat v < 2048 \<Longrightarrow> index_for v = v"
proof (cases "v = 0")
  case False
  assume v: "unat v < 2048"
  obtain e where e: "bit_width v = Suc e" "e < 64" "2 ^ e \<le> unat v"
    using bit_width_bounds [OF False] by metis
  have "(2 :: nat) ^ e < 2 ^ 11" using e(3) v by simp
  then have "e < 11" by (rule power_less_imp_less_exp [rotated]) simp
  then have "of_nat e \<le> significant_bits"
    by (simp add: significant_bits_def word_le_nat_alt unsigned_of_nat take_bit_nat_eq_self)
  with False e(1) show ?thesis by (simp add: index_for_def Let_def)
qed (simp add: index_for_def Let_def significant_bits_def)

lemma index_large:
  assumes "bit_width v = Suc e" "e < 64" "11 \<le> e" "2 ^ e \<le> unat v" "unat v < 2 ^ Suc e"
  shows "unat (index_for v) = 2048 + (e - 11) * 1024 + (unat v div 2 ^ (e - 10) - 1024)"
proof -
  let ?s = "unat v div 2 ^ (e - 10)"
  note s = sub_bucket_bounds [OF assms(3-5)]
  have "v \<noteq> 0" using assms(4) by auto
  have gt: "significant_bits < of_nat e" "\<not> of_nat e \<le> significant_bits"
    using assms(2,3) by (simp_all add: significant_bits_def word_less_nat_alt word_le_nat_alt
        unsigned_of_nat take_bit_nat_eq_self)
  have sh: "unat (of_nat e - significant_bits) = e - 10"
    using assms(2,3) by (simp add: significant_bits_def unat_sub word_le_nat_alt unsigned_of_nat take_bit_nat_eq_self)
  have cb: "ucast (of_nat e - (significant_bits + 1)) = (of_nat (e - 11) :: size_t)"
    using assms(2,3)
    by (simp add: significant_bits_def word_unat_eq_iff unsigned_ucast_eq unat_sub word_le_nat_alt
        unsigned_of_nat take_bit_nat_eq_self)
  have sb: "drop_bit (e - 10) v = of_nat ?s"
    by (metis drop_bit_eq_div of_nat_unat ucast_id unat_drop_bit_eq)
  have "index_for v = of_nat (2048 + (e - 11) * 1024 + (?s - 1024))"
    using \<open>v \<noteq> 0\<close> gt s assms(1)
    by (simp add: index_for_def Let_def sh cb sb constants of_nat_diff)
  moreover have "2048 + (e - 11) * 1024 + (?s - 1024) < 2 ^ 64" using assms(2) s by simp
  ultimately show ?thesis by (simp only: unat_small)
qed

text \<open>The bins are adjacent.\<close>

lemma low_of_next_bin:
  assumes "11 \<le> e"  "1024 \<le> s" "s < 2048"
  shows "low_of (Suc (2048 + (e - 11) * 1024 + (s - 1024))) = Suc s * 2 ^ (e - 10)"
proof (cases "s = 2047")
  case True
  have "Suc (2048 + (e - 11) * 1024 + (s - 1024)) = 2048 + (Suc e - 11) * 1024 + (1024 - 1024)"
    using True assms(1) by (simp add: Suc_diff_le)
  moreover have "low_of (2048 + (Suc e - 11) * 1024 + (1024 - 1024)) = 1024 * 2 ^ (Suc e - 10)"
    using assms(1) by (intro low_of_bin) auto
  moreover have "Suc e - 10 = Suc (e - 10)" using assms(1) by simp
  then have "(2 :: nat) ^ (Suc e - 10) = 2 * 2 ^ (e - 10)" by (simp only: power_Suc)
  ultimately have "low_of (Suc (2048 + (e - 11) * 1024 + (s - 1024))) = 1024 * (2 * 2 ^ (e - 10))"
    by (simp only:)
  then show ?thesis using True by simp
next
  case False
  have "Suc (2048 + (e - 11) * 1024 + (s - 1024)) = 2048 + (e - 11) * 1024 + (Suc s - 1024)"
    using assms by simp
  with low_of_bin [OF assms(1), of "Suc s"] False assms show ?thesis by simp
qed

lemma low_of_Suc: "low_of i < low_of (Suc i)"
proof (cases "i < 2048")
  case False
  define e where "e = 11 + (i - 2048) div 1024"
  define s where "s = 1024 + (i - 2048) mod 1024"
  have s: "11 \<le> e" "1024 \<le> s" "s < 2048" by (simp_all add: e_def s_def)
  have "(i - 2048) div 1024 * 1024 + (i - 2048) mod 1024 = i - 2048" by (rule div_mult_mod_eq)
  then have i: "i = 2048 + (e - 11) * 1024 + (s - 1024)" using False by (simp add: e_def s_def)
  show ?thesis unfolding i low_of_bin [OF s] low_of_next_bin [OF s] by simp
qed (simp add: low_of_def)

lemma low_of_less: "low_of i < low_of j \<longleftrightarrow> i < j"
  using low_of_Suc by (metis lift_Suc_mono_less_iff)

lemma low_of_le: "low_of i \<le> low_of j \<longleftrightarrow> i \<le> j"
  using low_of_less by (metis not_le)

text \<open>The index of a value is in range, and its bin starts at most one part in 1024 below.\<close>

lemma index_bin:
  "unat (index_for v) < 56320 \<and> low_of (unat (index_for v)) \<le> unat v \<and>
   unat v < low_of (Suc (unat (index_for v))) \<and>
   (unat v - low_of (unat (index_for v))) * 1024 \<le> low_of (unat (index_for v)) \<and>
   (unat v < 2048 \<longrightarrow> low_of (unat (index_for v)) = unat v)"
proof (cases "unat v < 2048")
  case True
  then show ?thesis by (auto simp: index_small low_of_def)
next
  case False
  then have "v \<noteq> 0" by auto
  then obtain e where e: "bit_width v = Suc e" "e < 64" "2 ^ e \<le> unat v" "unat v < 2 ^ Suc e"
    by (rule bit_width_bounds)
  have "(2 :: nat) ^ 11 < 2 ^ Suc e" using False e(4) by simp
  then have "11 < Suc e" by (rule power_less_imp_less_exp [rotated]) simp
  then have e11: "11 \<le> e" by simp
  let ?s = "unat v div 2 ^ (e - 10)"
  note s = sub_bucket_bounds [OF e11 e(3,4)]
  have i: "unat (index_for v) = 2048 + (e - 11) * 1024 + (?s - 1024)" by (rule index_large [OF e(1,2) e11 e(3,4)])
  then have low: "low_of (unat (index_for v)) = ?s * 2 ^ (e - 10)" using low_of_bin [OF e11 s] by simp
  have "unat v - ?s * 2 ^ (e - 10) = unat v mod 2 ^ (e - 10)" by (simp add: minus_div_mult_eq_mod)
  moreover have "unat v mod 2 ^ (e - 10) \<le> 2 ^ (e - 10)" by (simp add: less_imp_le)
  moreover have "2 ^ (e - 10) * 1024 \<le> ?s * 2 ^ (e - 10)" using s(1) by simp
  ultimately have "?s * 2 ^ (e - 10) \<le> unat v" "(unat v - ?s * 2 ^ (e - 10)) * 1024 \<le> ?s * 2 ^ (e - 10)"
    by (simp, linarith)
  moreover have "unat (index_for v) < 56320" using i e(2) s by simp
  moreover have "unat v < Suc ?s * 2 ^ (e - 10)"
    by (metis dividend_less_div_times mult.commute mult_Suc pos2 zero_less_power add.commute)
  then have "unat v < low_of (Suc (unat (index_for v)))" unfolding i low_of_next_bin [OF e11 s] .
  ultimately show ?thesis using low False by simp
qed

lemma index_unique: "unat (index_for v) = i \<longleftrightarrow> low_of i \<le> unat v \<and> unat v < low_of (Suc i)"
proof
  assume v: "low_of i \<le> unat v \<and> unat v < low_of (Suc i)"
  have "low_of (unat (index_for v)) < low_of (Suc i)" "low_of i < low_of (Suc (unat (index_for v)))"
    using index_bin [of v] v by linarith+
  then show "unat (index_for v) = i" by (simp add: low_of_less)
qed (use index_bin [of v] in auto)

lemma index_mono: "v \<le> w \<Longrightarrow> index_for v \<le> index_for w"
proof -
  assume "v \<le> w"
  then have "low_of (unat (index_for v)) < low_of (Suc (unat (index_for w)))"
    using index_bin [of v] index_bin [of w] by (simp add: word_le_nat_alt)
  then show ?thesis by (simp add: low_of_less word_le_nat_alt)
qed

lemma value_nat:
  assumes "unat i < 56320"
  shows "\<exists>w. value_for_index i = Some w \<and> unat w = low_of (unat i)"
proof (cases "unat i < 2048")
  case True
  then have "i < sub_bucket_count" by (simp add: constants word_less_nat_alt)
  with True show ?thesis by (simp add: value_for_index_def low_of_def)
next
  case False
  let ?c = "unat i - 2048"
  have ge: "\<not> i < sub_bucket_count" "sub_bucket_count \<le> i"
    using False by (simp_all add: constants word_less_nat_alt word_le_nat_alt)
  have c: "unat (i - sub_bucket_count) = ?c" using ge(2) by (simp add: unat_sub constants)
  have q: "?c div 1024 \<le> 52" using assms False by (simp add: div_le_mono)
  have "unat ((i - sub_bucket_count) div sub_bucket_half_count) = ?c div 1024"
    by (simp add: unat_div_distrib c constants(2))
  then have "ucast (significant_bits + 1) + (i - sub_bucket_count) div sub_bucket_half_count = (of_nat (11 + ?c div 1024) :: size_t)"
    by (simp add: significant_bits_def) (metis of_nat_unat ucast_id)
  moreover have "ucast (of_nat (11 + ?c div 1024) :: size_t) = (of_nat (11 + ?c div 1024) :: u32)"
    using q by (simp only: unsigned_of_nat) (simp add: take_bit_nat_eq_self del: of_nat_add)
  moreover have "(of_nat (11 + ?c div 1024) :: u32) - 10 = of_nat (1 + ?c div 1024)" by simp
  ultimately have e: "ucast (ucast (significant_bits + 1) + (i - sub_bucket_count) div sub_bucket_half_count) - significant_bits
      = (of_nat (1 + ?c div 1024) :: u32)"
    by (simp only: significant_bits_def)
  define t where "t = 1 + ?c div 1024"
  have t: "t \<le> 53" using q by (simp add: t_def)
  then have sh: "unat (of_nat t :: u32) = t" by (simp add: unsigned_of_nat take_bit_nat_eq_self)
  have "unat ((i - sub_bucket_count) mod sub_bucket_half_count) = ?c mod 1024"
    by (simp add: unat_mod_distrib c constants(2))
  then have s: "sub_bucket_half_count + (i - sub_bucket_count) mod sub_bucket_half_count = of_nat (1024 + ?c mod 1024)"
    by (simp add: constants(5)) (metis of_nat_unat ucast_id)
  have "(1024 + ?c mod 1024) * 2 ^ t < 2048 * 2 ^ 53"
    by (intro mult_less_le_imp_less power_increasing) (use t in auto)
  then have lt: "(1024 + ?c mod 1024) * 2 ^ t < 2 ^ 64" by simp
  let ?w = "push_bit t (of_nat (1024 + ?c mod 1024) :: u64)"
  have "value_for_index i = Some ?w"
    using ge(1) t by (simp add: value_for_index_def Let_def e [folded t_def] s sh del: of_nat_Suc of_nat_add)
  moreover have "?w = of_nat ((1024 + ?c mod 1024) * 2 ^ t)"
    by (simp add: push_bit_eq_mult)
  then have "unat ?w = (1024 + ?c mod 1024) * 2 ^ t"
    using lt by (simp only: unat_small)
  ultimately show ?thesis using False by (simp add: low_of_def t_def)
qed

end
