(* ===== verification/Latency_Histogram.thy ===== *)
theory Latency_Histogram
  imports Latency_Bins
begin

section \<open>The state of the histogram\<close>

text \<open>
  What a histogram holds after recording a list of values: how many of them fell into each bin, how
  many there were, and their extremes; and what its search for a rank finds.
\<close>

fun record_all :: "histogram \<Rightarrow> u64 list \<Rightarrow> histogram option" where
  "record_all h [] = Some h"
| "record_all h (v # vs) = Option.bind (record_value h v) (\<lambda>h. record_all h vs)"

definition in_bin :: "nat \<Rightarrow> u64 list \<Rightarrow> nat" where
  "in_bin i vs = length (filter (\<lambda>v. unat (index_for v) = i) vs)"

definition histogram_holds :: "histogram \<Rightarrow> u64 list \<Rightarrow> bool" where
  "histogram_holds h vs \<longleftrightarrow>
     bin_counts h = map (\<lambda>i. of_nat (in_bin i vs)) [0..<56320] \<and> total_count h = of_nat (length vs) \<and>
     (vs \<noteq> [] \<longrightarrow> min_value h = Min (set vs)) \<and> max_value h = Max (insert 0 (set vs))"

lemma new_histogram_holds: "histogram_holds new_histogram []"
  by (simp add: histogram_holds_def new_histogram_def reset_def constants in_bin_def map_replicate_const)

lemma record_value_holds:
  assumes "histogram_holds h vs" "Suc (length vs) < 2 ^ 64"
  shows "\<exists>h'. record_value h v = Some h' \<and> histogram_holds h' (vs @ [v])"
proof -
  let ?i = "unat (index_for v)"
  have i: "?i < 56320" using index_bin by blast
  have bins: "(bin_counts h)[?i := bin_counts h ! ?i + 1] = map (\<lambda>i. of_nat (in_bin i (vs @ [v]))) [0..<56320]"
    using assms(1) i by (intro nth_equalityI) (auto simp: histogram_holds_def nth_list_update in_bin_def)
  have one: "of_nat (length vs) + 1 = (1 :: u64) \<longleftrightarrow> vs = []"
    using assms(2) unat_small [of "length vs"] by auto
  have "insert 0 (set (vs @ [v])) = insert v (insert 0 (set vs))" by auto
  then have "Max (insert 0 (set (vs @ [v]))) = max v (Max (insert 0 (set vs)))"
    using Max_insert [of "insert 0 (set vs)" v] by simp
  moreover have "max_value h = Max (insert 0 (set vs))" using assms(1) by (simp only: histogram_holds_def)
  moreover have "(if v > m then v else m) = max v m" for m :: u64 by (auto simp: max_def)
  ultimately have mx: "(if v > max_value h then v else max_value h) = Max (insert 0 (set (vs @ [v])))"
    by (simp only:)
  have mn: "(if of_nat (length vs) + 1 = (1 :: u64) \<or> v < min_value h then v else min_value h) = Min (set (vs @ [v]))"
  proof (cases "vs = []")
    case False
    have "Min (set (vs @ [v])) = min v (Min (set vs))"
      using Min_insert [of "set vs" v] False by simp
    moreover have "min_value h = Min (set vs)" using assms(1) False unfolding histogram_holds_def by blast
    moreover have "(if v < m then v else m) = min v m" for m :: u64 by (auto simp: min_def)
    moreover have "of_nat (length vs) + 1 \<noteq> (1 :: u64)" using one False by blast
    ultimately show ?thesis by (simp only: simp_thms)
  qed simp
  have len: "length (bin_counts h) = 56320" "total_count h = of_nat (length vs)"
    using assms(1) by (simp_all add: histogram_holds_def)
  define h' where "h' = h\<lparr>bin_counts := map (\<lambda>i. of_nat (in_bin i (vs @ [v]))) [0..<56320],
    total_count := of_nat (length vs) + 1, min_value := Min (set (vs @ [v])),
    max_value := Max (insert 0 (set (vs @ [v])))\<rparr>"
  have "record_value h v = Some h'"
    using i unfolding record_value_def Let_def len h'_def bins [symmetric] mn [symmetric] mx [symmetric]
    by (simp only: if_True)
  moreover have "histogram_holds h' (vs @ [v])"
    by (simp add: histogram_holds_def h'_def add.commute)
  ultimately show ?thesis by blast
qed

lemma record_all_holds:
  assumes "histogram_holds h us" "length us + length vs < 2 ^ 64"
  shows "\<exists>h'. record_all h vs = Some h' \<and> histogram_holds h' (us @ vs)"
  using assms
proof (induction vs arbitrary: h us)
  case (Cons v vs)
  obtain h1 where h1: "record_value h v = Some h1" "histogram_holds h1 (us @ [v])"
    using record_value_holds [OF Cons.prems(1)] Cons.prems(2) by fastforce
  from Cons.IH [OF this(2)] Cons.prems(2) show ?case by (simp add: h1(1))
qed simp

subsection \<open>The search for a rank\<close>

lemma find_bin_found:
  assumes "obs < r" "r \<le> obs + sum_list ns" "obs + sum_list ns < 2 ^ 64"
  shows "\<exists>j<length ns. find_bin (of_nat r) (of_nat obs) (of_nat i) (map of_nat ns) = Some (of_nat (i + j)) \<and>
    obs + sum_list (take j ns) < r \<and> r \<le> obs + sum_list (take (Suc j) ns)"
  using assms
proof (induction ns arbitrary: obs i)
  case (Cons n ns)
  have "of_nat r \<le> (of_nat (obs + n) :: u64) \<longleftrightarrow> r \<le> obs + n"
    using Cons.prems unat_small [of r] unat_small [of "obs + n"] by (simp add: word_le_nat_alt del: of_nat_add)
  then have step: "find_bin (of_nat r) (of_nat obs) (of_nat i) (map of_nat (n # ns)) =
      (if r \<le> obs + n then Some (of_nat i)
       else find_bin (of_nat r) (of_nat (obs + n)) (of_nat (Suc i)) (map of_nat ns))"
    by (simp add: add.commute)
  show ?case
  proof (cases "r \<le> obs + n")
    case True
    with Cons.prems step show ?thesis by (intro exI [of _ 0]) simp
  next
    case False
    with Cons.IH [of "obs + n" "Suc i"] Cons.prems obtain j where j: "j < length ns"
      "find_bin (of_nat r) (of_nat (obs + n)) (of_nat (Suc i)) (map of_nat ns) = Some (of_nat (Suc i + j))"
      "obs + n + sum_list (take j ns) < r" "r \<le> obs + n + sum_list (take (Suc j) ns)"
      by (auto simp: add.assoc)
    with False step show ?thesis by (intro exI [of _ "Suc j"]) (simp add: add.assoc)
  qed
qed simp

lemma find_bin_missing:
  assumes "obs + sum_list ns < r" "r < 2 ^ 64"
  shows "find_bin (of_nat r) (of_nat obs) i (map of_nat ns) = None"
  using assms
proof (induction ns arbitrary: obs i)
  case (Cons n ns)
  have "\<not> of_nat r \<le> (of_nat (obs + n) :: u64)"
    using Cons.prems unat_small [of r] unat_small [of "obs + n"] by (simp add: word_le_nat_alt del: of_nat_add)
  with Cons.IH [of "obs + n" "i + 1"] Cons.prems(1,2) show ?case by (simp add: add.assoc)
qed simp

text \<open>The running total of the bins counts the values below a bin.\<close>

lemma sum_in_bin: "sum_list (map (\<lambda>i. in_bin i vs) [0..<j]) = length (filter (\<lambda>v. unat (index_for v) < j) vs)"
proof (induction j)
  case (Suc j)
  have "length (filter (\<lambda>v. unat (index_for v) < Suc j) vs) =
    length (filter (\<lambda>v. unat (index_for v) < j) vs) + in_bin j vs"
    by (induction vs) (auto simp: in_bin_def less_Suc_eq)
  with Suc show ?case by simp
qed simp

lemma sorted_nth_less:
  assumes "sorted (map f xs)" "n < length xs"
  shows "f (xs ! n) < (j :: nat) \<longleftrightarrow> n < length (filter (\<lambda>x. f x < j) xs)"
  using assms
proof (induction xs arbitrary: n)
  case (Cons x xs)
  show ?case
  proof (cases "f x < j")
    case True
    with Cons show ?thesis by (cases n) auto
  next
    case False
    then have "\<not> f y < j" if "y \<in> set (x # xs)" for y using Cons.prems(1) that by force
    moreover from this have "filter (\<lambda>x. f x < j) (x # xs) = []" by (simp add: filter_empty_conv)
    ultimately show ?thesis using nth_mem [OF Cons.prems(2)] by (metis list.size(3) not_less_zero)
  qed
qed simp

lemma filter_sort_length: "length (filter P (sort vs)) = length (filter P vs)" for vs :: "u64 list"
  by (simp add: filter_sort)

lemma find_rank:
  assumes "length vs < 2 ^ 64" "0 < r" "r \<le> length vs"
  shows "find_bin (of_nat r) 0 0 (map (\<lambda>i. of_nat (in_bin i vs)) [0..<56320]) = Some (index_for (sort vs ! (r - 1)))"
proof -
  let ?ns = "map (\<lambda>i. in_bin i vs) [0..<56320]" and ?f = "\<lambda>v. unat (index_for v)"
  have lt: "?f v < 56320" for v using index_bin by blast
  then have all: "sum_list ?ns = length vs" by (simp add: sum_in_bin)
  obtain j where j: "j < 56320" "find_bin (of_nat r) 0 0 (map of_nat ?ns) = Some (of_nat j)"
    "sum_list (take j ?ns) < r" "r \<le> sum_list (take (Suc j) ?ns)"
    using find_bin_found [of 0 r ?ns 0] assms all by auto
  have t: "take k ?ns = map (\<lambda>i. in_bin i vs) [0..<k]" if "k \<le> 56320" for k
    using that by (simp add: take_map)
  have mono: "sorted (map ?f (sort vs))"
    by (rule sorted_map_mono [OF sorted_sort]) (auto intro!: monoI simp: index_mono word_le_nat_alt [symmetric] intro: mono_onI)
  have n: "r - 1 < length (sort vs)" using assms(2,3) by simp
  have "\<not> ?f (sort vs ! (r - 1)) < j" "?f (sort vs ! (r - 1)) < Suc j"
    using j(1,3,4) t [of j] t [of "Suc j"] assms(2)
    by (simp_all only: sorted_nth_less [OF mono n] filter_sort_length sum_in_bin)
  then have "?f (sort vs ! (r - 1)) = j" by simp
  then have "of_nat j = index_for (sort vs ! (r - 1))" by (metis of_nat_unat ucast_id)
  with j(2) show ?thesis by (simp add: comp_def)
qed

end
