(* ===== verification/Latency_Rounding.thy ===== *)
theory Latency_Rounding
  imports Latency
begin

section \<open>Rounding and the rank of a percentile\<close>

text \<open>
  Rounding to nearest lands within half a unit of the last place and does not cross an integer, so
  that the rank of a whole percentile is the nearest rank as long as the count is far below the
  precision.
\<close>

lemma powi_split: "(2 :: rat) powi (a + b) = 2 powi a * 2 powi b" "(2 :: rat) powi (a - b) = 2 powi a / 2 powi b"
  by (simp_all add: power_int_add power_int_diff)

lemma powi_pos [simp]: "0 < (2 :: rat) powi e"
  by (simp add: zero_less_power_int)

lemma exponent_bounds:
  assumes "0 < x"
  shows "2 powi exponent_of x \<le> x" "x < 2 powi (exponent_of x + 1)"
proof -
  obtain a b where q: "quotient_of x = (a, b)" by (cases "quotient_of x")
  then have b: "0 < b" and x: "x = of_int a / of_int b" by (simp_all add: quotient_of_denom_pos quotient_of_div)
  with assms have a: "0 < a" by (simp add: zero_less_divide_iff)
  have len: "2 powi (bitlen n - 1) \<le> (of_int n :: rat)" "(of_int n :: rat) < 2 powi bitlen n" if "0 < n" for n
  proof -
    have n: "0 \<le> bitlen n - 1" "0 \<le> bitlen n" using bitlen_eq_zero_iff [of n] bitlen_nonneg [of n] that by linarith+
    show "2 powi (bitlen n - 1) \<le> (of_int n :: rat)" "(of_int n :: rat) < 2 powi bitlen n"
      using bitlen_bounds [OF that] n
      by (simp_all add: power_int_nonneg_exp)
  qed
  define e where "e = bitlen a - bitlen b"
  have ab: "(0 :: rat) < of_int a" "(0 :: rat) < of_int b" using a b by simp_all
  have "2 powi (e - 1) = 2 powi (bitlen a - 1) / (2 :: rat) powi bitlen b"
    unfolding e_def by (metis diff_right_commute powi_split(2))
  also have "\<dots> \<le> of_int a / 2 powi bitlen b" using len(1) [OF a] by (intro divide_right_mono) auto
  also have "\<dots> < x" unfolding x using len(2) [OF b] ab by (intro divide_strict_left_mono) auto
  finally have "2 powi (e - 1) < x" .
  moreover have "x < 2 powi bitlen a / of_int b"
    unfolding x using len(2) [OF a] ab by (intro divide_strict_right_mono) auto
  then have "x < 2 powi bitlen a / 2 powi (bitlen b - 1)"
    using divide_left_mono [OF len(1) [OF b], of "2 powi bitlen a"] ab by fastforce
  moreover have "e + 1 = bitlen a - (bitlen b - 1)" unfolding e_def by simp
  then have "2 powi (e + 1) = 2 powi bitlen a / (2 :: rat) powi (bitlen b - 1)" by (simp only: powi_split(2))
  moreover have "exponent_of x = (if x < 2 powi e then e - 1 else e)"
    by (simp add: exponent_of_def q e_def Let_def)
  ultimately show "2 powi exponent_of x \<le> x" "x < 2 powi (exponent_of x + 1)"
    by (simp_all split: if_splits)
qed

lemma exponent_unique:
  assumes "2 powi e \<le> x" "x < 2 powi (e + 1)"
  shows "exponent_of x = e"
proof -
  have "0 < x" using assms(1) powi_pos by (rule less_le_trans [rotated])
  note b = exponent_bounds [OF this]
  have "(2 :: rat) powi e < 2 powi (exponent_of x + 1)" "(2 :: rat) powi exponent_of x < 2 powi (e + 1)"
    using assms b by linarith+
  then have "e < exponent_of x + 1" "exponent_of x < e + 1"
    by (metis power_int_increasing not_less one_le_numeral)+
  then show ?thesis by simp
qed

lemma round_even_near: "\<bar>of_int (round_even y) - y\<bar> \<le> 1 / 2"
proof -
  have "of_int \<lfloor>y\<rfloor> \<le> y" "y < of_int \<lfloor>y\<rfloor> + 1" by linarith+
  then show ?thesis by (auto simp: round_even_def Let_def abs_le_iff not_less)
qed

lemma round_even_between:
  "of_int k \<le> y \<Longrightarrow> k \<le> round_even y" "y \<le> of_int k \<Longrightarrow> round_even y \<le> k"
proof -
  show "of_int k \<le> y \<Longrightarrow> k \<le> round_even y" using le_floor_iff [of k y]
    by (auto simp: round_even_def Let_def)
  show "round_even y \<le> k" if "y \<le> of_int k"
  proof (cases "y = of_int k")
    case False
    with that have "\<lfloor>y\<rfloor> < k" by (simp add: floor_less_iff)
    then show ?thesis by (auto simp: round_even_def Let_def)
  qed (simp add: round_even_def Let_def)
qed

lemma round_even_unique: "\<bar>y - of_int m\<bar> < 1 / 2 \<Longrightarrow> round_even y = m"
proof -
  assume "\<bar>y - of_int m\<bar> < 1 / 2"
  with round_even_near [of y] have "\<bar>of_int (round_even y) - (of_int m :: rat)\<bar> < of_int 1" by linarith
  then have "\<bar>round_even y - m\<bar> < 1" by (simp only: of_int_less_iff flip: of_int_diff of_int_abs)
  then show ?thesis by simp
qed

lemma round_to_eval:
  assumes "2 powi e \<le> x" "x < 2 powi (e + 1)" "u = 2 powi (e - int prec + 1)"
    "\<bar>x / u - of_int m\<bar> < 1 / 2"
  shows "round_to prec x = of_int m * u"
proof -
  have "0 < x" using assms(1) powi_pos by (rule less_le_trans [rotated])
  then show ?thesis using exponent_unique [OF assms(1,2)] assms(3) round_even_unique [OF assms(4)]
    by (simp add: round_to_def Let_def)
qed

lemma round_to_error:
  assumes "0 < x"
  shows "\<bar>round_to prec x - x\<bar> \<le> x / 2 ^ prec"
proof -
  define u where "u = (2 :: rat) powi (exponent_of x - int prec + 1)"
  have u: "0 < u" "round_to prec x = of_int (round_even (x / u)) * u"
    using assms by (simp_all add: u_def round_to_def Let_def)
  have "\<bar>of_int (round_even (x / u)) * u - x\<bar> = \<bar>of_int (round_even (x / u)) - x / u\<bar> * u"
    using u(1) by (simp add: abs_mult_pos field_simps)
  also have "\<dots> \<le> 1 / 2 * u" using round_even_near [of "x / u"] u(1) by (intro mult_right_mono) auto
  also have "\<dots> = 2 powi exponent_of x / 2 ^ prec"
    by (simp add: u_def powi_split)
  also have "\<dots> \<le> x / 2 ^ prec" using exponent_bounds(1) [OF assms] by (simp add: divide_right_mono)
  finally show ?thesis using u(2) by simp
qed

text \<open>An integer on one side of a number stays there, below the precision.\<close>

lemma round_to_integer:
  assumes "0 < x" "x < 2 ^ prec"
  shows "of_int k \<le> x \<Longrightarrow> of_int k \<le> round_to prec x" "x \<le> of_int k \<Longrightarrow> round_to prec x \<le> of_int k"
proof -
  define u where "u = (2 :: rat) powi (exponent_of x - int prec + 1)"
  have u: "0 < u" "round_to prec x = of_int (round_even (x / u)) * u"
    using assms by (simp_all add: u_def round_to_def Let_def)
  have "(2 :: rat) powi exponent_of x < 2 powi int prec" using exponent_bounds(1) [OF assms(1)] assms(2) by simp
  then have "exponent_of x < int prec" by (metis power_int_increasing not_less one_le_numeral)
  then obtain d where d: "int prec - 1 - exponent_of x = int d" using zero_le_imp_eq_int [of "int prec - 1 - exponent_of x"] by auto
  have "exponent_of x - int prec + 1 = - int d" using d by simp
  then have "u = 1 / 2 ^ d" unfolding u_def by (simp add: power_int_minus_divide)
  then have k: "of_int k = of_int (k * 2 ^ d) * u" by simp
  show "of_int k \<le> round_to prec x" if "of_int k \<le> x"
  proof -
    have "of_int (k * 2 ^ d) \<le> x / u" unfolding pos_le_divide_eq [OF u(1)] k [symmetric] by (rule that)
    from round_even_between(1) [OF this] have "(of_int (k * 2 ^ d) :: rat) \<le> of_int (round_even (x / u))" by (simp only: of_int_le_iff)
    then show ?thesis unfolding u(2) k using u(1) by (intro mult_right_mono) auto
  qed
  show "round_to prec x \<le> of_int k" if "x \<le> of_int k"
  proof -
    have "x / u \<le> of_int (k * 2 ^ d)" unfolding pos_divide_le_eq [OF u(1)] k [symmetric] by (rule that)
    from round_even_between(2) [OF this] have "(of_int (round_even (x / u)) :: rat) \<le> of_int (k * 2 ^ d)" by (simp only: of_int_le_iff)
    then show ?thesis unfolding u(2) k using u(1) by (intro mult_right_mono) auto
  qed
qed

lemma round_to_exact: "n < 2 ^ prec \<Longrightarrow> round_to prec (of_nat n) = of_nat n"
proof (cases "n = 0")
  case False
  assume "n < 2 ^ prec"
  then have "(of_nat n :: rat) < 2 ^ prec" by (metis of_nat_less_iff of_nat_numeral of_nat_power)
  with False round_to_integer [of "of_nat n" prec "int n"] show ?thesis by simp
qed (simp add: round_to_def)

subsection \<open>The rank\<close>

lemma ceiling_by_truncation:
  assumes "0 \<le> x" "x \<le> 2 ^ 52" "52 < prec"
    "round_to prec (round_to prec (round_to prec p * round_to prec (of_nat (unat c))) / 100) = x"
  shows "rank_for prec p c = Some (max (of_int \<lceil>x\<rceil>) 1)"
proof -
  have f: "0 \<le> \<lfloor>x\<rfloor>" "\<lfloor>x\<rfloor> \<le> 2 ^ 52" "\<lfloor>x\<rfloor> < 2 ^ 64"
  proof -
    show "0 \<le> \<lfloor>x\<rfloor>" using assms(1) by simp
    show le: "\<lfloor>x\<rfloor> \<le> 2 ^ 52" using floor_mono [OF assms(2)] by simp
    have "(2 :: int) ^ 52 < 2 ^ 64" by simp
    with le show "\<lfloor>x\<rfloor> < 2 ^ 64" by linarith
  qed
  have u: "int (unat (of_int \<lfloor>x\<rfloor> :: u64)) = \<lfloor>x\<rfloor>"
    using f by (simp add: unsigned_of_int take_bit_int_eq_self)
  have "(2 :: nat) ^ 52 < 2 ^ prec" using assms(3) by (intro power_strict_increasing) auto
  moreover have "int (unat (of_int \<lfloor>x\<rfloor> :: u64)) \<le> int (2 ^ 52)" using u f(2) by simp
  then have "unat (of_int \<lfloor>x\<rfloor> :: u64) \<le> 2 ^ 52" by (simp only: of_nat_le_iff)
  ultimately have "unat (of_int \<lfloor>x\<rfloor> :: u64) < 2 ^ prec" by (rule le_less_trans [rotated])
  from round_to_exact [OF this] have "round_to prec (of_nat (unat (of_int \<lfloor>x\<rfloor> :: u64))) =
      of_int (int (unat (of_int \<lfloor>x\<rfloor> :: u64)))"
    by (simp only: of_int_of_nat_eq)
  then have r: "round_to prec (of_nat (unat (of_int \<lfloor>x\<rfloor> :: u64))) = of_int \<lfloor>x\<rfloor>" by (simp only: u)
  have "(if of_int \<lfloor>x\<rfloor> < x then of_int \<lfloor>x\<rfloor> + 1 else of_int \<lfloor>x\<rfloor>) = (of_int \<lceil>x\<rceil> :: u64)"
  proof (cases "of_int \<lfloor>x\<rfloor> = x")
    case True
    then have "\<lceil>x\<rceil> = \<lfloor>x\<rfloor>" by (metis ceiling_of_int)
    moreover have "\<not> of_int \<lfloor>x\<rfloor> < x" by (metis True less_irrefl)
    ultimately show ?thesis by simp
  next
    case False
    then have "of_int \<lfloor>x\<rfloor> < x" using of_int_floor_le [of x] by (rule le_neq_trans [rotated])
    moreover from this have "\<lceil>x\<rceil> = \<lfloor>x\<rfloor> + 1" by (auto simp: ceiling_altdef)
    ultimately show ?thesis by simp
  qed
  with f r assms(4) show ?thesis by (simp add: rank_for_def Let_def)
qed

text \<open>A whole percentile of a count that is small against the precision.\<close>

lemma whole_percentile:
  assumes "q \<le> 100" "c \<le> 2 ^ 45" "52 < prec"
  shows "rank_for prec (of_nat q) (of_nat c) = Some (of_nat (max ((q * c + 99) div 100) 1))"
proof -
  let ?k = "q * c" and ?x = "(of_nat (q * c) :: rat) / 100"
  have k: "?k \<le> 100 * 2 ^ 45" using assms(1,2) by (intro mult_mono) auto
  have prec: "(2 :: nat) ^ 53 \<le> 2 ^ prec" using assms(3) by (intro power_increasing) auto
  have c: "unat (of_nat c :: u64) = c" using assms(2) by (simp add: unsigned_of_nat take_bit_nat_eq_self)
  have lt: "q < 2 ^ 53" "c < 2 ^ 53" "?k < 2 ^ 53" using assms(1,2) k by simp_all
  have "round_to prec (of_nat q) = of_nat q" "round_to prec (of_nat c) = of_nat c"
    "round_to prec (of_nat ?k) = of_nat ?k"
    using less_le_trans [OF lt(1) prec] less_le_trans [OF lt(2) prec] less_le_trans [OF lt(3) prec]
    by (simp_all only: round_to_exact)
  then have inner: "round_to prec (round_to prec (of_nat q) * round_to prec (of_nat (unat (of_nat c :: u64)))) / 100 = ?x"
    by (simp add: c flip: of_nat_mult)
  define y where "y = round_to prec ?x"
  have "of_nat ?k \<le> (of_nat (100 * 2 ^ 45) :: rat)" using k by (simp only: of_nat_le_iff)
  then have x: "0 \<le> ?x" "?x \<le> 2 ^ 45" by simp_all
  have y: "0 \<le> y \<and> y \<le> 2 ^ 52 \<and> \<lceil>y\<rceil> = \<lceil>?x\<rceil>"
  proof (cases "?k = 0")
    case False
    then have pos: "0 < ?x" by simp
    have "(2 :: rat) ^ 45 < 2 ^ prec" using assms(3) by (intro power_strict_increasing) auto
    then have small: "?x < 2 ^ prec" using x(2) by linarith
    note int = round_to_integer [OF pos small]
    have up: "y \<le> of_int \<lceil>?x\<rceil>" unfolding y_def by (rule int(2)) simp
    have lo: "of_int (\<lceil>?x\<rceil> - 1) < y"
    proof (cases "100 dvd ?k")
      case True
      then obtain m where "?k = 100 * m" by (rule dvdE)
      then have "?x = of_int (int m)" by simp
      then show ?thesis using int(1) [of "int m"] by (simp add: y_def)
    next
      case False
      have "of_int (\<lceil>?x\<rceil> - 1) + 1 / 100 \<le> ?x"
      proof -
        have "(of_int (100 * (\<lceil>?x\<rceil> - 1)) :: rat) < of_int (int ?k)" by simp linarith
        then have "100 * (\<lceil>?x\<rceil> - 1) < int ?k" by (simp only: of_int_less_iff)
        then have "100 * (\<lceil>?x\<rceil> - 1) + 1 \<le> int ?k" by simp
        then have "(of_int (100 * (\<lceil>?x\<rceil> - 1) + 1) :: rat) \<le> of_int (int ?k)" by (simp only: of_int_le_iff)
        then show ?thesis by (simp add: field_simps)
      qed
      moreover have "?x - ?x / 2 ^ prec \<le> y" using round_to_error [OF pos, of prec] by (simp add: y_def abs_le_iff)
      moreover have "?x / 2 ^ prec < 1 / 100"
      proof -
        have "(2 :: rat) ^ 53 \<le> 2 ^ prec" using assms(3) by (intro power_increasing) auto
        then have "?x / 2 ^ prec \<le> 2 ^ 45 / 2 ^ 53" using x by (intro frac_le) auto
        also have "(2 :: rat) ^ 45 / 2 ^ 53 < 1 / 100" by simp
        finally show ?thesis .
      qed
      ultimately show ?thesis by linarith
    qed
    have "\<lceil>?x\<rceil> \<le> 2 ^ 45" using x(2) by (simp add: ceiling_le_iff)
    then have "(of_int \<lceil>?x\<rceil> :: rat) \<le> of_int (2 ^ 45)" by (simp only: of_int_le_iff)
    with up have "y \<le> of_int (2 ^ 45)" by (rule order.trans)
    then have "y \<le> 2 ^ 52" by simp
    moreover have "0 \<le> y" using int(1) [of 0] x(1) by (simp add: y_def)
    moreover have "\<lceil>y\<rceil> = \<lceil>?x\<rceil>" using up lo by (intro ceiling_unique) simp_all
    ultimately show ?thesis by blast
  next
    case True
    then have "?x = 0" by simp
    then show ?thesis by (simp only: y_def) (simp add: round_to_def)
  qed
  have "100 * ((?k + 99) div 100) < ?k + 100" "?k \<le> 100 * ((?k + 99) div 100)" by linarith+
  then have "(of_nat (100 * ((?k + 99) div 100)) :: rat) < of_nat (?k + 100)"
    "(of_nat ?k :: rat) \<le> of_nat (100 * ((?k + 99) div 100))"
    by (simp_all only: of_nat_less_iff of_nat_le_iff)
  then have "\<lceil>?x\<rceil> = int ((?k + 99) div 100)" by (intro ceiling_unique) simp_all
  moreover have "rank_for prec (of_nat q) (of_nat c) = Some (max (of_int \<lceil>y\<rceil>) 1)"
    using y assms(3) inner by (intro ceiling_by_truncation) (simp_all add: y_def)
  moreover have "max (of_nat m) 1 = (of_nat (max m 1) :: u64)" if "m < 2 ^ 64" for m
    using that by (auto simp: max_def word_le_nat_alt unsigned_of_nat take_bit_nat_eq_self)
  moreover have "(?k + 99) div 100 < 2 ^ 64" using k by simp
  ultimately show ?thesis using y by simp
qed

end
