(* ===== verification/Latency_Properties.thy ===== *)
theory Latency_Properties
  imports Latency_Histogram Latency_Rounding
begin

section \<open>What the histogram promises\<close>

text \<open>
  The properties of the histogram: its precision, its exact count and extremes, the rank its
  percentiles use, and how the rank of a fractional percentile depends on the platform.
\<close>

text \<open>
  C37: every value has a bin, a bin reports a value that is exact below 2048 and at most one part in
  1024 too small from there on, and the bins are in the order of the values.
\<close>

theorem bins_precise:
  "index_for v < bin_count \<and>
   (\<exists>w. value_for_index (index_for v) = Some w \<and> w \<le> v \<and> unat v - unat w \<le> unat w div 1024 \<and>
     (w = v \<or> 2048 \<le> v)) \<and>
   index_for (min v v') \<le> index_for v'"
proof -
  note b = index_bin [of v]
  then obtain w where w: "value_for_index (index_for v) = Some w" "unat w = low_of (unat (index_for v))"
    using value_nat by blast
  then have "w \<le> v" "unat v - unat w \<le> unat w div 1024"
    using b by (simp_all add: word_le_nat_alt less_eq_div_iff_mult_less_eq)
  moreover have "w = v \<or> 2048 \<le> v"
    using b w(2) by (cases "unat v < 2048") (simp_all add: word_unat_eq_iff word_le_nat_alt)
  moreover have "index_for v < bin_count" using b by (simp add: word_less_nat_alt constants)
  ultimately show ?thesis using w(1) index_mono [of "min v v'" v'] by auto
qed

text \<open>
  The value a bin reports is in that bin, for each of the 56320 bins, the last of which ends at
  the largest 64-bit value: the bins are the ranges between consecutive reported values.
\<close>

lemma bins_round_trip:
  assumes "i < bin_count"
  shows "\<exists>w. value_for_index i = Some w \<and> index_for w = i \<and> (\<forall>v. index_for v = i \<longrightarrow> w \<le> v)"
proof -
  have i: "unat i < 56320" using assms by (simp add: word_less_nat_alt constants)
  obtain w where w: "value_for_index i = Some w" "unat w = low_of (unat i)" using value_nat [OF i] by blast
  have "unat (index_for w) = unat i" using index_unique [of w "unat i"] low_of_Suc w(2) by simp
  moreover have "w \<le> v" if "index_for v = i" for v
    using index_bin [of v] that w(2) by (simp add: word_le_nat_alt)
  ultimately show ?thesis using w(1) by (auto simp: word_unat_eq_iff)
qed

text \<open>
  C36: recording fewer than \<open>2 ^ 64\<close> values in a new histogram is defined for each, and counts them
  and keeps their least and greatest exactly; a reset makes the histogram new again.
\<close>

theorem histogram_extremes_exact:
  assumes "length vs < 2 ^ 64"
  shows "\<exists>h. record_all new_histogram vs = Some h \<and> unat (histogram_count h) = length vs \<and>
    histogram_min h = (if vs = [] then 0 else Min (set vs)) \<and>
    histogram_max h = (if vs = [] then 0 else Max (set vs)) \<and> reset h = new_histogram"
proof -
  obtain h where h: "record_all new_histogram vs = Some h" "histogram_holds h vs"
    using record_all_holds [OF new_histogram_holds, of vs] assms by auto
  have c: "total_count h = of_nat (length vs)" "length (bin_counts h) = 56320"
    using h(2) by (simp_all add: histogram_holds_def)
  then have n: "unat (total_count h) = length vs" using unat_small [OF assms] by simp
  then have z: "total_count h = 0 \<longleftrightarrow> vs = []" by (auto simp: word_unat_eq_iff)
  have "Max (insert 0 (set vs)) = Max (set vs)" if "vs \<noteq> []"
    using that by (subst Max_insert) (auto simp: max_def)
  then have "histogram_max h = (if vs = [] then 0 else Max (set vs))"
    using h(2) z by (simp add: histogram_max_def histogram_holds_def)
  moreover have "histogram_min h = (if vs = [] then 0 else Min (set vs))"
    using h(2) z by (simp add: histogram_min_def histogram_holds_def)
  moreover have "reset h = new_histogram"
    using c(2) by (simp add: reset_def new_histogram_def constants)
  ultimately show ?thesis using h(1) n by (auto simp: histogram_count_def)
qed

lemma histogram_extremes_exact_witness:
  "\<exists>h. record_all new_histogram [7, 3, 5000] = Some h \<and> unat (histogram_count h) = 3 \<and>
     histogram_min h = 3 \<and> histogram_max h = 5000"
  using histogram_extremes_exact [of "[7, 3, 5000]"] by auto

text \<open>What a histogram reports for a rank: the bin of the value of that rank.\<close>

lemma percentile_of_rank:
  assumes "histogram_holds h vs" "vs \<noteq> []" "length vs < 2 ^ 64"
    "rank_for prec x (of_nat (length vs)) = Some (of_nat r)" "clamp_percentile p = Some x"
    "0 < r" "r \<le> length vs"
  shows "value_at_percentile prec h p = value_for_index (index_for (sort vs ! (r - 1)))"
proof -
  have "total_count h \<noteq> 0" using assms(1,2) unat_small [OF assms(3)] by (auto simp: histogram_holds_def)
  with assms(1,4,5) find_rank [OF assms(3,6,7)] show ?thesis
    by (simp add: value_at_percentile_def histogram_holds_def)
qed

definition nearest_rank :: "nat \<Rightarrow> nat \<Rightarrow> nat" where
  "nearest_rank q n = max (nat \<lceil>of_nat (q * n) / (100 :: rat)\<rceil>) 1"

lemma nearest_rank_nat: "nearest_rank q n = max ((q * n + 99) div 100) 1"
proof -
  have "100 * ((q * n + 99) div 100) < q * n + 100" "q * n \<le> 100 * ((q * n + 99) div 100)" by linarith+
  then have "(of_nat (100 * ((q * n + 99) div 100)) :: rat) < of_nat (q * n + 100)"
    "(of_nat (q * n) :: rat) \<le> of_nat (100 * ((q * n + 99) div 100))"
    by (simp_all only: of_nat_less_iff of_nat_le_iff)
  then have "\<lceil>of_nat (q * n) / (100 :: rat)\<rceil> = int ((q * n + 99) div 100)" by (intro ceiling_unique) simp_all
  then show ?thesis by (simp add: nearest_rank_def)
qed

text \<open>
  C18: a whole percentile of up to \<open>2 ^ 45\<close> values is the documented nearest rank in every
  precision of at least 53 bits: the lower bound of the bin of the value of rank
  \<open>ceil (q * n / 100)\<close>, the least value that falls in that bin, and so that
  value or at most one part in 1024 below.
\<close>

theorem percentile_nearest_rank:
  assumes "q \<le> 100" "vs \<noteq> []" "length vs \<le> 2 ^ 45" "52 < prec" "record_all new_histogram vs = Some h"
    "v = sort vs ! (nearest_rank q (length vs) - 1)"
  shows "\<exists>w. value_at_percentile prec h (Finite (of_nat q)) = Some w \<and>
    value_for_index (index_for v) = Some w \<and> w \<le> v \<and> index_for w = index_for v \<and>
    (\<forall>u. index_for u = index_for v \<longrightarrow> w \<le> u) \<and> unat v - unat w \<le> unat w div 1024"
proof -
  have len: "length vs < 2 ^ 64" using assms(3) by simp
  have h: "histogram_holds h vs" using record_all_holds [OF new_histogram_holds, of vs] len assms(5) by auto
  have "(q * length vs + 99) div 100 \<le> length vs"
  proof -
    have "q * length vs \<le> 100 * length vs" using assms(1) by simp
    then show ?thesis by linarith
  qed
  then have r: "0 < nearest_rank q (length vs)" "nearest_rank q (length vs) \<le> length vs"
    using assms(2) by (auto simp: nearest_rank_nat Suc_le_eq)
  have "rank_for prec (of_nat q) (of_nat (length vs)) = Some (of_nat (nearest_rank q (length vs)))"
    using whole_percentile [OF assms(1,3,4)] by (simp add: nearest_rank_nat)
  moreover have "clamp_percentile (Finite (of_nat q)) = Some (of_nat q)"
    using assms(1) by (simp add: of_nat_le_iff not_less)
  ultimately have "value_at_percentile prec h (Finite (of_nat q)) = value_for_index (index_for v)"
    using percentile_of_rank [OF h assms(2) len _ _ r] assms(6) by simp
  moreover obtain w where w: "value_for_index (index_for v) = Some w" "unat w = low_of (unat (index_for v))"
    using value_nat [of "index_for v"] index_bin [of v] by blast
  moreover have "w \<le> u" if "index_for u = index_for v" for u
    using index_bin [of u] that w(2) by (simp add: word_le_nat_alt)
  moreover have "index_for w = index_for v"
    using index_unique [of w "unat (index_for v)"] low_of_Suc w(2) by (simp add: word_unat_eq_iff)
  ultimately show ?thesis using index_bin [of v] w(2)
    by (simp add: word_le_nat_alt less_eq_div_iff_mult_less_eq)
qed

lemma value_below_2048: "unat v < 2048 \<Longrightarrow> value_for_index (index_for v) = Some v"
  using index_bin [of v] value_nat [of "index_for v"] by (auto simp: word_unat_eq_iff)

text \<open>The values from 1 to 1000, and the ranks for them.\<close>

definition thousand :: "u64 list" where
  "thousand = map of_nat [1..<1001]"

lemma sort_thousand: "k < 1000 \<Longrightarrow> sort thousand ! k = of_nat (Suc k)" "length thousand = 1000"
proof -
  have "sorted thousand"
    by (auto simp: sorted_iff_nth_mono thousand_def word_le_nat_alt unsigned_of_nat take_bit_nat_eq_self
        simp del: of_nat_Suc)
  then have "sort thousand = thousand" by (simp add: sorted_sort_id)
  then show "k < 1000 \<Longrightarrow> sort thousand ! k = of_nat (Suc k)" by (simp add: thousand_def)
qed (simp add: thousand_def)

lemma thousand_not_empty: "thousand \<noteq> []"
  by (simp add: thousand_def)

lemma literal_99_9: "round_to 53 (999 / 10) = 7029837543348634 / 2 ^ 46"
  by (subst round_to_eval [of 6 _ "1 / 2 ^ 46" 53 7029837543348634])
    (simp_all add: power_int_minus)

lemma rank_99_9:
  "rank_for 53 (round_to 53 (999 / 10)) 1000 = Some 999"
  "rank_for 64 (round_to 53 (999 / 10)) 1000 = Some 1000"
proof -
  have thousand: "round_to prec (of_nat (unat (1000 :: u64))) = 1000" if "10 \<le> prec" for prec
  proof -
    have "(2 :: nat) ^ 10 \<le> 2 ^ prec" using that by (intro power_increasing) auto
    then show ?thesis using round_to_exact [of 1000 prec] by simp
  qed
  have "round_to 53 (7029837543348634 / 2 ^ 46) = 7029837543348634 / 2 ^ 46"
    by (subst round_to_eval [of 6 _ "1 / 2 ^ 46" 53 7029837543348634])
      (simp_all add: power_int_minus)
  moreover have "round_to 53 (7029837543348634 / 2 ^ 46 * 1000) = 99900"
    by (subst round_to_eval [of 16 _ "1 / 2 ^ 36" 53 6865075725926400])
      (simp_all add: power_int_minus)
  moreover have "round_to 53 (99900 / 100) = 999"
    using round_to_exact [of 999 53] by simp
  ultimately have "rank_for 53 (round_to 53 (999 / 10)) 1000 = Some (max (of_int \<lceil>999 :: rat\<rceil>) 1)"
    using thousand [of 53] by (intro ceiling_by_truncation) (simp_all only: literal_99_9, simp_all)
  then show "rank_for 53 (round_to 53 (999 / 10)) 1000 = Some 999" by simp
  let ?y = "17574593858371585 / 17592186044416 :: rat"
  have "round_to 64 (7029837543348634 / 2 ^ 46) = 7029837543348634 / 2 ^ 46"
    by (subst round_to_eval [of 6 _ "1 / 2 ^ 57" 64 14397107288778002432])
      (simp_all add: power_int_minus)
  moreover have "round_to 64 (7029837543348634 / 2 ^ 46 * 1000) = 7029837543348634 / 2 ^ 46 * 1000"
    by (subst round_to_eval [of 16 _ "1 / 2 ^ 47" 64 14059675086697268000])
      (simp_all add: power_int_minus)
  moreover have "round_to 64 (7029837543348634 / 2 ^ 46 * 1000 / 100) = ?y"
    by (subst round_to_eval [of 9 _ "1 / 2 ^ 54" 64 17996384110972503040])
      (simp_all add: power_int_minus)
  ultimately have "rank_for 64 (round_to 53 (999 / 10)) 1000 = Some (max (of_int \<lceil>?y\<rceil>) 1)"
    using thousand [of 64] by (intro ceiling_by_truncation) (simp_all only: literal_99_9, simp_all)
  moreover have "\<lceil>?y\<rceil> = 1000" by (rule ceiling_unique) simp_all
  ultimately show "rank_for 64 (round_to 53 (999 / 10)) 1000 = Some 1000" by simp
qed

text \<open>
  C38: the 99.9th percentile of the values from 1 to 1000 is 999 where \<^verbatim>\<open>long double\<close> has 53
  bits and 1000 where it has 64, because the \<^verbatim>\<open>double\<close> nearest to 99.9 is above it; the other
  percentiles of the summary do not depend on it.
\<close>

theorem p999_depends_on_long_double:
  "\<exists>h s s'. record_all new_histogram thousand = Some h \<and>
     summary 53 h = Some s \<and> summary 64 h = Some s' \<and>
     sum_p50_ns s = 500 \<and> sum_p99_ns s = 990 \<and> sum_p999_ns s = 999 \<and> s' = s\<lparr>sum_p999_ns := 1000\<rparr>"
proof -
  obtain h where h: "record_all new_histogram thousand = Some h" "histogram_holds h thousand"
    using record_all_holds [OF new_histogram_holds, of thousand] sort_thousand(2) by auto
  have at: "value_at_percentile prec h (Finite x) = Some (of_nat r)"
    if "rank_for prec x 1000 = Some (of_nat r)" "0 \<le> x" "x \<le> 100" "0 < r" "r \<le> 1000" for prec x r
  proof -
    have "value_at_percentile prec h (Finite x) = value_for_index (index_for (of_nat r))"
      using percentile_of_rank [OF h(2), of prec x r "Finite x"] sort_thousand(1) [of "r - 1"] sort_thousand(2)
        thousand_not_empty that
      by (auto simp: not_less)
    also have "\<dots> = Some (of_nat r)" using that(5) by (intro value_below_2048) (simp add: unat_small)
    finally show ?thesis .
  qed
  have whole: "value_at_percentile prec h (Finite 50) = Some 500" "value_at_percentile prec h (Finite 99) = Some 990"
    if "52 < prec" for prec
    using at [of prec 50 500] at [of prec 99 990] whole_percentile [of 50 1000 prec]
      whole_percentile [of 99 1000 prec] that by simp_all
  have lit: "0 \<le> round_to 53 (999 / 10)" "round_to 53 (999 / 10) \<le> 100" by (simp_all add: literal_99_9)
  have "value_at_percentile 53 h (Finite (round_to 53 (999 / 10))) = Some 999"
    "value_at_percentile 64 h (Finite (round_to 53 (999 / 10))) = Some 1000"
    using at [OF _ lit, of 53 999] at [OF _ lit, of 64 1000] rank_99_9 by simp_all
  with h(1) whole show ?thesis by (simp add: summary_def)
qed

lemma percentile_nearest_rank_witness:
  "\<exists>h w. record_all new_histogram thousand = Some h \<and>
     value_at_percentile 64 h (Finite (of_nat 50)) = Some w \<and> w = 500"
proof -
  obtain h where h: "record_all new_histogram thousand = Some h"
    using record_all_holds [OF new_histogram_holds, of thousand] sort_thousand(2) by auto
  have "thousand \<noteq> []" "nearest_rank 50 1000 = 500" by (simp_all add: thousand_not_empty nearest_rank_nat)
  with percentile_nearest_rank [OF _ _ _ _ h refl, of 50 64] sort_thousand(1) [of 499] sort_thousand(2) h
  show ?thesis using value_below_2048 [of 500] by auto
qed

end
