(* ===== verification/Replay_Config.thy ===== *)
theory Replay_Config
  imports Matching_Engine Spsc_Ring
begin

section \<open>The command line of the replay\<close>

text \<open>
  The configuration of \<^verbatim>\<open>app/itch_replay.cpp\<close> and the parsing of its arguments, with the
  part of \<^verbatim>\<open>std::stoull\<close> it relies on: white space, one sign, decimal digits up to the first
  other character, an exception without digits or beyond 64 bits, and a negative number taken modulo
  \<open>2 ^ 64\<close>.
\<close>

subsection \<open>Numbers\<close>

datatype stoull_error = Stoull_Invalid_Argument | Stoull_Out_Of_Range

definition char_code :: "char \<Rightarrow> nat" where
  "char_code c = of_char c"

definition is_space :: "char \<Rightarrow> bool" where
  "is_space c \<longleftrightarrow> char_code c = 32 \<or> 9 \<le> char_code c \<and> char_code c \<le> 13"

definition is_digit :: "char \<Rightarrow> bool" where
  "is_digit c \<longleftrightarrow> 48 \<le> char_code c \<and> char_code c \<le> 57"

definition digit_value :: "char \<Rightarrow> nat" where
  "digit_value c = char_code c - 48"

definition number_of :: "string \<Rightarrow> nat" where
  "number_of ds = foldl (\<lambda>n c. 10 * n + digit_value c) 0 ds"

definition split_sign :: "string \<Rightarrow> bool \<times> string" where
  "split_sign cs =
     (case cs of
        c # cs' \<Rightarrow>
          if c = CHR ''-'' then (True, cs') else if c = CHR ''+'' then (False, cs') else (False, cs)
      | [] \<Rightarrow> (False, []))"

definition stoull :: "string \<Rightarrow> stoull_error + u64" where
  "stoull cs =
     (let (negative, rest) = split_sign (dropWhile is_space cs);
          ds = takeWhile is_digit rest in
      if ds = [] then Inl Stoull_Invalid_Argument
      else if number_of ds \<ge> 2 ^ 64 then Inl Stoull_Out_Of_Range
      else Inr (if negative then - of_nat (number_of ds) else of_nat (number_of ds)))"

definition parse_capacity :: "string \<Rightarrow> size_t" where
  "parse_capacity input =
     (case stoull input of
        Inl _ \<Rightarrow> 0
      | Inr v \<Rightarrow> if v = 0 \<or> v AND (v - 1) \<noteq> 0 then 0 else v)"

definition parse_positive_size :: "string \<Rightarrow> size_t option" where
  "parse_positive_size input =
     (case stoull input of
        Inl _ \<Rightarrow> None
      | Inr v \<Rightarrow> if v = 0 \<or> v > - 1 then None else Some v)"

subsection \<open>Arguments\<close>

record replay_config =
  input_path :: string
  ring_capacity :: size_t
  engine_limits_of :: engine_limits
  checkpoint_every :: u64
  snapshot_locate :: "stock_locate option"
  fail_on_reject :: bool

definition default_config :: replay_config where
  "default_config = \<lparr>input_path = [], ring_capacity = push_bit 16 1,
     engine_limits_of = \<lparr>max_instruments = - 1, max_resting_orders = - 1\<rparr>,
     checkpoint_every = 0, snapshot_locate = None, fail_on_reject = False\<rparr>"

text \<open>An option with its value.\<close>

definition apply_option :: "string \<Rightarrow> string \<Rightarrow> replay_config \<Rightarrow> replay_config option" where
  "apply_option opt value config =
     (if opt = ''--ring-capacity'' then
        (let capacity = parse_capacity value in
         if capacity = 0 then None else Some (config\<lparr>ring_capacity := capacity\<rparr>))
      else if opt = ''--max-instruments'' then
        (case parse_positive_size value of
           None \<Rightarrow> None
         | Some limit \<Rightarrow>
             Some (config\<lparr>engine_limits_of := (engine_limits_of config)\<lparr>max_instruments := limit\<rparr>\<rparr>))
      else if opt = ''--max-resting-orders'' then
        (case parse_positive_size value of
           None \<Rightarrow> None
         | Some limit \<Rightarrow>
             Some (config\<lparr>engine_limits_of := (engine_limits_of config)\<lparr>max_resting_orders := limit\<rparr>\<rparr>))
      else if opt = ''--checkpoint-every'' then
        (case parse_positive_size value of
           None \<Rightarrow> None
         | Some interval \<Rightarrow> Some (config\<lparr>checkpoint_every := interval\<rparr>))
      else if opt = ''--snapshot-locate'' then
        (case parse_positive_size value of
           None \<Rightarrow> None
         | Some l \<Rightarrow>
             if l > ucast (- 1 :: stock_locate) then None
             else Some (config\<lparr>snapshot_locate := Some (ucast l)\<rparr>))
      else None)"

fun parse_options :: "string list \<Rightarrow> replay_config \<Rightarrow> replay_config option" where
  "parse_options [] config = Some config"
| "parse_options (opt # args) config =
     (if opt = ''--fail-on-reject'' then parse_options args (config\<lparr>fail_on_reject := True\<rparr>)
      else
        case args of
          [] \<Rightarrow> None
        | value # args' \<Rightarrow>
            (case apply_option opt value config of
               None \<Rightarrow> None
             | Some config' \<Rightarrow> parse_options args' config'))"

definition parse_arguments :: "string list \<Rightarrow> replay_config option" where
  "parse_arguments argv =
     (case argv of
        program # path # args \<Rightarrow> parse_options args (default_config\<lparr>input_path := path\<rparr>)
      | _ \<Rightarrow> None)"

definition has_gzip_suffix :: "string \<Rightarrow> bool" where
  "has_gzip_suffix path \<longleftrightarrow> length path \<ge> 3 \<and> drop (length path - 3) path = ''.gz''"

subsection \<open>What parsing returns\<close>

text \<open>The decimal digits of a number, the form the options are documented in.\<close>

fun decimal :: "nat \<Rightarrow> string" where
  "decimal n = (if n < 10 then [char_of (48 + n)] else decimal (n div 10) @ [char_of (48 + n mod 10)])"

declare decimal.simps [simp del]

lemma digit_char: "d < 10 \<Longrightarrow> is_digit (char_of (48 + d)) \<and> digit_value (char_of (48 + d)) = d" for d :: nat
  by (simp add: is_digit_def digit_value_def char_code_def)

lemma decimal_digits: "decimal n \<noteq> [] \<and> list_all is_digit (decimal n) \<and> number_of (decimal n) = n"
proof (induction n rule: decimal.induct)
  case (1 n)
  show ?case
  proof (cases "n < 10")
    case True
    then show ?thesis using digit_char [of n] by (simp add: decimal.simps [of n] number_of_def)
  next
    case False
    then show ?thesis using 1 digit_char [of "n mod 10"] by (simp add: decimal.simps [of n] number_of_def)
  qed
qed

lemma not_space_nor_sign: "is_digit c \<Longrightarrow> \<not> is_space c \<and> c \<noteq> CHR ''-'' \<and> c \<noteq> CHR ''+''"
  by (auto simp: is_digit_def is_space_def char_code_def)

lemma stoull_digits:
  assumes "ds \<noteq> []" "list_all is_digit ds" "rest = [] \<or> \<not> is_digit (hd rest)"
  shows "stoull (ds @ rest) =
    (if number_of ds \<ge> 2 ^ 64 then Inl Stoull_Out_Of_Range else Inr (of_nat (number_of ds)))"
    "stoull (CHR ''-'' # ds @ rest) =
    (if number_of ds \<ge> 2 ^ 64 then Inl Stoull_Out_Of_Range else Inr (- of_nat (number_of ds)))"
proof -
  obtain d ds' where d: "ds = d # ds'" using assms(1) by (cases ds) auto
  have t: "takeWhile is_digit (ds @ rest) = ds"
    using assms(2,3) by (cases rest) (auto simp: list_all_iff takeWhile_append)
  have "split_sign (dropWhile is_space (ds @ rest)) = (False, ds @ rest)"
    using assms(2) not_space_nor_sign [of d] by (simp add: d split_sign_def)
  with t assms(1) show "stoull (ds @ rest) =
    (if number_of ds \<ge> 2 ^ 64 then Inl Stoull_Out_Of_Range else Inr (of_nat (number_of ds)))"
    by (simp add: stoull_def)
  have "\<not> is_space (CHR ''-'')" by (simp add: is_space_def char_code_def)
  then have "split_sign (dropWhile is_space (CHR ''-'' # ds @ rest)) = (True, ds @ rest)"
    by (simp add: split_sign_def)
  with t assms(1) show "stoull (CHR ''-'' # ds @ rest) =
    (if number_of ds \<ge> 2 ^ 64 then Inl Stoull_Out_Of_Range else Inr (- of_nat (number_of ds)))"
    by (simp add: stoull_def)
qed

lemma parse_capacity_valid: "parse_capacity s \<noteq> 0 \<Longrightarrow> valid_capacity (parse_capacity s)"
  by (auto simp: parse_capacity_def valid_capacity_def split: sum.splits if_splits)

text \<open>What every accepted command line guarantees.\<close>

definition config_ok :: "replay_config \<Rightarrow> bool" where
  "config_ok c \<longleftrightarrow> valid_capacity (ring_capacity c) \<and> 0 < max_instruments (engine_limits_of c) \<and>
     0 < max_resting_orders (engine_limits_of c) \<and> snapshot_locate c \<noteq> Some 0"

lemma parse_positive_size_pos: "parse_positive_size s = Some v \<Longrightarrow> 0 < v"
  by (auto simp: parse_positive_size_def word_gt_0 split: sum.splits if_splits)

lemma default_config_ok: "config_ok (default_config\<lparr>input_path := path\<rparr>)"
  by (simp add: config_ok_def default_config_def valid_capacity_def word_gt_0)

lemma apply_option_ok:
  assumes "apply_option opt v c = Some c'" "config_ok c"
  shows "config_ok c'"
proof -
  have "ucast l \<noteq> (0 :: stock_locate)" if "0 < l" "\<not> l > ucast (- 1 :: stock_locate)" for l :: size_t
  proof -
    have "unat (ucast (- 1 :: stock_locate) :: size_t) = 65535"
      by (simp add: unsigned_ucast_eq unsigned_minus_1_eq_mask mask_eq_exp_minus_1)
    with that(2) have "unat l \<le> 65535" by (simp add: word_less_nat_alt)
    then have "unat (ucast l :: stock_locate) = unat l"
      by (simp add: unsigned_ucast_eq take_bit_nat_eq_self)
    with that(1) show ?thesis by (auto simp: word_gt_0 unsigned_eq_0_iff)
  qed
  with assms parse_capacity_valid parse_positive_size_pos show ?thesis
    by (auto simp: apply_option_def config_ok_def Let_def split: if_splits option.splits)
qed

lemma parse_options_ok: "parse_options args c = Some c' \<Longrightarrow> config_ok c \<Longrightarrow> config_ok c'"
proof (induction args c rule: parse_options.induct)
  case (2 opt args config)
  show ?case
  proof (cases "opt = ''--fail-on-reject''")
    case True
    with 2 show ?thesis by (simp add: config_ok_def)
  next
    case False
    with 2 show ?thesis by (auto split: list.splits option.splits intro: apply_option_ok)
  qed
qed simp

end
