(* ===== verification/Frame_Reader.thy ===== *)
theory Frame_Reader
  imports Itch_Codec Replay_Config
begin

section \<open>Reading frames\<close>

text \<open>
  The class \<^verbatim>\<open>ItchFrameReader\<close> of \<^verbatim>\<open>app/itch_replay.cpp\<close>. \<open>next_frame\<close> is over any
  \<^verbatim>\<open>read_at_most\<close>: \<open>Inl\<close> stands for its -1, with the text it leaves in
  \<^verbatim>\<open>error\<close>, an empty list for its 0. The plain source is an
  \<^verbatim>\<open>ifstream\<close> with the states of the standard; the zlib source is a parameter of the same shape.
\<close>

subsection \<open>The plain source\<close>

text \<open>
  \<open>broken\<close> says whether reading past \<open>pending\<close> finds an input error instead of the end. A read
  of a stream that is not good extracts nothing, and one that comes up short sets \<^verbatim>\<open>eofbit\<close> or
  \<^verbatim>\<open>badbit\<close> together with \<^verbatim>\<open>failbit\<close>.
\<close>

record plain_stream =
  pending :: "u8 list"
  broken :: bool
  eof_bit :: bool
  fail_bit :: bool
  bad_bit :: bool

definition stream_read :: "plain_stream \<Rightarrow> nat \<Rightarrow> u8 list \<times> plain_stream" where
  "stream_read s n =
     (if eof_bit s \<or> fail_bit s \<or> bad_bit s then ([], s\<lparr>fail_bit := True\<rparr>)
      else if n \<le> length (pending s) then (take n (pending s), s\<lparr>pending := drop n (pending s)\<rparr>)
      else (pending s, s\<lparr>pending := [], eof_bit := \<not> broken s, fail_bit := True, bad_bit := broken s\<rparr>))"

definition read_plain :: "plain_stream \<Rightarrow> nat \<Rightarrow> (string + u8 list) \<times> plain_stream" where
  "read_plain s n =
     (let (bs, s) = stream_read s n in
      if bs \<noteq> [] then (Inr bs, s) else if eof_bit s then (Inr [], s) else (Inl ''input read failed'', s))"

subsection \<open>The two sources\<close>

text \<open>
  A reader has a plain stream or a zlib stream, by the suffix of its path. Opening a file and reading
  a zlib stream are parameters: the environment decides them. A build without zlib opens no zlib
  stream. When \<^verbatim>\<open>gzread\<close> fails, \<^verbatim>\<open>gzerror\<close> may have a reason.
\<close>

datatype 'z input_source = Plain_Input plain_stream | Gzip_Input 'z

definition open_reader ::
  "bool \<Rightarrow> (string \<Rightarrow> plain_stream option) \<Rightarrow> (string \<Rightarrow> 'z option) \<Rightarrow> string \<Rightarrow> string + 'z input_source" where
  "open_reader have_zlib open_plain open_gzip path =
     (if has_gzip_suffix path then
        if have_zlib then
          (case open_gzip path of
             None \<Rightarrow> Inl ''cannot open gzip input file''
           | Some z \<Rightarrow> Inr (Gzip_Input z))
        else Inl ''gzip support was not enabled; decompress the ITCH sample before replaying it''
      else
        (case open_plain path of
           None \<Rightarrow> Inl ''cannot open input file''
         | Some s \<Rightarrow> Inr (Plain_Input s)))"

definition gzip_read ::
  "('z \<Rightarrow> nat \<Rightarrow> (string option + u8 list) \<times> 'z) \<Rightarrow> 'z \<Rightarrow> nat \<Rightarrow> (string + u8 list) \<times> 'z" where
  "gzip_read gzread z n =
     (case gzread z n of
        (Inl None, z) \<Rightarrow> (Inl ''gzip read failed'', z)
      | (Inl (Some reason), z) \<Rightarrow> (Inl reason, z)
      | (Inr bs, z) \<Rightarrow> (Inr bs, z))"

definition read_at_most ::
  "('z \<Rightarrow> nat \<Rightarrow> (string option + u8 list) \<times> 'z) \<Rightarrow> 'z input_source \<Rightarrow> nat \<Rightarrow> (string + u8 list) \<times> 'z input_source" where
  "read_at_most gzread src n =
     (case src of
        Plain_Input s \<Rightarrow> map_prod id Plain_Input (read_plain s n)
      | Gzip_Input z \<Rightarrow> map_prod id Gzip_Input (gzip_read gzread z n))"

subsection \<open>Frames\<close>

text \<open>An error comes with its text.\<close>

datatype frame_status = Frame "u8 list" | End_Of_File | Frame_Error string

definition truncated_prefix :: string where
  "truncated_prefix = ''truncated ITCH frame-length prefix''"

definition truncated_payload :: string where
  "truncated_payload = ''truncated ITCH frame payload''"

text \<open>
  The two loops: read until \<open>n\<close> more bytes have arrived. \<open>Inl\<close> is the error, of which \<open>e\<close> is
  the one for the end of the input.
\<close>

function read_fully ::
  "('r \<Rightarrow> nat \<Rightarrow> (string + u8 list) \<times> 'r) \<Rightarrow> string \<Rightarrow> 'r \<Rightarrow> nat \<Rightarrow> (string + u8 list) \<times> 'r" where
  "read_fully rd e r n =
     (if n = 0 then (Inr [], r)
      else
        case rd r n of
          (Inl err, r') \<Rightarrow> (Inl err, r')
        | (Inr bs, r') \<Rightarrow>
            if bs = [] then (Inl e, r')
            else
              case read_fully rd e r' (n - length bs) of
                (Inl err, r'') \<Rightarrow> (Inl err, r'')
              | (Inr cs, r'') \<Rightarrow> (Inr (bs @ cs), r''))"
  by pat_completeness auto
termination by (relation "measure (\<lambda>(rd, e, r, n). n)") auto

declare read_fully.simps [simp del]

definition payload_size :: "u8 list \<Rightarrow> size_t" where
  "payload_size prefix = push_bit 8 (ucast (prefix ! 0)) OR ucast (prefix ! 1)"

definition next_frame ::
  "('r \<Rightarrow> nat \<Rightarrow> (string + u8 list) \<times> 'r) \<Rightarrow> 'r \<Rightarrow> frame_status \<times> 'r" where
  "next_frame rd r =
     (case rd r 2 of
        (Inl err, r) \<Rightarrow> (Frame_Error err, r)
      | (Inr bs, r) \<Rightarrow>
          if bs = [] then (End_Of_File, r)
          else
            case read_fully rd truncated_prefix r (2 - length bs) of
              (Inl err, r) \<Rightarrow> (Frame_Error err, r)
            | (Inr cs, r) \<Rightarrow>
                let prefix = bs @ cs in
                (case read_fully rd truncated_payload r (unat (payload_size prefix)) of
                   (Inl err, r) \<Rightarrow> (Frame_Error err, r)
                 | (Inr payload, r) \<Rightarrow> (Frame (prefix @ payload), r)))"

subsection \<open>The contract of a source\<close>

text \<open>
  What a source owes the reader: pieces of what is left of the input, in order and never more than
  asked for, of any size above zero; the end only at the end of an input that can be read whole.
\<close>

text \<open>The frame an input starts with.\<close>

definition frame_of :: "u8 list \<Rightarrow> frame_status" where
  "frame_of xs =
     (if xs = [] then End_Of_File
      else if length xs < 2 then Frame_Error truncated_prefix
      else if length xs < 2 + declared_length xs then Frame_Error truncated_payload
      else Frame (take (2 + declared_length xs) xs))"

lemma payload_size_declared: "length xs = 2 \<Longrightarrow> unat (payload_size (xs)) = declared_length (xs @ ys)"
proof -
  assume "length xs = 2"
  then obtain a b where "xs = [a, b]" by (auto simp: length_Suc_conv numeral_2_eq_2)
  moreover have "unat (push_bit 8 (ucast a) OR ucast b :: size_t) = unat (push_bit 8 (ucast a) OR ucast b :: u16)"
    by (rule bit_eqI)
      (auto simp: bit_unsigned_iff bit_or_iff bit_push_bit_iff bit_simps dest: bit_imp_le_length)
  ultimately show ?thesis
    by (simp add: payload_size_def declared_length_def be_word_def slice_def)
qed

locale frame_source =
  fixes rd :: "'r \<Rightarrow> nat \<Rightarrow> (string + u8 list) \<times> 'r"
    and left :: "'r \<Rightarrow> u8 list"
    and sound :: "'r \<Rightarrow> bool"
  assumes piece: "rd r n = (Inr bs, r') \<Longrightarrow> bs \<noteq> [] \<Longrightarrow> left r = bs @ left r' \<and> length bs \<le> n"
    and at_end: "rd r n = (Inr [], r') \<Longrightarrow> 0 < n \<Longrightarrow> sound r \<longrightarrow> left r = [] \<and> left r' = []"
    and sound_read: "sound r \<Longrightarrow> 0 < n \<Longrightarrow> \<exists>bs. fst (rd r n) = Inr bs"
    and stays_sound: "sound r \<Longrightarrow> sound (snd (rd r n))"
begin

lemma read_fully_frame:
  "read_fully rd e r n = (Inr cs, r') \<Longrightarrow> left r = cs @ left r' \<and> length cs = n"
proof (induction n arbitrary: r cs r' rule: less_induct)
  case (less n)
  show ?case
  proof (cases "n = 0")
    case False
    with less.prems obtain bs r1 ds where bs: "rd r n = (Inr bs, r1)" "bs \<noteq> []"
      "read_fully rd e r1 (n - length bs) = (Inr ds, r')" "cs = bs @ ds"
      by (auto simp: read_fully.simps [of rd e r n] split: prod.splits if_splits sum.splits)
    note p = piece [OF bs(1,2)]
    have "n - length bs < n" using False bs(2) by (cases bs) auto
    from less.IH [OF this bs(3)] p bs(4) show ?thesis by simp
  qed (use less.prems in \<open>simp add: read_fully.simps\<close>)
qed

lemma read_fully_sound:
  assumes "sound r" "read_fully rd e r n = (res, r')"
  shows "sound r' \<and> (if n \<le> length (left r) then res = Inr (take n (left r)) else res = Inl e)"
  using assms
proof (induction n arbitrary: r res r' rule: less_induct)
  case (less n)
  show ?case
  proof (cases "n = 0")
    case False
    obtain bs where "fst (rd r n) = Inr bs" using sound_read [OF less.prems(1)] False by blast
    then obtain r1 where bs: "rd r n = (Inr bs, r1)" by (cases "rd r n") auto
    have s1: "sound r1" using stays_sound [OF less.prems(1), of n] bs by simp
    show ?thesis
    proof (cases "bs = []")
      case True
      then have "left r = []" using at_end [of r n r1] bs False less.prems(1) by simp
      with True less.prems(2) bs s1 False show ?thesis by (simp add: read_fully.simps [of rd e r n])
    next
      case ne: False
      note p = piece [OF bs ne]
      obtain res1 r2 where r2: "read_fully rd e r1 (n - length bs) = (res1, r2)" by fastforce
      have "n - length bs < n" using False ne by (cases bs) auto
      from less.IH [OF this s1 r2] less.prems(2) bs ne p r2 False show ?thesis
        by (auto simp: read_fully.simps [of rd e r n] split: sum.splits if_splits)
    qed
  qed (use less.prems in \<open>simp add: read_fully.simps\<close>)
qed

text \<open>A frame is what the input starts with, of the length its prefix declares.\<close>

lemma next_frame_frame:
  assumes "next_frame rd r = (Frame f, r')"
  shows "left r = f @ left r' \<and> 2 \<le> length f \<and> length f = 2 + declared_length f"
proof -
  obtain bs r1 cs r2 ps where f: "rd r 2 = (Inr bs, r1)" "bs \<noteq> []"
    "read_fully rd truncated_prefix r1 (2 - length bs) = (Inr cs, r2)"
    "read_fully rd truncated_payload r2 (unat (payload_size (bs @ cs))) = (Inr ps, r')"
    "f = (bs @ cs) @ ps"
    using assms by (auto simp: next_frame_def Let_def split: prod.splits if_splits sum.splits)
  note p = piece [OF f(1,2)] and q = read_fully_frame [OF f(3)] and t = read_fully_frame [OF f(4)]
  have two: "length (bs @ cs) = 2" using p q by simp
  with t f(5) show ?thesis using p q payload_size_declared [OF two, of ps] by simp
qed

text \<open>What a source that can be read to its end gives, whatever the pieces it comes in.\<close>

lemma next_frame_sound:
  assumes "sound r" "next_frame rd r = (status, r')"
  shows "sound r' \<and> status = frame_of (left r)"
proof -
  obtain bs where "fst (rd r 2) = Inr bs" using sound_read [OF assms(1), of 2] by auto
  then obtain r1 where bs: "rd r 2 = (Inr bs, r1)" by (cases "rd r 2") auto
  have s1: "sound r1" using stays_sound [OF assms(1), of 2] bs by simp
  show ?thesis
  proof (cases "bs = []")
    case True
    with at_end [of r 2 r1] bs assms s1 show ?thesis by (simp add: next_frame_def frame_of_def)
  next
    case ne: False
    note p = piece [OF bs ne]
    obtain res r2 where r2: "read_fully rd truncated_prefix r1 (2 - length bs) = (res, r2)" by fastforce
    note q = read_fully_sound [OF s1 r2]
    show ?thesis
    proof (cases "2 \<le> length (left r)")
      case False
      with p q assms(2) bs ne r2 show ?thesis by (auto simp: next_frame_def frame_of_def)
    next
      case True
      have res: "res = Inr (take (2 - length bs) (left r1))" using q p True by auto
      let ?cs = "take (2 - length bs) (left r1)"
      have two: "bs @ ?cs = take 2 (left r)" using p by simp
      have l2: "left r1 = ?cs @ left r2" using read_fully_frame [OF r2 [unfolded res]] by simp
      then have l: "left r = take 2 (left r) @ left r2" using p two by (metis append_assoc)
      then have d2: "left r2 = drop 2 (left r)" using True by (metis append_eq_conv_conj length_take min.absorb2)
      obtain res' r3 where r3: "read_fully rd truncated_payload r2 (unat (payload_size (take 2 (left r)))) = (res', r3)"
        by fastforce
      note t = read_fully_sound [OF conjunct1 [OF q] r3]
      have "unat (payload_size (take 2 (left r))) = declared_length (left r)"
        using payload_size_declared [of "take 2 (left r)" "drop 2 (left r)"] True by simp
      with t d2 assms(2) bs ne r2 res two r3 True show ?thesis
        using take_add [of 2 "declared_length (left r)" "left r"]
        by (auto simp: next_frame_def Let_def frame_of_def)
    qed
  qed
qed

end

subsection \<open>The plain source keeps the contract\<close>

definition plain_sound :: "plain_stream \<Rightarrow> bool" where
  "plain_sound s \<longleftrightarrow> \<not> broken s \<and> \<not> bad_bit s \<and> (fail_bit s \<longrightarrow> eof_bit s) \<and> (eof_bit s \<longrightarrow> pending s = [])"

interpretation plain: frame_source read_plain pending plain_sound
  by unfold_locales
    (auto simp: read_plain_def stream_read_def plain_sound_def split: if_splits prod.splits)

text \<open>A reader keeps the contract when its zlib stream does.\<close>

definition on_source :: "(plain_stream \<Rightarrow> 'a) \<Rightarrow> ('z \<Rightarrow> 'a) \<Rightarrow> 'z input_source \<Rightarrow> 'a" where
  "on_source f g src = (case src of Plain_Input s \<Rightarrow> f s | Gzip_Input z \<Rightarrow> g z)"

lemma map_prod_eq: "map_prod id f x = (a, b) \<longleftrightarrow> (\<exists>y. x = (a, y) \<and> b = f y)"
  by (cases x) auto

lemma reader_source:
  assumes "frame_source (gzip_read gzread) left sound"
  shows "frame_source (read_at_most gzread) (on_source pending left) (on_source plain_sound sound)"
proof
  fix r n bs r'
  assume "read_at_most gzread r n = (Inr bs, r')" "bs \<noteq> []"
  then show "on_source pending left r = bs @ on_source pending left r' \<and> length bs \<le> n"
    using plain.piece frame_source.piece [OF assms]
    by (cases r) (auto simp: read_at_most_def on_source_def map_prod_eq)
next
  fix r n r'
  assume "read_at_most gzread r n = (Inr [], r')" "0 < n"
  then show "on_source plain_sound sound r \<longrightarrow>
      on_source pending left r = [] \<and> on_source pending left r' = []"
    using plain.at_end frame_source.at_end [OF assms]
    by (cases r) (auto simp: read_at_most_def on_source_def map_prod_eq)
next
  fix r n
  assume "on_source plain_sound sound r" "0 < (n :: nat)"
  then show "\<exists>bs. fst (read_at_most gzread r n) = Inr bs"
    using plain.sound_read frame_source.sound_read [OF assms]
    by (cases r) (auto simp: read_at_most_def on_source_def map_prod_eq)
next
  fix r n
  assume "on_source plain_sound sound r"
  then show "on_source plain_sound sound (snd (read_at_most gzread r n))"
    using plain.stays_sound frame_source.stays_sound [OF assms]
    by (cases r) (auto simp: read_at_most_def on_source_def map_prod_eq)
qed

end
