(* ===== verification/Console.thy ===== *)
theory Console
  imports Replay_Config Latency
begin

section \<open>Output\<close>

text \<open>
  What the two programs print of a number and of a histogram. An unsigned number is printed in
  decimal, so that \<open>number_of\<close> reads it back.
\<close>

definition shown :: "'a::len word \<Rightarrow> string" where
  "shown w = decimal (unat w)"

definition new_line :: string where
  "new_line = [CHR 0x0A]"

definition summary_line :: "string \<Rightarrow> latency_summary \<Rightarrow> string" where
  "summary_line name s =
     name @ '': count='' @ shown (sum_count s) @ '' p50='' @ shown (sum_p50_ns s) @
     ''ns p99='' @ shown (sum_p99_ns s) @ ''ns p99.9='' @ shown (sum_p999_ns s) @
     ''ns max='' @ shown (sum_max_ns s) @ ''ns'' @ new_line"

text \<open>\<open>prec\<close> is the precision of \<^verbatim>\<open>long double\<close>.\<close>

definition print_summary :: "nat \<Rightarrow> string \<Rightarrow> histogram \<Rightarrow> string option" where
  "print_summary prec name h = map_option (summary_line name) (summary prec h)"

lemma shown_number: "number_of (shown w) = unat w"
  using decimal_digits [of "unat w"] by (simp add: shown_def)

lemma shown_of_nat: "n < 2 ^ 64 \<Longrightarrow> shown (of_nat n :: u64) = decimal n"
  by (simp add: shown_def unsigned_of_nat take_bit_nat_eq_self)

end
