(* ===== verification/Replay.thy ===== *)
theory Replay
  imports Frame_Reader Console Itch_Decoder
begin

section \<open>The replay pipeline\<close>

text \<open>
  The \<^verbatim>\<open>main\<close> function of \<^verbatim>\<open>app/itch_replay.cpp\<close> after its arguments: a producer thread
  that reads, decodes and pushes events into the ring, and the main thread that pops and applies
  them. Each step is one access to what the threads share, or work of one thread on its own. The
  readings of the clock and the memory an event finds are any values. The source of the input is a
  parameter: the plain stream is one instance, a zlib stream another. An exception that leaves a thread
  terminates the process.
\<close>

subsection \<open>State\<close>

record queued_event =
  qe_event :: itch_event
  qe_enqueued_at :: u64

record operation_latency =
  lat_add :: histogram
  lat_cancel :: histogram
  lat_execution :: histogram
  lat_replace :: histogram

record checkpoint =
  cp_applied :: u64
  cp_instruments :: size_t
  cp_resting_orders :: size_t
  cp_rejected :: u64

text \<open>Where the producer is in its loop, and the main thread in its own.\<close>

datatype producer_phase = Reading | Pushing queued_event | Storing_Done | Producer_Returned

datatype consumer_phase = Checking_Done | Checking_Empty | Popping | Got queued_event | Loop_Left | Terminated

record 'r replay =
  source :: 'r
  producer_phase :: producer_phase
  decoded_messages :: u64
  producer_failed :: bool
  decode_error_text :: string
  producer_done :: "nat option"
  event_queue :: "queued_event ring_system"
  consumer_phase :: consumer_phase
  done_seen :: bool
  replay_engine :: engine
  latency :: operation_latency
  end_to_end :: histogram
  applied_messages :: u64
  checkpoints :: "checkpoint list"

definition new_replay :: "replay_config \<Rightarrow> queued_event ring \<Rightarrow> 'r \<Rightarrow> 'r replay" where
  "new_replay config q r =
     \<lparr>source = r, producer_phase = Reading, decoded_messages = 0, producer_failed = False,
      decode_error_text = [], producer_done = None, event_queue = start q, consumer_phase = Checking_Done, done_seen = False,
      replay_engine = new_engine (engine_limits_of config),
      latency = \<lparr>lat_add = new_histogram, lat_cancel = new_histogram, lat_execution = new_histogram,
        lat_replace = new_histogram\<rparr>,
      end_to_end = new_histogram, applied_messages = 0, checkpoints = []\<rparr>"

subsection \<open>Before the threads\<close>

text \<open>
  What \<^verbatim>\<open>main\<close> does with its arguments: a usage error exits with 2, an input that cannot be
  opened with 1, each with a line on the error stream. An exception of the ring's constructor, or of the
  thread's, is not caught.
\<close>

datatype 'r startup = Exits string nat | Ring_Threw ring_error | Thread_Threw | Replays replay_config "'r replay"

definition usage_line :: string where
  "usage_line =
     ''usage: itch_replay <sample.itch[.gz]> [--ring-capacity N] '' @
     ''[--max-instruments N] [--max-resting-orders N] '' @
     ''[--checkpoint-every N] [--snapshot-locate N] [--fail-on-reject]'' @ new_line"

definition start_replay ::
  "bool \<Rightarrow> (string \<Rightarrow> plain_stream option) \<Rightarrow> (string \<Rightarrow> 'z option) \<Rightarrow> bool \<Rightarrow> bool \<Rightarrow> string list \<Rightarrow>
     'z input_source startup" where
  "start_replay have_zlib open_plain open_gzip memory threads argv =
     (case parse_arguments argv of
        None \<Rightarrow> Exits usage_line 2
      | Some config \<Rightarrow>
          (case open_reader have_zlib open_plain open_gzip (input_path config) of
             Inl err \<Rightarrow> Exits (''input error: '' @ err @ new_line) 1
           | Inr input \<Rightarrow>
               (case new_ring memory (ring_capacity config) of
                  Inl err \<Rightarrow> Ring_Threw err
                | Inr q \<Rightarrow>
                    if threads then Replays config (new_replay config q input) else Thread_Threw)))"

subsection \<open>Recording\<close>

definition record_latency :: "operation_latency \<Rightarrow> apply_action \<Rightarrow> u64 \<Rightarrow> operation_latency option" where
  "record_latency l action duration_ns =
     (case action of
        Added \<Rightarrow> map_option (\<lambda>h. l\<lparr>lat_add := h\<rparr>) (record_value (lat_add l) duration_ns)
      | Cancelled \<Rightarrow> map_option (\<lambda>h. l\<lparr>lat_cancel := h\<rparr>) (record_value (lat_cancel l) duration_ns)
      | Executed \<Rightarrow> map_option (\<lambda>h. l\<lparr>lat_execution := h\<rparr>) (record_value (lat_execution l) duration_ns)
      | Replaced \<Rightarrow> map_option (\<lambda>h. l\<lparr>lat_replace := h\<rparr>) (record_value (lat_replace l) duration_ns)
      | _ \<Rightarrow> Some l)"

definition checkpoint_due :: "replay_config \<Rightarrow> u64 \<Rightarrow> bool" where
  "checkpoint_due config n \<longleftrightarrow> checkpoint_every config \<noteq> 0 \<and> n mod checkpoint_every config = 0"

text \<open>
  What the main thread does with a popped event: apply it, record both durations, count it, and report
  at a checkpoint. The three clock readings are \<open>t0\<close> before, \<open>t1\<close> after, and that of the event.
  An exception leaves \<^verbatim>\<open>main\<close> while the producer is joinable, which terminates the process.
\<close>

definition consume ::
  "replay_config \<Rightarrow> 'r replay \<Rightarrow> queued_event \<Rightarrow> u64 \<Rightarrow> u64 \<Rightarrow> nat \<Rightarrow> 'r replay option" where
  "consume config s q t0 t1 k =
     (case engine_apply (replay_engine s) (qe_event q) k of
        Undefined \<Rightarrow> None
      | Thrown e \<Rightarrow> Some (s\<lparr>replay_engine := e, consumer_phase := Terminated\<rparr>)
      | Done result e k' \<Rightarrow> do {
          l \<leftarrow> record_latency (latency s) (ar_action result) (t1 - t0);
          h \<leftarrow> record_value (end_to_end s) (t1 - qe_enqueued_at q);
          let n = applied_messages s + 1;
          let cs = (if checkpoint_due config n
            then [\<lparr>cp_applied = n, cp_instruments = instrument_count e,
              cp_resting_orders = resting_order_count e, cp_rejected = st_rejected (stats e)\<rparr>]
            else []);
          Some (s\<lparr>replay_engine := e, latency := l, end_to_end := h, applied_messages := n,
            checkpoints := checkpoints s @ cs, consumer_phase := Checking_Done\<rparr>)
        })"

subsection \<open>Steps\<close>

datatype replay_event = Internal | Queue "queued_event ring_event" | Applied_Event itch_event

text \<open>
  One turn of the producer: read a frame, decode it, take the time. A failure leaves its reason for the
  main thread to print.
\<close>

definition reason_of :: "decode_result \<Rightarrow> string" where
  "reason_of d =
     (case dr_error d of Some e \<Rightarrow> de_reason e | None \<Rightarrow> ''truncated ITCH frame at end of file'')"

definition read_event ::
  "('r \<Rightarrow> nat \<Rightarrow> (string + u8 list) \<times> 'r) \<Rightarrow> 'r replay \<Rightarrow> u64 \<Rightarrow> 'r replay option" where
  "read_event rd s t =
     (let (status, r) = next_frame rd (source s);
          s = s\<lparr>source := r\<rparr>;
          fail = (\<lambda>err. Some (s\<lparr>decode_error_text := err, producer_failed := True, producer_phase := Storing_Done\<rparr>)) in
      case status of
        End_Of_File \<Rightarrow> Some (s\<lparr>producer_phase := Storing_Done\<rparr>)
      | Frame_Error err \<Rightarrow> fail err
      | Frame frame \<Rightarrow>
          (case decode_next frame of
             None \<Rightarrow> None
           | Some d \<Rightarrow>
               if dr_status d \<noteq> Complete then fail (reason_of d)
               else
                 case dr_message d of
                   None \<Rightarrow> fail (reason_of d)
                 | Some m \<Rightarrow>
                     Some (s\<lparr>producer_phase := Pushing \<lparr>qe_event = dm_event m, qe_enqueued_at = t\<rparr>\<rparr>)))"

text \<open>The call a thread begins when it has none under way.\<close>

definition begins_push :: "'a \<Rightarrow> 'a ring_system \<Rightarrow> bool" where
  "begins_push q t \<longleftrightarrow> (case producer t of P_Own c w \<Rightarrow> c = Emplace q | _ \<Rightarrow> True)"

definition begins_call :: "consumer_call \<Rightarrow> 'a ring_system \<Rightarrow> bool" where
  "begins_call d t \<longleftrightarrow> (case consumer t of C_Own d' r \<Rightarrow> d' = d | _ \<Rightarrow> True)"

text \<open>
  The producer's loop. Its buffers and strings may find no memory, which throws where no one catches.
\<close>

inductive producer_turn ::
  "('r \<Rightarrow> nat \<Rightarrow> (string + u8 list) \<times> 'r) \<Rightarrow> 'r replay \<Rightarrow> replay_event \<Rightarrow> 'r replay option \<Rightarrow> bool"
  for rd where
  read_step:
    "producer_phase s = Reading \<Longrightarrow> producer_turn rd s Internal (read_event rd s t)"
| read_throws:
    "producer_phase s = Reading \<Longrightarrow> producer_turn rd s Internal (Some (s\<lparr>consumer_phase := Terminated\<rparr>))"
| push_undefined:
    "producer_phase s = Pushing q \<Longrightarrow> producer_step (event_queue s) ev None \<Longrightarrow> ev \<noteq> Push_Threw \<Longrightarrow>
     producer_turn rd s (Queue ev) None"
| push_step:
    "producer_phase s = Pushing q \<Longrightarrow> producer_step (event_queue s) ev (Some t) \<Longrightarrow> begins_push q t \<Longrightarrow>
     ev = Silent \<or> ev = Push_Failed \<Longrightarrow>
     producer_turn rd s (Queue ev) (Some (s\<lparr>event_queue := t\<rparr>))"
| pushed_step:
    "producer_phase s = Pushing q \<Longrightarrow> producer_step (event_queue s) (Pushed v) (Some t) \<Longrightarrow>
     producer_turn rd s (Queue (Pushed v))
       (Some (s\<lparr>event_queue := t, producer_phase := Reading, decoded_messages := decoded_messages s + 1\<rparr>))"
| store_done:
    "producer_phase s = Storing_Done \<Longrightarrow>
     producer_turn rd s Internal
       (Some (s\<lparr>producer_done := Some (length (write_stores (shared (event_queue s))) - 1),
          producer_phase := Producer_Returned\<rparr>))"

text \<open>The main thread's loop.\<close>

inductive consumer_turn :: "replay_config \<Rightarrow> 'r replay \<Rightarrow> replay_event \<Rightarrow> 'r replay option \<Rightarrow> bool"
  for config where
  done_false:
    "consumer_phase s = Checking_Done \<Longrightarrow> \<not> done_seen s \<Longrightarrow>
     consumer_turn config s Internal (Some (s\<lparr>consumer_phase := Popping\<rparr>))"
| done_true:
    "consumer_phase s = Checking_Done \<Longrightarrow> producer_done s = Some k \<Longrightarrow>
     consumer_turn config s Internal
       (Some (s\<lparr>consumer_phase := Checking_Empty, done_seen := True, event_queue := learn_writes k (event_queue s)\<rparr>))"
| queue_undefined:
    "consumer_phase s = Checking_Empty \<or> consumer_phase s = Popping \<Longrightarrow> consumer_step (event_queue s) ev None \<Longrightarrow>
     consumer_turn config s (Queue ev) None"
| empty_step:
    "consumer_phase s = Checking_Empty \<Longrightarrow> consumer_step (event_queue s) Silent (Some t) \<Longrightarrow>
     begins_call Empty t \<Longrightarrow> consumer_turn config s (Queue Silent) (Some (s\<lparr>event_queue := t\<rparr>))"
| empty_answer:
    "consumer_phase s = Checking_Empty \<Longrightarrow> consumer_step (event_queue s) (Empty_Is b) (Some t) \<Longrightarrow>
     consumer_turn config s (Queue (Empty_Is b))
       (Some (s\<lparr>event_queue := t, consumer_phase := (if b then Loop_Left else Popping)\<rparr>))"
| pop_step:
    "consumer_phase s = Popping \<Longrightarrow> consumer_step (event_queue s) Silent (Some t) \<Longrightarrow>
     begins_call Try_Pop t \<Longrightarrow> consumer_turn config s (Queue Silent) (Some (s\<lparr>event_queue := t\<rparr>))"
| pop_failed:
    "consumer_phase s = Popping \<Longrightarrow> consumer_step (event_queue s) Pop_Failed (Some t) \<Longrightarrow>
     consumer_turn config s (Queue Pop_Failed) (Some (s\<lparr>event_queue := t, consumer_phase := Checking_Done\<rparr>))"
| popped_step:
    "consumer_phase s = Popping \<Longrightarrow> consumer_step (event_queue s) (Popped q) (Some t) \<Longrightarrow>
     consumer_turn config s (Queue (Popped q)) (Some (s\<lparr>event_queue := t, consumer_phase := Got q\<rparr>))"
| apply_step:
    "consumer_phase s = Got q \<Longrightarrow>
     consumer_turn config s (Applied_Event (qe_event q)) (consume config s q t0 t1 k)"

text \<open>Either thread, until an exception terminates the process.\<close>

inductive replay_step ::
  "('r \<Rightarrow> nat \<Rightarrow> (string + u8 list) \<times> 'r) \<Rightarrow> replay_config \<Rightarrow> 'r replay \<Rightarrow> replay_event \<Rightarrow> 'r replay option \<Rightarrow> bool"
  for rd config where
  producer_moves: "consumer_phase s \<noteq> Terminated \<Longrightarrow> producer_turn rd s ev t \<Longrightarrow> replay_step rd config s ev t"
| main_moves: "consumer_phase s \<noteq> Terminated \<Longrightarrow> consumer_turn config s ev t \<Longrightarrow> replay_step rd config s ev t"

inductive_cases replay_stepE: "replay_step rd config s ev t"

definition replay_run ::
  "('r \<Rightarrow> nat \<Rightarrow> (string + u8 list) \<times> 'r) \<Rightarrow> replay_config \<Rightarrow> 'r replay \<Rightarrow> replay_event list \<Rightarrow> 'r replay \<Rightarrow> bool" where
  "replay_run rd config = event_run (\<lambda>s ev t. replay_step rd config s ev (Some t))"

subsection \<open>After the loop\<close>

text \<open>Both threads have left their loops.\<close>

definition finished :: "'r replay \<Rightarrow> bool" where
  "finished s \<longleftrightarrow> consumer_phase s = Loop_Left \<and> producer_phase s = Producer_Returned"

record snapshot =
  sn_bid_price :: price
  sn_bid_quantity :: u64
  sn_ask_price :: price
  sn_ask_quantity :: u64

text \<open>The top of the book asked for: no report, a missing book, or its best depths.\<close>

definition snapshot_of :: "replay_config \<Rightarrow> 'r replay \<Rightarrow> (snapshot option) option option" where
  "snapshot_of config s =
     (case snapshot_locate config of
        None \<Rightarrow> Some None
      | Some l \<Rightarrow>
          (case find_book (replay_engine s) l of
             None \<Rightarrow> Some (Some None)
           | Some b \<Rightarrow> do {
               bid \<leftarrow> best_bid_depth b;
               ask \<leftarrow> best_ask_depth b;
               Some (Some (Some
                 \<lparr>sn_bid_price = (case bid of Some d \<Rightarrow> depth_price d | None \<Rightarrow> 0),
                  sn_bid_quantity = (case bid of Some d \<Rightarrow> depth_quantity d | None \<Rightarrow> 0),
                  sn_ask_price = (case ask of Some d \<Rightarrow> depth_price d | None \<Rightarrow> 0),
                  sn_ask_quantity = (case ask of Some d \<Rightarrow> depth_quantity d | None \<Rightarrow> 0)\<rparr>))
             }))"

text \<open>
  The report printed when the producer did not fail: the counts, the five summaries and the snapshot.
\<close>

record final_report =
  fr_decoded :: u64
  fr_applied :: u64
  fr_instruments :: size_t
  fr_resting_orders :: size_t
  fr_rejected :: u64
  fr_summaries :: "string list"
  fr_snapshot :: "snapshot option option"

definition report_of :: "nat \<Rightarrow> replay_config \<Rightarrow> 'r replay \<Rightarrow> final_report option" where
  "report_of prec config s = do {
     add \<leftarrow> print_summary prec ''add'' (lat_add (latency s));
     cancel \<leftarrow> print_summary prec ''cancel'' (lat_cancel (latency s));
     execution \<leftarrow> print_summary prec ''execution/match'' (lat_execution (latency s));
     replace \<leftarrow> print_summary prec ''replace'' (lat_replace (latency s));
     total \<leftarrow> print_summary prec ''enqueue-to-apply'' (end_to_end s);
     sn \<leftarrow> snapshot_of config s;
     let e = replay_engine s;
     Some \<lparr>fr_decoded = decoded_messages s, fr_applied = st_messages (stats e),
       fr_instruments = instrument_count e, fr_resting_orders = resting_order_count e,
       fr_rejected = st_rejected (stats e), fr_summaries = [add, cancel, execution, replace, total],
       fr_snapshot = sn\<rparr>
   }"

text \<open>The text of the report. The throughput is a matter of time, any value.\<close>

definition counts_line :: "u64 \<Rightarrow> final_report \<Rightarrow> string" where
  "counts_line throughput f =
     ''decoded='' @ shown (fr_decoded f) @ '' applied='' @ shown (fr_applied f) @
     '' instruments='' @ shown (fr_instruments f) @ '' resting_orders='' @ shown (fr_resting_orders f) @
     '' rejected='' @ shown (fr_rejected f) @ '' throughput='' @ shown throughput @ '' messages/s'' @ new_line"

definition snapshot_line :: "stock_locate \<Rightarrow> snapshot \<Rightarrow> string" where
  "snapshot_line l sn =
     ''snapshot.stock_locate='' @ shown l @ '' bid_price='' @ shown (sn_bid_price sn) @
     '' bid_quantity='' @ shown (sn_bid_quantity sn) @ '' ask_price='' @ shown (sn_ask_price sn) @
     '' ask_quantity='' @ shown (sn_ask_quantity sn) @ new_line"

text \<open>What the snapshot adds to the output and to the error stream.\<close>

definition snapshot_text :: "replay_config \<Rightarrow> snapshot option option \<Rightarrow> string \<times> string" where
  "snapshot_text config sn =
     (case (snapshot_locate config, sn) of
        (Some l, Some None) \<Rightarrow> ([], ''event=snapshot_missing stock_locate='' @ shown l @ new_line)
      | (Some l, Some (Some shot)) \<Rightarrow> (snapshot_line l shot, [])
      | _ \<Rightarrow> ([], []))"

definition checkpoint_line :: "checkpoint \<Rightarrow> string" where
  "checkpoint_line c =
     ''event=checkpoint applied='' @ shown (cp_applied c) @ '' instruments='' @ shown (cp_instruments c) @
     '' resting_orders='' @ shown (cp_resting_orders c) @ '' rejected='' @ shown (cp_rejected c) @ new_line"

text \<open>
  What \<^verbatim>\<open>main\<close> has printed on both streams when it returns, once the producer has been joined,
  and its exit status.
\<close>

definition conclude ::
  "nat \<Rightarrow> u64 \<Rightarrow> replay_config \<Rightarrow> 'r replay \<Rightarrow> (string \<times> string \<times> nat) option" where
  "conclude prec throughput config s =
     (let reported = concat (map checkpoint_line (checkpoints s)) in
      if producer_failed s then
        Some ([], reported @ ''decode error: '' @ decode_error_text s @ new_line, 1)
      else do {
        f \<leftarrow> report_of prec config s;
        let (found, missing) = snapshot_text config (fr_snapshot f);
        Some (counts_line throughput f @ concat (fr_summaries f) @ found, reported @ missing,
          if fail_on_reject config \<and> st_rejected (stats (replay_engine s)) \<noteq> 0 then 1 else 0)
      })"

end
