(* ===== verification/Latency_Total.thy ===== *)
theory Latency_Total
  imports Latency_Histogram Latency_Rounding
begin

section \<open>The histogram is total\<close>

text \<open>
  Whatever it holds, a histogram records every value and has a summary: every value has a counter, and
  the ranks of the three percentiles stay within 64 bits. The precision is at least that of
  \<^verbatim>\<open>double\<close>, as the standard requires.
\<close>

definition histogram_ok :: "histogram \<Rightarrow> bool" where
  "histogram_ok h \<longleftrightarrow> length (bin_counts h) = 56320"

lemma new_histogram_ok [simp]: "histogram_ok new_histogram"
  by (simp add: histogram_ok_def new_histogram_def reset_def constants)

lemma record_value_ok:
  "histogram_ok h \<Longrightarrow> \<exists>h'. record_value h v = Some h' \<and> histogram_ok h' \<and> total_count h' = total_count h + 1"
  using index_bin [of v] by (simp add: record_value_def histogram_ok_def Let_def)

lemma round_to_below:
  assumes "0 \<le> x" "x \<le> y" "53 \<le> prec"
  shows "0 \<le> round_to prec x" "round_to prec x \<le> y * (1 + 1 / 2 ^ 53)"
proof -
  have "x / 2 ^ prec \<le> x / 2 ^ 53" using assms(1,3) by (intro divide_left_mono power_increasing) auto
  moreover have "\<bar>round_to prec x - x\<bar> \<le> x / 2 ^ prec"
    using round_to_error [of x prec] assms(1) by (cases "x = 0") (simp_all add: round_to_def)
  ultimately have e: "\<bar>round_to prec x - x\<bar> \<le> x / 2 ^ 53" by linarith
  have "x / 2 ^ 53 \<le> x" using assms(1) by simp
  with e show "0 \<le> round_to prec x" by linarith
  have "x * (1 + 1 / 2 ^ 53) = x + x / 2 ^ 53" by (simp add: distrib_left)
  with e have "round_to prec x \<le> x * (1 + 1 / 2 ^ 53)" by linarith
  also have "\<dots> \<le> y * (1 + 1 / 2 ^ 53)" using assms(2) by (intro mult_right_mono) simp_all
  finally show "round_to prec x \<le> y * (1 + 1 / 2 ^ 53)" .
qed

lemma rank_defined:
  assumes "0 \<le> p" "p \<le> 9991 / 100" "53 \<le> prec"
  shows "\<exists>r. rank_for prec p c = Some r"
proof -
  let ?e = "1 + 1 / 2 ^ 53 :: rat" and ?c = "of_nat (unat c) :: rat"
  let ?prod = "round_to prec p * round_to prec ?c"
  have "?c \<le> 2 ^ 64"
  proof -
    have "unat c \<le> 2 ^ 64" using unsigned_less [of c, where 'a = nat] by simp
    then have "?c \<le> of_nat (2 ^ 64)" by (simp only: of_nat_le_iff)
    then show ?thesis by simp
  qed
  note rp = round_to_below [OF assms] and rc = round_to_below [OF of_nat_0_le_iff this assms(3)]
  have prod: "0 \<le> ?prod" using rp(1) rc(1) by simp
  have "?prod \<le> (9991 / 100 * ?e) * (2 ^ 64 * ?e)" by (rule mult_mono [OF rp(2) rc(2) _ rc(1)]) simp
  note r2 = round_to_below [OF prod this assms(3)]
  have "0 \<le> round_to prec ?prod / 100"
    "round_to prec ?prod / 100 \<le> (9991 / 100 * ?e) * (2 ^ 64 * ?e) * ?e / 100"
    using r2 by (simp_all add: divide_right_mono)
  note r3 = round_to_below [OF this assms(3)]
  have "(9991 / 100 * ?e) * (2 ^ 64 * ?e) * ?e / 100 * ?e < 2 ^ 64" by simp
  with r3(2) have "round_to prec (round_to prec ?prod / 100) < of_int (2 ^ 64)" by simp
  then have "\<lfloor>round_to prec (round_to prec ?prod / 100)\<rfloor> < 2 ^ 64" by (simp only: floor_less_iff)
  with r3(1) show ?thesis by (simp add: rank_for_def Let_def)
qed

lemma find_bin_range:
  "find_bin rank obs (of_nat i) cs = Some j \<Longrightarrow> \<exists>k < length cs. j = of_nat (i + k)"
proof (induction cs arbitrary: obs i)
  case (Cons c cs)
  show ?case
  proof (cases "obs + c \<ge> rank")
    case True
    with Cons.prems show ?thesis by (auto intro: exI [of _ 0])
  next
    case False
    then have "find_bin rank (obs + c) (of_nat (Suc i)) cs = Some j" using Cons.prems by (simp add: add.commute)
    from Cons.IH [OF this] obtain k where "k < length cs" "j = of_nat (Suc i + k)" by blast
    then show ?thesis by (intro exI [of _ "Suc k"]) simp
  qed
qed simp

lemma percentile_defined:
  assumes "histogram_ok h" "0 \<le> p" "p \<le> 9991 / 100" "53 \<le> prec"
  shows "\<exists>v. value_at_percentile prec h (Finite p) = Some v"
proof -
  obtain r where r: "rank_for prec p (total_count h) = Some r" using rank_defined assms(2-4) by blast
  have c: "clamp_percentile (Finite p) = Some p" using assms(2,3) by simp
  have "\<exists>v. value_for_index j = Some v" if j: "find_bin r 0 0 (bin_counts h) = Some j" for j
  proof -
    obtain k where "k < 56320" "j = of_nat k"
      using find_bin_range [of r 0 0 "bin_counts h" j] j assms(1) by (auto simp: histogram_ok_def)
    then have "unat j < 56320" by (simp add: unsigned_of_nat take_bit_nat_eq_self)
    then show ?thesis using value_nat by blast
  qed
  with r c show ?thesis
    by (cases "find_bin r 0 0 (bin_counts h)") (auto simp: value_at_percentile_def simp del: clamp_percentile.simps)
qed

lemma summary_defined:
  assumes "histogram_ok h" "53 \<le> prec"
  shows "\<exists>s. summary prec h = Some s"
proof -
  have p: "0 \<le> round_to 53 (999 / 10)" "round_to 53 (999 / 10) \<le> 9991 / 100"
    using round_to_below [of "999 / 10" "999 / 10" 53] by simp_all
  obtain a b c where "value_at_percentile prec h (Finite 50) = Some a"
    "value_at_percentile prec h (Finite 99) = Some b"
    "value_at_percentile prec h (Finite (round_to 53 (999 / 10))) = Some c"
    using percentile_defined [OF assms(1) _ _ assms(2), of 50] percentile_defined [OF assms(1) _ _ assms(2), of 99]
      percentile_defined [OF assms(1) p assms(2)] by auto
  then show ?thesis by (simp add: summary_def)
qed

end
