(* ===== verification/Replay_Invariant.thy ===== *)
theory Replay_Invariant
  imports Replay Ring_Invariant Engine_Feed Latency_Total
begin

section \<open>The invariant of the replay\<close>

text \<open>
  What the input holds, as events and the error at its end if there is one, and what every reachable state of
  the pipeline keeps: the events pushed, popped and applied so far are those of the input, in order,
  and the engine is the one they lead to. The ring is used through its contract as a channel, the
  source through its own.
\<close>

subsection \<open>The events of an input\<close>

definition event_of :: "u8 list \<Rightarrow> string + itch_event" where
  "event_of frame =
     (case decode_next frame of
        None \<Rightarrow> Inl []
      | Some d \<Rightarrow>
          if dr_status d \<noteq> Complete then Inl (reason_of d)
          else case dr_message d of None \<Rightarrow> Inl (reason_of d) | Some m \<Rightarrow> Inr (dm_event m))"

lemma frame_of_Frame: "frame_of xs = Frame f \<Longrightarrow> \<exists>ys. xs = f @ ys \<and> 2 \<le> length f"
  by (auto simp: frame_of_def split: if_splits) (metis append_take_drop_id)

function feed :: "u8 list \<Rightarrow> itch_event list \<times> string option" where
  "feed xs =
     (case frame_of xs of
        End_Of_File \<Rightarrow> ([], None)
      | Frame_Error err \<Rightarrow> ([], Some err)
      | Frame f \<Rightarrow>
          (case event_of f of
             Inl err \<Rightarrow> ([], Some err)
           | Inr ev \<Rightarrow> (ev # fst (feed (drop (length f) xs)), snd (feed (drop (length f) xs)))))"
  by pat_completeness auto
termination by (relation "measure length") (auto dest!: frame_of_Frame)

declare feed.simps [simp del]

lemma decode_next_defined: "\<exists>d. decode_next xs = Some d"
proof (cases "length xs < 2 \<or> declared_length xs = 0 \<or> length xs < 2 + declared_length xs")
  case True
  then show ?thesis by (auto simp: decode_next_eq)
next
  case False
  then show ?thesis using decode_next_ok [of xs] by (auto simp: decoded_ok_def split: option.splits)
qed

text \<open>An input made of the frames of events holds those events, and ends where it should.\<close>

lemma frame_of_frame:
  assumes "0 < length m" "length m < 2 ^ 16"
  shows "frame_of (frame_bytes m @ rest) = Frame (frame_bytes m)"
proof -
  have "declared_length (frame_bytes m @ rest) = length m"
    using assms by (simp add: declared_length_def frame_bytes_def unsigned_of_nat take_bit_nat_eq_self)
  with assms show ?thesis by (simp add: frame_of_def frame_bytes_def)
qed

lemma event_of_frame:
  assumes "event_fits ev"
  shows "event_of (frame_bytes (encode_event ev)) = Inr ev"
  using encode_event_length [OF assms] decode_frame [of "encode_event ev" "[]"] decode_message_encode [OF assms]
  by (simp add: event_of_def Itch_Decoder.complete_def)

definition input_of :: "itch_event list \<Rightarrow> u8 list" where
  "input_of evs = concat (map (\<lambda>ev. frame_bytes (encode_event ev)) evs)"

lemma feed_input:
  "list_all event_fits evs \<Longrightarrow> feed (input_of evs @ rest) = (evs @ fst (feed rest), snd (feed rest))"
proof (induction evs)
  case Nil
  then show ?case by (simp add: input_of_def)
next
  case (Cons ev evs)
  have i: "input_of (ev # evs) = frame_bytes (encode_event ev) @ input_of evs" by (simp add: input_of_def)
  have "frame_of (input_of (ev # evs) @ rest) = Frame (frame_bytes (encode_event ev))"
    using encode_event_length [of ev] Cons.prems by (simp add: i frame_of_frame)
  with Cons show ?case by (subst feed.simps) (simp add: event_of_frame i)
qed

lemma feed_empty: "feed xs = ([], None) \<longleftrightarrow> xs = []"
  by (subst feed.simps) (auto simp: frame_of_def split: frame_status.splits sum.splits)

text \<open>What the steps of a run pushed, popped and applied.\<close>

fun queue_events :: "replay_event list \<Rightarrow> queued_event ring_event list" where
  "queue_events [] = []"
| "queue_events (Queue e # evs) = e # queue_events evs"
| "queue_events (_ # evs) = queue_events evs"

fun applied_events :: "replay_event list \<Rightarrow> itch_event list" where
  "applied_events [] = []"
| "applied_events (Applied_Event ev # evs) = ev # applied_events evs"
| "applied_events (_ # evs) = applied_events evs"

lemma queue_events_append [simp]: "queue_events (evs @ fs) = queue_events evs @ queue_events fs"
  by (induction evs rule: queue_events.induct) auto

lemma applied_events_append [simp]: "applied_events (evs @ fs) = applied_events evs @ applied_events fs"
  by (induction evs rule: applied_events.induct) auto

subsection \<open>The parts of the invariant\<close>

definition pushing :: "'a \<Rightarrow> 'a producer_point \<Rightarrow> bool" where
  "pushing q p =
     (case p of
        P_Ready \<Rightarrow> True | P_Own c w \<Rightarrow> c = Emplace q | P_Loaded c w r \<Rightarrow> c = Emplace q | P_Built v w \<Rightarrow> v = q)"

definition calling :: "consumer_call \<Rightarrow> 'a consumer_point \<Rightarrow> bool" where
  "calling d c =
     (case c of
        C_Ready \<Rightarrow> True | C_Own d' r \<Rightarrow> d' = d | C_Loaded d' r w \<Rightarrow> d' = d
      | C_Moved v r \<Rightarrow> d = Try_Pop | C_Destroyed v r \<Rightarrow> d = Try_Pop)"

definition latency_ok :: "operation_latency \<Rightarrow> bool" where
  "latency_ok l \<longleftrightarrow> histogram_ok (lat_add l) \<and> histogram_ok (lat_cancel l) \<and>
     histogram_ok (lat_execution l) \<and> histogram_ok (lat_replace l)"

definition failure :: "'r replay \<Rightarrow> string option" where
  "failure s = (if producer_failed s then Some (decode_error_text s) else None)"

definition producer_inv ::
  "('r \<Rightarrow> u8 list) \<Rightarrow> ('r \<Rightarrow> bool) \<Rightarrow> itch_event list \<times> string option \<Rightarrow> queued_event list \<Rightarrow> 'r replay \<Rightarrow> bool" where
  "producer_inv left sound F ps s =
     (let rest = feed (left (source s)) in
      case producer_phase s of
        Reading \<Rightarrow> producer (event_queue s) = P_Ready \<and> sound (source s) \<and> \<not> producer_failed s \<and>
          producer_done s = None \<and> F = (map qe_event ps @ fst rest, snd rest)
      | Pushing q \<Rightarrow> pushing q (producer (event_queue s)) \<and> sound (source s) \<and> \<not> producer_failed s \<and>
          producer_done s = None \<and> F = (map qe_event (ps @ [q]) @ fst rest, snd rest)
      | Storing_Done \<Rightarrow> producer (event_queue s) = P_Ready \<and> producer_done s = None \<and>
          F = (map qe_event ps, failure s)
      | Producer_Returned \<Rightarrow> producer (event_queue s) = P_Ready \<and> producer_done s = Some (length ps) \<and>
          F = (map qe_event ps, failure s))"

definition consumer_inv ::
  "queued_event list \<Rightarrow> queued_event list \<Rightarrow> itch_event list \<Rightarrow> 'r replay \<Rightarrow> bool" where
  "consumer_inv ps rs as s =
     (case consumer_phase s of
        Checking_Done \<Rightarrow> consumer (event_queue s) = C_Ready \<and> as = map qe_event rs
      | Checking_Empty \<Rightarrow> calling Empty (consumer (event_queue s)) \<and> as = map qe_event rs \<and>
          producer_done s \<noteq> None \<and> length ps \<le> consumer_view (event_queue s)
      | Popping \<Rightarrow> calling Try_Pop (consumer (event_queue s)) \<and> as = map qe_event rs
      | Got q \<Rightarrow> consumer (event_queue s) = C_Ready \<and> map qe_event rs = as @ [qe_event q]
      | Loop_Left \<Rightarrow> consumer (event_queue s) = C_Ready \<and> as = map qe_event rs \<and> rs = ps \<and> producer_done s \<noteq> None
      | Terminated \<Rightarrow> \<exists>more. map qe_event rs = as @ more \<and> length more \<le> 1)"

definition work_inv :: "replay_config \<Rightarrow> itch_event list \<Rightarrow> 'r replay \<Rightarrow> bool" where
  "work_inv config as s \<longleftrightarrow> latency_ok (latency s) \<and> histogram_ok (end_to_end s) \<and>
     (consumer_phase s \<noteq> Terminated \<longrightarrow>
       engine_holds (replay_engine s) (fed (engine_limits_of config) (\<lambda>_. None) as) {} \<and>
       limits (replay_engine s) = engine_limits_of config \<and> applied_messages s = of_nat (length as) \<and>
       st_messages (stats (replay_engine s)) = of_nat (length as))"

definition replay_inv ::
  "('r \<Rightarrow> u8 list) \<Rightarrow> ('r \<Rightarrow> bool) \<Rightarrow> replay_config \<Rightarrow> itch_event list \<times> string option \<Rightarrow> queued_event list \<Rightarrow>
     queued_event list \<Rightarrow> itch_event list \<Rightarrow> 'r replay \<Rightarrow> bool" where
  "replay_inv left sound config F ps rs as s \<longleftrightarrow>
     ring_inv (ring_capacity config) ps rs (event_queue s) \<and> producer_inv left sound F ps s \<and>
     consumer_inv ps rs as s \<and> work_inv config as s \<and> decoded_messages s = of_nat (length ps) \<and>
     (done_seen s \<longrightarrow> producer_done s \<noteq> None)"

lemma new_replay_inv:
  assumes "new_ring memory (ring_capacity config) = Inr q" "sound r"
  shows "replay_inv left sound config (feed (left r)) [] [] [] (new_replay config q r)"
proof -
  have "work_inv config [] (new_replay config q r)"
    by (simp add: work_inv_def new_replay_def latency_ok_def new_engine_holds)
      (simp add: new_engine_def no_stats_def)
  with new_ring_inv [OF assms(1)] assms(2) show ?thesis
    by (simp add: replay_inv_def producer_inv_def consumer_inv_def new_replay_def start_def Let_def)
qed

subsection \<open>Work of one thread\<close>

lemma record_latency_ok: "latency_ok l \<Longrightarrow> \<exists>l'. record_latency l a d = Some l' \<and> latency_ok l'"
  using record_value_ok [of "lat_add l" d] record_value_ok [of "lat_cancel l" d]
    record_value_ok [of "lat_execution l" d] record_value_ok [of "lat_replace l" d]
  by (cases a) (auto simp: record_latency_def latency_ok_def)

text \<open>The views of the invariant that steps of one thread leave alone.\<close>

lemma producer_inv_cong:
  "producer (event_queue t) = producer (event_queue s) \<Longrightarrow> source t = source s \<Longrightarrow>
   producer_phase t = producer_phase s \<Longrightarrow> producer_failed t = producer_failed s \<Longrightarrow>
   decode_error_text t = decode_error_text s \<Longrightarrow> producer_done t = producer_done s \<Longrightarrow> producer_inv left sound F ps t = producer_inv left sound F ps s"
  by (cases "producer_phase s") (simp_all add: producer_inv_def failure_def)

lemma consume_frame:
  "consume config s q t0 t1 k = Some u \<Longrightarrow>
   event_queue u = event_queue s \<and> source u = source s \<and> producer_phase u = producer_phase s \<and>
   producer_failed u = producer_failed s \<and> decode_error_text u = decode_error_text s \<and>
   producer_done u = producer_done s \<and> decoded_messages u = decoded_messages s \<and> done_seen u = done_seen s"
  by (auto simp: consume_def Let_def split: outcome.splits Option.bind_splits)

lemma consume_inv:
  assumes "replay_inv left sound config F ps rs as s" "consumer_phase s = Got q"
  shows "\<exists>u. consume config s q t0 t1 k = Some u \<and> replay_inv left sound config F ps rs (as @ [qe_event q]) u"
proof -
  have c: "consumer (event_queue s) = C_Ready" "map qe_event rs = as @ [qe_event q]"
    using assms by (simp_all add: replay_inv_def consumer_inv_def)
  have w: "latency_ok (latency s)" "histogram_ok (end_to_end s)"
    "engine_holds (replay_engine s) (fed (engine_limits_of config) (\<lambda>_. None) as) {}"
    "limits (replay_engine s) = engine_limits_of config" "applied_messages s = of_nat (length as)"
    "st_messages (stats (replay_engine s)) = of_nat (length as)"
    using assms by (simp_all add: replay_inv_def work_inv_def)
  have other: "replay_inv left sound config F ps rs (as @ [qe_event q]) u"
    if u: "consume config s q t0 t1 k = Some u" "work_inv config (as @ [qe_event q]) u"
      "consumer_phase u = Checking_Done \<or> consumer_phase u = Terminated" for u
    using assms(1) c u(2,3) consume_frame [OF u(1)] producer_inv_cong [of u s]
    by (auto simp: replay_inv_def consumer_inv_def)
  note sat = engine_apply_sat [OF w(3), of "qe_event q" k]
  show ?thesis
  proof (cases "engine_apply (replay_engine s) (qe_event q) k")
    case (Done r e k')
    have e: "engine_holds e (fed (engine_limits_of config) (\<lambda>_. None) (as @ [qe_event q])) {}"
      "limits e = engine_limits_of config"
      using apply_fed [OF w(3,4) Done] .
    have m: "st_messages (bump_action a st) = st_messages st" for a st
      by (cases a) simp_all
    have "st_messages (stats e) = of_nat (length as) + 1"
      using sat Done w(6) by (simp add: m bump_messages_def)
    moreover obtain l where l: "record_latency (latency s) (ar_action r) (t1 - t0) = Some l" "latency_ok l"
      using record_latency_ok [OF w(1)] by blast
    moreover obtain h where h: "record_value (end_to_end s) (t1 - qe_enqueued_at q) = Some h" "histogram_ok h"
      using record_value_ok [OF w(2)] by blast
    obtain u where u: "consume config s q t0 t1 k = Some u" "consumer_phase u = Checking_Done"
      "replay_engine u = e" "latency u = l" "end_to_end u = h" "applied_messages u = applied_messages s + 1"
      using Done l(1) h(1) by (simp add: consume_def Let_def)
    ultimately have "work_inv config (as @ [qe_event q]) u"
      using e w(5) h(2) by (simp add: work_inv_def add.commute)
    with other [OF u(1)] u(1,2) show ?thesis by simp
  next
    case (Thrown e)
    then obtain u where u: "consume config s q t0 t1 k = Some u" "consumer_phase u = Terminated"
      "latency u = latency s" "end_to_end u = end_to_end s"
      by (simp add: consume_def)
    with w(1,2) have "work_inv config (as @ [qe_event q]) u" by (simp add: work_inv_def)
    with other [OF u(1)] u(1,2) show ?thesis by simp
  next
    case Undefined
    with sat show ?thesis by simp
  qed
qed

lemma work_inv_cong:
  "latency t = latency s \<Longrightarrow> end_to_end t = end_to_end s \<Longrightarrow> replay_engine t = replay_engine s \<Longrightarrow>
   applied_messages t = applied_messages s \<Longrightarrow> consumer_phase s \<noteq> Terminated \<Longrightarrow>
   work_inv config as s \<Longrightarrow> work_inv config as t"
  by (simp add: work_inv_def)

lemma consumer_inv_push:
  assumes "consumer_inv ps rs as s" "consumer (event_queue t) = consumer (event_queue s)"
    "consumer_view (event_queue t) = consumer_view (event_queue s)"
    "consumer_phase t = consumer_phase s" "producer_done t = producer_done s"
    "ps' = ps \<or> producer_done s = None"
  shows "consumer_inv ps' rs as t"
  using assms by (auto simp: consumer_inv_def split: consumer_phase.splits)

lemma producer_step_frame:
  "producer_step s ev t \<Longrightarrow> t = Some u \<Longrightarrow> consumer u = consumer s \<and> consumer_view u = consumer_view s \<and> pops [ev] = []"
  by (induction rule: producer_step.induct) auto

lemma consumer_step_frame:
  "consumer_step s ev t \<Longrightarrow> t = Some u \<Longrightarrow> producer u = producer s \<and> pushes [ev] = []"
  by (induction rule: consumer_step.induct) auto

lemma push_call:
  assumes "producer_step s ev (Some t)" "pushing q (producer s)"
  shows "ev = Silent \<or> ev = Push_Failed \<Longrightarrow> begins_push q t \<Longrightarrow> pushing q (producer t)"
    "ev = Pushed v \<Longrightarrow> v = q \<and> producer t = P_Ready"
  using assms by (auto simp: pushing_def begins_push_def elim!: producer_step.cases)

lemma consumer_call_step:
  assumes "consumer_step s ev (Some t)" "calling d (consumer s)"
  shows "ev = Silent \<Longrightarrow> begins_call d t \<Longrightarrow> calling d (consumer t)"
    "ev \<noteq> Silent \<Longrightarrow> consumer t = C_Ready"
  using assms by (auto simp: calling_def begins_call_def elim!: consumer_step.cases)

subsection \<open>Steps\<close>

context frame_source
begin

lemma read_event_inv:
  assumes inv: "replay_inv left sound config F ps rs as s" and p: "producer_phase s = Reading"
  shows "\<exists>u. read_event rd s t = Some u \<and> replay_inv left sound config F ps rs as u"
proof -
  have s: "sound (source s)" "F = (map qe_event ps @ fst (feed (left (source s))), snd (feed (left (source s))))"
    "producer (event_queue s) = P_Ready" "producer_done s = None" "\<not> producer_failed s"
    using inv p by (simp_all add: replay_inv_def producer_inv_def Let_def)
  obtain status r where r: "next_frame rd (source s) = (status, r)" by (cases "next_frame rd (source s)")
  note snd = next_frame_sound [OF s(1) r]
  have other: "replay_inv left sound config F ps rs as u"
    if "producer_inv left sound F ps u" "event_queue u = event_queue s" "consumer_phase u = consumer_phase s"
      "producer_done u = producer_done s" "latency u = latency s" "end_to_end u = end_to_end s"
      "replay_engine u = replay_engine s" "applied_messages u = applied_messages s"
      "decoded_messages u = decoded_messages s" "done_seen u = done_seen s" for u
    using inv that consumer_inv_push [of ps rs as s u ps] by (simp add: replay_inv_def work_inv_def)
  show ?thesis
  proof (cases status)
    case (Frame f)
    have l: "left (source s) = f @ left r" using next_frame_frame [OF r [unfolded Frame]] by simp
    have f: "frame_of (left (source s)) = Frame f" using snd Frame by simp
    obtain d where d: "decode_next f = Some d" using decode_next_defined by blast
    show ?thesis
    proof (cases "event_of f")
      case (Inl err)
      then have F: "F = (map qe_event ps, Some err)" using s(2) f by (simp add: feed.simps [of "left (source s)"])
      let ?u = "s\<lparr>source := r, decode_error_text := err, producer_failed := True, producer_phase := Storing_Done\<rparr>"
      have "read_event rd s t = Some ?u"
        using r d Inl by (auto simp: read_event_def Let_def Frame event_of_def split: if_splits option.splits)
      moreover have "replay_inv left sound config F ps rs as ?u"
        by (rule other) (use s F in \<open>simp_all add: producer_inv_def failure_def Let_def\<close>)
      ultimately show ?thesis by blast
    next
      case (Inr ev)
      then have F: "F = (map qe_event ps @ ev # fst (feed (left r)), snd (feed (left r)))"
      proof -
        have "drop (length f) (left (source s)) = left r" using l by simp
        with Inr f have "feed (left (source s)) = (ev # fst (feed (left r)), snd (feed (left r)))"
          by (subst feed.simps) simp
        with s(2) show ?thesis by simp
      qed
      let ?u = "s\<lparr>source := r, producer_phase := Pushing \<lparr>qe_event = ev, qe_enqueued_at = t\<rparr>\<rparr>"
      have "read_event rd s t = Some ?u"
        using r d Inr by (auto simp: read_event_def Let_def Frame event_of_def split: if_splits option.splits)
      moreover have "replay_inv left sound config F ps rs as ?u"
        by (rule other) (use s snd F in \<open>simp_all add: producer_inv_def Let_def pushing_def\<close>)
      ultimately show ?thesis by blast
    qed
  next
    case End_Of_File
    then have F: "F = (map qe_event ps, None)"
      using s(2) snd by (simp add: feed.simps [of "left (source s)"])
    have "replay_inv left sound config F ps rs as (s\<lparr>source := r, producer_phase := Storing_Done\<rparr>)"
      by (rule other) (use s F in \<open>simp_all add: producer_inv_def failure_def Let_def\<close>)
    then show ?thesis using r by (simp add: read_event_def Let_def End_Of_File)
  next
    case (Frame_Error err)
    then have F: "F = (map qe_event ps, Some err)"
      using s(2) snd by (simp add: feed.simps [of "left (source s)"])
    have "replay_inv left sound config F ps rs as
        (s\<lparr>source := r, decode_error_text := err, producer_failed := True, producer_phase := Storing_Done\<rparr>)"
      by (rule other) (use s F in \<open>simp_all add: producer_inv_def failure_def Let_def\<close>)
    then show ?thesis using r by (simp add: read_event_def Let_def Frame_Error)
  qed
qed

end

text \<open>An exception of either thread ends the process where it is.\<close>

lemma terminated_inv:
  assumes "replay_inv left sound config F ps rs as s"
  shows "replay_inv left sound config F ps rs as (s\<lparr>consumer_phase := Terminated\<rparr>)"
proof -
  let ?u = "s\<lparr>consumer_phase := Terminated\<rparr>"
  have "producer_inv left sound F ps ?u"
    using assms producer_inv_cong [of ?u s] by (simp add: replay_inv_def)
  moreover have "consumer_inv ps rs as ?u"
    using assms by (auto simp: replay_inv_def consumer_inv_def split: consumer_phase.splits)
  ultimately show ?thesis using assms by (simp add: replay_inv_def work_inv_def)
qed

text \<open>A step of the ring taken by the producer, and one taken by the consumer.\<close>

lemma push_inv:
  assumes inv: "replay_inv left sound config F ps rs as s" and p: "producer_phase s = Pushing q"
    and st: "producer_step (event_queue s) ev (Some t)" and ev: "ev = Silent \<or> ev = Push_Failed" "begins_push q t"
  shows "replay_inv left sound config F ps rs as (s\<lparr>event_queue := t\<rparr>)"
proof -
  have i: "ring_inv (ring_capacity config) ps rs (event_queue s)" "pushing q (producer (event_queue s))"
    using inv p by (simp_all add: replay_inv_def producer_inv_def Let_def)
  have "ring_inv (ring_capacity config) (ps @ pushes [ev]) (rs @ pops [ev]) t"
    by (rule ring.keeps [OF i(1) by_producer [OF st]])
  moreover have "pushes [ev] = []" "pops [ev] = []" using ev(1) by auto
  moreover have "pushing q (producer t)" by (rule push_call(1) [OF st i(2) ev])
  ultimately show ?thesis
    using inv p producer_step_frame [OF st refl] consumer_inv_push [of ps rs as s "s\<lparr>event_queue := t\<rparr>" ps]
    by (auto simp: replay_inv_def producer_inv_def Let_def work_inv_def)
qed

lemma pushed_inv:
  assumes inv: "replay_inv left sound config F ps rs as s" and p: "producer_phase s = Pushing q"
    and st: "producer_step (event_queue s) (Pushed v) (Some t)"
  shows "replay_inv left sound config F (ps @ [v]) rs as
    (s\<lparr>event_queue := t, producer_phase := Reading, decoded_messages := decoded_messages s + 1\<rparr>)"
proof -
  let ?u = "s\<lparr>event_queue := t, producer_phase := Reading, decoded_messages := decoded_messages s + 1\<rparr>"
  have i: "ring_inv (ring_capacity config) ps rs (event_queue s)" "pushing q (producer (event_queue s))"
    "producer_done s = None"
    using inv p by (simp_all add: replay_inv_def producer_inv_def Let_def)
  have "ring_inv (ring_capacity config) (ps @ [v]) rs t"
    using ring.keeps [OF i(1) by_producer [OF st]] by simp
  moreover have "v = q" "producer t = P_Ready" using push_call(2) [OF st i(2)] by simp_all
  ultimately show ?thesis
    using inv p i(3) producer_step_frame [OF st refl] consumer_inv_push [of ps rs as s ?u "ps @ [v]"]
    by (simp add: replay_inv_def producer_inv_def Let_def work_inv_def add.commute)
qed

lemma consumer_ring_inv:
  assumes inv: "replay_inv left sound config F ps rs as s" "consumer_phase s = Checking_Empty \<or> consumer_phase s = Popping"
    and st: "consumer_step (event_queue s) ev (Some t)"
    and u: "consumer_inv ps (rs @ pops [ev]) as (s\<lparr>event_queue := t, consumer_phase := c\<rparr>)"
  shows "replay_inv left sound config F ps (rs @ pops [ev]) as (s\<lparr>event_queue := t, consumer_phase := c\<rparr>)"
proof -
  have "ring_inv (ring_capacity config) (ps @ pushes [ev]) (rs @ pops [ev]) t"
    using inv ring.keeps [OF _ by_consumer [OF st]] by (auto simp: replay_inv_def)
  moreover have "producer_inv left sound F ps (s\<lparr>event_queue := t, consumer_phase := c\<rparr>)"
    using inv producer_inv_cong [of "s\<lparr>event_queue := t, consumer_phase := c\<rparr>" s] consumer_step_frame [OF st refl]
    by (simp add: replay_inv_def)
  moreover have "work_inv config as (s\<lparr>event_queue := t, consumer_phase := c\<rparr>)"
    using inv by (auto simp: replay_inv_def work_inv_def)
  ultimately show ?thesis
    using inv u consumer_step_frame [OF st refl] by (simp add: replay_inv_def)
qed

lemma phase_kept: "c = consumer_phase s \<Longrightarrow> s\<lparr>event_queue := t, consumer_phase := c\<rparr> = s\<lparr>event_queue := t\<rparr>"
  by (cases s) simp

lemma store_done_inv:
  assumes inv: "replay_inv left sound config F ps rs as s" and p: "producer_phase s = Storing_Done"
  shows "replay_inv left sound config F ps rs as
    (s\<lparr>producer_done := Some (length (write_stores (shared (event_queue s))) - 1), producer_phase := Producer_Returned\<rparr>)"
proof -
  have "length (write_stores (shared (event_queue s))) = Suc (length ps)"
    using inv ring_invD(6) by (auto simp: replay_inv_def stores_ok_def)
  with inv p show ?thesis
    by (auto simp: replay_inv_def producer_inv_def work_inv_def consumer_inv_def failure_def Let_def
        split: consumer_phase.splits)
qed

lemma done_true_inv:
  assumes inv: "replay_inv left sound config F ps rs as s"
    and c: "consumer_phase s = Checking_Done" "producer_done s = Some k"
  shows "replay_inv left sound config F ps rs as
    (s\<lparr>consumer_phase := Checking_Empty, done_seen := True, event_queue := learn_writes k (event_queue s)\<rparr>)"
proof -
  let ?u = "s\<lparr>consumer_phase := Checking_Empty, done_seen := True, event_queue := learn_writes k (event_queue s)\<rparr>"
  have k: "k = length ps" using inv c(2) by (auto simp: replay_inv_def producer_inv_def Let_def split: producer_phase.splits)
  have r: "consumer (event_queue s) = C_Ready" "as = map qe_event rs"
    using inv c(1) by (simp_all add: replay_inv_def consumer_inv_def)
  have "ring_inv (ring_capacity config) ps rs (learn_writes k (event_queue s))"
    using ring.learn_ok [of _ ps rs] inv r(1) k by (simp add: replay_inv_def)
  moreover have "length ps \<le> consumer_view (learn_writes k (event_queue s))"
    using ring.learn_known [of k "event_queue s"] k by simp
  moreover have "producer_inv left sound F ps ?u"
    using inv producer_inv_cong [of ?u s] by (simp add: replay_inv_def learn_writes_def)
  moreover have "calling Empty (consumer (learn_writes k (event_queue s)))"
    using r(1) by (simp add: learn_writes_def calling_def)
  moreover have "work_inv config as ?u" using inv c(1) by (simp add: replay_inv_def work_inv_def)
  ultimately show ?thesis using inv c(2) r(2) by (simp add: replay_inv_def consumer_inv_def)
qed

text \<open>The applied events are the first of the input.\<close>

lemma applied_received:
  assumes "consumer_inv ps rs as s"
  shows "\<exists>more. map qe_event rs = as @ more \<and> length more \<le> 1"
  using assms by (auto simp: consumer_inv_def split: consumer_phase.splits)

lemma replay_inv_order:
  assumes "replay_inv left sound config F ps rs as s"
  shows "\<exists>rest. fst F = as @ rest"
proof -
  have "\<exists>ys. fst F = map qe_event ps @ ys"
    using assms by (auto simp: replay_inv_def producer_inv_def Let_def split: producer_phase.splits)
  moreover have "\<exists>zs. ps = rs @ zs"
    using assms ring.in_order [of "ring_capacity config" ps rs] by (metis replay_inv_def append_take_drop_id)
  moreover obtain more where "map qe_event rs = as @ more"
    using assms applied_received [of ps rs as s] by (auto simp: replay_inv_def)
  ultimately show ?thesis by auto
qed

text \<open>Every step, with what it adds to the three histories.\<close>

lemma consumer_turn_inv:
  assumes inv: "replay_inv left sound config F ps rs as s" and step: "consumer_turn config s ev t"
  shows "\<exists>u. t = Some u \<and> replay_inv left sound config F (ps @ pushes (queue_events [ev]))
    (rs @ pops (queue_events [ev])) (as @ applied_events [ev]) u"
proof -
  have ring: "ring_inv (ring_capacity config) ps rs (event_queue s)" using inv by (simp add: replay_inv_def)
  from step show ?thesis
  proof cases
    case done_false
    then show ?thesis using inv
      by (auto simp: replay_inv_def consumer_inv_def calling_def work_inv_def
          intro: producer_inv_cong [THEN iffD1, rotated -1])
  next
    case (done_true k)
    with done_true_inv [OF inv this(3,4)] show ?thesis by simp
  next
    case (queue_undefined ev')
    with consumer_step_inv [OF ring] show ?thesis by blast
  next
    case (empty_step t')
    have u: "s\<lparr>event_queue := t', consumer_phase := Checking_Empty\<rparr> = s\<lparr>event_queue := t'\<rparr>"
      by (rule phase_kept) (simp add: empty_step)
    have "consumer_inv ps (rs @ pops [Silent]) as (s\<lparr>event_queue := t', consumer_phase := Checking_Empty\<rparr>)"
      using inv empty_step(3) consumer_call_step(1) [OF empty_step(4) _ refl empty_step(5)]
        ring.known_mono [OF by_consumer [OF empty_step(4)]]
      by (simp add: replay_inv_def consumer_inv_def)
    from consumer_ring_inv [OF inv _ empty_step(4) this] empty_step show ?thesis unfolding u by simp
  next
    case (empty_answer b t')
    have c: "calling Empty (consumer (event_queue s))" "as = map qe_event rs" "producer_done s \<noteq> None"
      "length ps \<le> consumer_view (event_queue s)"
      using inv empty_answer(3) by (simp_all add: replay_inv_def consumer_inv_def)
    have "rs = ps" if b
      using ring.drained [OF ring c(4)] by_consumer [OF empty_answer(4)] that by simp
    then have "consumer_inv ps (rs @ pops [Empty_Is b]) as
        (s\<lparr>event_queue := t', consumer_phase := (if b then Loop_Left else Popping)\<rparr>)"
      using c consumer_call_step(2) [OF empty_answer(4) c(1)] by (simp add: consumer_inv_def calling_def)
    from consumer_ring_inv [OF inv _ empty_answer(4) this] empty_answer show ?thesis by simp
  next
    case (pop_step t')
    have u: "s\<lparr>event_queue := t', consumer_phase := Popping\<rparr> = s\<lparr>event_queue := t'\<rparr>"
      by (rule phase_kept) (simp add: pop_step)
    have "consumer_inv ps (rs @ pops [Silent]) as (s\<lparr>event_queue := t', consumer_phase := Popping\<rparr>)"
      using inv pop_step(3) consumer_call_step(1) [OF pop_step(4) _ refl pop_step(5)]
      by (simp add: replay_inv_def consumer_inv_def)
    from consumer_ring_inv [OF inv _ pop_step(4) this] pop_step show ?thesis unfolding u by simp
  next
    case (pop_failed t')
    have "consumer_inv ps (rs @ pops [Pop_Failed]) as (s\<lparr>event_queue := t', consumer_phase := Checking_Done\<rparr>)"
      using inv pop_failed(3) consumer_call_step(2) [OF pop_failed(4), of Try_Pop]
      by (simp add: replay_inv_def consumer_inv_def)
    from consumer_ring_inv [OF inv _ pop_failed(4) this] pop_failed show ?thesis by simp
  next
    case (popped_step q t')
    have "consumer_inv ps (rs @ pops [Popped q]) as (s\<lparr>event_queue := t', consumer_phase := Got q\<rparr>)"
      using inv popped_step(3) consumer_call_step(2) [OF popped_step(4), of Try_Pop]
      by (simp add: replay_inv_def consumer_inv_def)
    from consumer_ring_inv [OF inv _ popped_step(4) this] popped_step show ?thesis by simp
  next
    case (apply_step q t0 t1 k)
    with consume_inv [OF inv this(3)] show ?thesis by simp
  qed
qed

context frame_source
begin

lemma producer_turn_inv:
  assumes inv: "replay_inv left sound config F ps rs as s" and step: "producer_turn rd s ev t"
  shows "\<exists>u. t = Some u \<and> replay_inv left sound config F (ps @ pushes (queue_events [ev]))
    (rs @ pops (queue_events [ev])) (as @ applied_events [ev]) u"
proof -
  have ring: "ring_inv (ring_capacity config) ps rs (event_queue s)" using inv by (simp add: replay_inv_def)
  from step show ?thesis
  proof cases
    case (read_step t)
    with read_event_inv [OF inv] show ?thesis by simp
  next
    case read_throws
    with terminated_inv [OF inv] show ?thesis by simp
  next
    case (push_undefined q ev')
    with producer_step_inv [OF ring] show ?thesis by blast
  next
    case (push_step q ev' t')
    with push_inv [OF inv this(3,4,6,5)] show ?thesis by auto
  next
    case (pushed_step q v t')
    with pushed_inv [OF inv this(3,4)] show ?thesis by simp
  next
    case store_done
    with store_done_inv [OF inv] show ?thesis by simp
  qed
qed

lemma replay_step_inv:
  assumes inv: "replay_inv left sound config F ps rs as s" and step: "replay_step rd config s ev t"
  shows "\<exists>u. t = Some u \<and> replay_inv left sound config F (ps @ pushes (queue_events [ev]))
    (rs @ pops (queue_events [ev])) (as @ applied_events [ev]) u"
  using step producer_turn_inv [OF inv] consumer_turn_inv [OF inv] by (blast elim: replay_stepE)

lemma replay_run_inv:
  assumes "replay_run rd config s evs t" "replay_inv left sound config F [] [] [] s"
  shows "replay_inv left sound config F (pushes (queue_events evs)) (pops (queue_events evs)) (applied_events evs) t"
  using assms unfolding replay_run_def
proof (induction rule: event_run.induct)
  case (run_step evs t ev u)
  from replay_step_inv [OF run_step.IH [OF run_step.prems] run_step.hyps(2)] show ?case by simp
qed simp

end

end
