(* ===== verification/Call_Progress.thy ===== *)
theory Call_Progress
  imports Replay_Invariant Ring_Properties
begin

section \<open>Progress of a call on the ring\<close>

text \<open>
  How far a call is from its answer. Every step of a call brings it nearer, as long as its load of the
  other index is fresh: it returns every store the caller waits for. A fresh step always exists.
\<close>

subsection \<open>Pushing\<close>

text \<open>How far the producer is from its push, when the ring has been drained.\<close>

definition push_distance :: "size_t \<Rightarrow> 'a list \<Rightarrow> 'a ring_system \<Rightarrow> nat" where
  "push_distance n ps s =
     (case producer s of
        P_Ready \<Rightarrow> 4
      | P_Own c w \<Rightarrow> 3
      | P_Loaded c w r \<Rightarrow> if length ps = producer_view s + unat n then 5 else 2
      | P_Built v w \<Rightarrow> 1)"

lemma push_nearer:
  assumes inv: "ring_inv n ps ps s" and step: "producer_step s ev (Some t)"
    and ev: "ev = Silent \<or> ev = Push_Failed" "fresh_producer (length ps) s t"
  shows "push_distance n ps t < push_distance n ps s"
  using step
proof cases
  case (acquire_read c w i)
  have "0 < unat n" using capacity_bound ring_invD(8) [OF inv] by blast
  with acquire_read ev(2) show ?thesis by (simp add: push_distance_def fresh_producer_def)
next
  case (push_fails v w r)
  with answer_inv(1) [OF inv push_fails(3)] show ?thesis by (simp add: push_distance_def)
next
  case (construct_object v w r)
  with answer_inv(1) [OF inv construct_object(3)] show ?thesis by (auto simp: push_distance_def)
qed (use ev(1) in \<open>simp_all add: push_distance_def\<close>)

lemma push_can:
  assumes inv: "ring_inv n ps rs s" and q: "pushing q (producer s)"
  shows "\<exists>ev t. producer_step s ev (Some t) \<and> fresh_producer (length rs) s t \<and>
    (ev = Pushed q \<or> (ev = Silent \<or> ev = Push_Failed) \<and> begins_push q t)"
proof (cases "producer s")
  case P_Ready
  show ?thesis
    by (intro exI conjI, rule producer_step.load_own_write [OF P_Ready, of "Emplace q"])
      (simp_all add: P_Ready begins_push_def fresh_producer_def)
next
  case (P_Own c w)
  have "loadable (read_stores (shared s)) (producer_view s) (length rs)" using fresh_load [OF inv] by simp
  from producer_step.acquire_read [OF P_Own this] show ?thesis
    by - (intro exI conjI, assumption, simp_all add: P_Own begins_push_def fresh_producer_def)
next
  case (P_Loaded c w r)
  then have c: "c = Emplace q" using q by (simp add: pushing_def)
  show ?thesis
  proof (cases "w - r = capacity (shared s)")
    case True
    show ?thesis
      by (intro exI conjI, rule producer_step.push_fails [OF P_Loaded [unfolded c] True])
        (simp_all add: P_Loaded begins_push_def fresh_producer_def)
  next
    case False
    obtain u where u: "Spsc_Ring.construct (shared s) (producer_view s) w q = Some u"
      using construct_step [OF inv P_Loaded [unfolded c] False] by blast
    have "producer_step s Silent (Some (s\<lparr>shared := u, producer := P_Built q w\<rparr>))"
      using producer_step.construct_object [OF P_Loaded [unfolded c] False] u by simp
    then show ?thesis
      by (intro exI conjI, assumption) (simp_all add: P_Loaded begins_push_def fresh_producer_def)
  qed
next
  case (P_Built v w)
  have "v = q" using q P_Built by (simp add: pushing_def)
  with producer_step.release_write [OF P_Built] show ?thesis
    by - (intro exI conjI, assumption, simp_all add: fresh_producer_def P_Built)
qed

subsection \<open>Popping\<close>

definition pop_distance :: "'a list \<Rightarrow> 'a list \<Rightarrow> 'a ring_system \<Rightarrow> nat" where
  "pop_distance ps rs s =
     (case consumer s of
        C_Ready \<Rightarrow> if rs = ps then 12 else 5
      | C_Own d r \<Rightarrow> if rs = ps then 11 else 4
      | C_Loaded d r w \<Rightarrow> if consumer_view s = length rs then 10 else 3
      | C_Moved v r \<Rightarrow> 2
      | C_Destroyed v r \<Rightarrow> 1)"

definition empty_distance :: "'a ring_system \<Rightarrow> nat" where
  "empty_distance s = (case consumer s of C_Ready \<Rightarrow> 8 | C_Own d r \<Rightarrow> 7 | _ \<Rightarrow> 6)"

lemma same_length: "ring_inv n ps rs s \<Longrightarrow> length ps = length rs \<longleftrightarrow> rs = ps"
  using ring.in_order by (metis order.refl take_all)

lemma pop_nearer:
  assumes inv: "ring_inv n ps rs s" and step: "consumer_step s ev (Some t)"
    and fresh: "fresh_consumer (length ps) s t"
  shows "ev = Silent \<Longrightarrow> pop_distance ps rs t < pop_distance ps rs s"
    "ev = Pop_Failed \<Longrightarrow> 10 \<le> pop_distance ps rs s"
    "ev = Popped v \<Longrightarrow> length rs < length ps"
proof -
  show "pop_distance ps rs t < pop_distance ps rs s" if ev: "ev = Silent"
    using step
  proof cases
    case (acquire_write d r i)
    then have "i = length ps"
      using fresh ring_invD(6) [OF inv] by (auto simp: fresh_consumer_def loadable_def stores_ok_def)
    with acquire_write same_length [OF inv] show ?thesis by (simp add: pop_distance_def)
  next
    case (move_object r w)
    with answer_inv(2) [OF inv move_object(3)] show ?thesis by (auto simp: pop_distance_def)
  qed (use ev in \<open>auto simp: pop_distance_def\<close>)
  show "10 \<le> pop_distance ps rs s" if "ev = Pop_Failed"
    using step that answer_inv(2) [OF inv] by (auto simp: pop_distance_def elim!: pop_failsE)
  show "length rs < length ps" if "ev = Popped v"
    using step
  proof cases
    case (release_read v r)
    then show ?thesis using inv by (auto simp: ring_inv_def consumer_ok_def)
  qed (use that in simp_all)
qed

lemma empty_nearer:
  assumes inv: "ring_inv n ps rs s" and step: "consumer_step s ev (Some t)" and d: "calling Empty (consumer s)"
  shows "ev = Silent \<Longrightarrow> empty_distance t < empty_distance s"
    "ev = Empty_Is False \<Longrightarrow> length rs < length ps"
proof -
  show "empty_distance t < empty_distance s" if ev: "ev = Silent"
    using step d ev by (auto simp: calling_def empty_distance_def elim!: consumer_step.cases)
  show "length rs < length ps" if "ev = Empty_Is False"
    using step that answer_inv(2) [OF inv] inv by (auto simp: ring_inv_def elim!: empty_isE)
qed

lemma call_can:
  assumes inv: "ring_inv n ps rs s" and d: "calling d (consumer s)"
  shows "\<exists>ev t. consumer_step s ev (Some t) \<and> fresh_consumer (length ps) s t \<and> (ev = Silent \<longrightarrow> begins_call d t) \<and>
    (case d of Empty \<Rightarrow> ev = Silent \<or> (\<exists>b. ev = Empty_Is b)
     | Try_Pop \<Rightarrow> ev = Silent \<or> ev = Pop_Failed \<or> (\<exists>v. ev = Popped v))"
proof (cases "consumer s")
  case C_Ready
  show ?thesis
    by (intro exI conjI, rule consumer_step.load_own_read [OF C_Ready, of d])
      (simp_all add: C_Ready begins_call_def fresh_consumer_def split: consumer_call.splits)
next
  case (C_Own c r)
  have "loadable (write_stores (shared s)) (consumer_view s) (length ps)" using fresh_load [OF inv] by simp
  from consumer_step.acquire_write [OF C_Own this] show ?thesis
    by - (intro exI conjI, assumption,
      simp_all add: C_Own begins_call_def fresh_consumer_def split: consumer_call.splits)
next
  case (C_Loaded c r w)
  then have c: "c = d" using d by (simp add: calling_def)
  have f: "fresh_consumer (length ps) s t" for t by (simp add: fresh_consumer_def C_Loaded)
  show ?thesis
  proof (cases d)
    case Empty
    with consumer_step.report_empty [OF C_Loaded [unfolded c Empty]] f show ?thesis by fastforce
  next
    case pop: Try_Pop
    show ?thesis
    proof (cases "r = w")
      case True
      with consumer_step.pop_fails [OF C_Loaded [unfolded c pop] True] f pop show ?thesis by fastforce
    next
      case False
      obtain v u where u: "move_out (shared s) (consumer_view s) r = Some (v, u)"
        using move_step [OF inv C_Loaded [unfolded c pop] False] by blast
      have "consumer_step s Silent (Some (s\<lparr>shared := u, consumer := C_Moved v r\<rparr>))"
        using consumer_step.move_object [OF C_Loaded [unfolded c pop] False] u by simp
      then show ?thesis by (intro exI conjI, assumption) (simp_all add: f begins_call_def pop)
    qed
  qed
next
  case (C_Moved v r)
  obtain u where u: "destroy_moved (shared s) r = Some u" using destroy_step [OF inv C_Moved] by blast
  have "consumer_step s Silent (Some (s\<lparr>shared := u, consumer := C_Destroyed v r\<rparr>))"
    using consumer_step.destroy_object [OF C_Moved] u by simp
  moreover have "d = Try_Pop" using d by (simp add: calling_def C_Moved)
  ultimately show ?thesis
    by - (intro exI conjI, assumption, simp_all add: C_Moved begins_call_def fresh_consumer_def)
next
  case (C_Destroyed v r)
  have "d = Try_Pop" using d by (simp add: calling_def C_Destroyed)
  with consumer_step.release_read [OF C_Destroyed] show ?thesis
    by - (intro exI conjI, assumption, simp_all add: C_Destroyed fresh_consumer_def)
qed

end
