(* ===== verification/Replay_Progress.thy ===== *)
theory Replay_Progress
  imports Call_Progress
begin

section \<open>Progress of the replay\<close>

text \<open>
  Four numbers measure what is left to do: the work of the producer, the values under way, and how far
  each thread is from its next event. The main thread gets nearer with each of its turns as long as
  there is something to pop or the producer is done; the producer gets nearer with each of its turns
  once the ring is drained. Fresh turns exist in every state, so that a scheduler can bring the pipeline
  to its end.
\<close>

subsection \<open>The measures\<close>

definition producer_work :: "('r \<Rightarrow> u8 list) \<Rightarrow> 'r replay \<Rightarrow> nat" where
  "producer_work left s =
     (case producer_phase s of
        Reading \<Rightarrow> length (left (source s)) + 2
      | Pushing q \<Rightarrow> length (left (source s)) + 3
      | Storing_Done \<Rightarrow> 1
      | Producer_Returned \<Rightarrow> 0)"

definition push_wait :: "replay_config \<Rightarrow> queued_event list \<Rightarrow> 'r replay \<Rightarrow> nat" where
  "push_wait config ps s =
     (case producer_phase s of Pushing q \<Rightarrow> push_distance (ring_capacity config) ps (event_queue s) | _ \<Rightarrow> 0)"

definition consumer_distance :: "queued_event list \<Rightarrow> queued_event list \<Rightarrow> 'r replay \<Rightarrow> nat" where
  "consumer_distance ps rs s =
     (case consumer_phase s of
        Checking_Done \<Rightarrow> 9
      | Checking_Empty \<Rightarrow> empty_distance (event_queue s)
      | Popping \<Rightarrow> pop_distance ps rs (event_queue s)
      | Got q \<Rightarrow> 13
      | _ \<Rightarrow> 0)"

text \<open>A turn of the main thread that sees the last stores of the producer.\<close>

definition fresh_main :: "nat \<Rightarrow> 'r replay \<Rightarrow> 'r replay \<Rightarrow> bool" where
  "fresh_main n s u \<longleftrightarrow> fresh_consumer n (event_queue s) (event_queue u) \<and>
     (producer_done s \<noteq> None \<longrightarrow> consumer_phase s = Checking_Done \<longrightarrow> consumer_phase u \<noteq> Popping)"

text \<open>What the turns of one thread leave to the other.\<close>

lemma consumer_step_view: "consumer_step s ev (Some t) \<Longrightarrow> producer_view t = producer_view s"
  by (erule consumer_step.cases) auto

lemma consumer_turn_frame:
  assumes "consumer_turn config s ev (Some u)"
  shows "producer_phase u = producer_phase s" "source u = source s" "producer_done u = producer_done s"
    "producer (event_queue u) = producer (event_queue s)"
    "producer_view (event_queue u) = producer_view (event_queue s)" "pushes (queue_events [ev]) = []"
  using assms
  by (auto elim!: consumer_turn.cases simp: learn_writes_def
      dest: consume_frame [OF sym] consumer_step_view consumer_step_frame [OF _ refl])

lemma read_event_frame:
  "read_event rd s t = Some u \<Longrightarrow> consumer_phase u = consumer_phase s \<and> event_queue u = event_queue s"
  by (auto simp: read_event_def Let_def split: prod.splits frame_status.splits option.splits if_splits)

lemma producer_turn_frame:
  assumes "producer_turn rd s ev (Some u)"
  shows "consumer_phase u = consumer_phase s \<or> consumer_phase u = Terminated"
    "consumer (event_queue u) = consumer (event_queue s)"
    "consumer_view (event_queue u) = consumer_view (event_queue s)" "pops (queue_events [ev]) = []"
  using assms
  by (auto elim!: producer_turn.cases dest: read_event_frame [OF sym] producer_step_frame [OF _ refl])

lemma producer_work_cong:
  "producer_phase u = producer_phase s \<Longrightarrow> source u = source s \<Longrightarrow> producer_work left u = producer_work left s"
  by (simp add: producer_work_def split: producer_phase.split)

lemma push_wait_cong:
  "producer_phase u = producer_phase s \<Longrightarrow> producer (event_queue u) = producer (event_queue s) \<Longrightarrow>
   producer_view (event_queue u) = producer_view (event_queue s) \<Longrightarrow> push_wait config ps u = push_wait config ps s"
  by (simp add: push_wait_def push_distance_def split: producer_phase.split)

lemma consumer_distance_cong:
  "consumer_phase u = consumer_phase s \<Longrightarrow> consumer (event_queue u) = consumer (event_queue s) \<Longrightarrow>
   consumer_view (event_queue u) = consumer_view (event_queue s) \<Longrightarrow>
   consumer_distance ps rs u = consumer_distance ps rs s"
  by (simp add: consumer_distance_def pop_distance_def empty_distance_def split: consumer_phase.split)

subsection \<open>The main thread\<close>

lemma consumer_turn_nearer:
  assumes inv: "replay_inv left sound config F ps rs as s" and turn: "consumer_turn config s ev (Some u)"
    and fresh: "fresh_main (length ps) s u" and wait: "rs \<noteq> ps \<or> producer_done s \<noteq> None"
  shows "pops (queue_events [ev]) \<noteq> [] \<or> consumer_distance ps rs u < consumer_distance ps rs s"
proof -
  have ring: "ring_inv (ring_capacity config) ps rs (event_queue s)" using inv by (simp add: replay_inv_def)
  have f: "fresh_consumer (length ps) (event_queue s) (event_queue u)" using fresh by (simp add: fresh_main_def)
  have bounds: "6 \<le> empty_distance q" for q :: "queued_event ring_system"
    by (simp add: empty_distance_def split: consumer_point.splits)
  from turn show ?thesis
  proof cases
    case done_false
    moreover from this have "producer_done s = None" using fresh by (auto simp: fresh_main_def)
    moreover from this have "rs \<noteq> ps" using wait by simp
    moreover have "consumer (event_queue s) = C_Ready" using inv done_false by (simp add: replay_inv_def consumer_inv_def)
    ultimately show ?thesis by (simp add: consumer_distance_def pop_distance_def)
  next
    case (done_true k)
    moreover from this have "consumer (event_queue s) = C_Ready" using inv by (simp add: replay_inv_def consumer_inv_def)
    ultimately show ?thesis by (simp add: consumer_distance_def empty_distance_def learn_writes_def)
  next
    case (empty_step t)
    have "calling Empty (consumer (event_queue s))" using inv empty_step(3) by (simp add: replay_inv_def consumer_inv_def)
    from empty_nearer(1) [OF ring empty_step(4) this] empty_step(2,3) show ?thesis by (simp add: consumer_distance_def)
  next
    case (empty_answer b t)
    have d: "calling Empty (consumer (event_queue s))" using inv empty_answer(3) by (simp add: replay_inv_def consumer_inv_def)
    have "consumer t = C_Ready" using empty_answer(4) by (auto elim: empty_isE)
    moreover have "rs \<noteq> ps" if "\<not> b"
      using empty_nearer(2) [OF ring _ d] empty_answer(4) that by auto
    ultimately show ?thesis using bounds [of "event_queue s"] empty_answer(2,3)
      by (simp add: consumer_distance_def pop_distance_def)
  next
    case (pop_step t)
    with pop_nearer(1) [OF ring pop_step(4)] f show ?thesis by (simp add: consumer_distance_def)
  next
    case (pop_failed t)
    with pop_nearer(2) [OF ring pop_failed(4)] f show ?thesis by (simp add: consumer_distance_def)
  next
    case (apply_step q t0 t1 k)
    then have "consumer_phase u = Checking_Done \<or> consumer_phase u = Terminated"
      by (auto simp: consume_def Let_def split: outcome.splits Option.bind_splits)
    with apply_step(3) show ?thesis by (auto simp: consumer_distance_def)
  qed simp
qed

lemma consume_can:
  assumes "replay_inv left sound config F ps rs as s" "consumer_phase s = Got q"
  shows "\<exists>u. consume config s q 0 0 13 = Some u \<and> consumer_phase u = Checking_Done"
proof -
  have w: "latency_ok (latency s)" "histogram_ok (end_to_end s)"
    "engine_holds (replay_engine s) (fed (engine_limits_of config) (\<lambda>_. None) as) {}"
    using assms by (simp_all add: replay_inv_def work_inv_def)
  obtain r e k' where "engine_apply (replay_engine s) (qe_event q) 13 = Done r e k'"
    using engine_apply_sat [OF w(3), of "qe_event q" 13]
    by (cases "engine_apply (replay_engine s) (qe_event q) 13") auto
  moreover obtain l where "record_latency (latency s) (ar_action r) (0 - 0) = Some l"
    using record_latency_ok [OF w(1)] by blast
  moreover obtain h where "record_value (end_to_end s) (0 - qe_enqueued_at q) = Some h"
    using record_value_ok [OF w(2)] by blast
  ultimately show ?thesis by (simp add: consume_def Let_def)
qed

lemma consumer_turn_can:
  assumes inv: "replay_inv left sound config F ps rs as s"
    and c: "consumer_phase s \<noteq> Terminated" "consumer_phase s \<noteq> Loop_Left"
  shows "\<exists>ev u. consumer_turn config s ev (Some u) \<and> fresh_main (length ps) s u \<and> consumer_phase u \<noteq> Terminated"
proof (cases "consumer_phase s")
  case Checking_Done
  have r: "consumer (event_queue s) = C_Ready" "done_seen s \<longrightarrow> producer_done s \<noteq> None"
    using inv Checking_Done by (simp_all add: replay_inv_def consumer_inv_def)
  show ?thesis
  proof (cases "producer_done s")
    case None
    with r(2) have "\<not> done_seen s" by simp
    from consumer_turn.done_false [OF Checking_Done this, of config] None r(1) show ?thesis
      by - (intro exI conjI, assumption, simp_all add: fresh_main_def fresh_consumer_def)
  next
    case (Some k)
    from consumer_turn.done_true [OF Checking_Done Some, of config] r(1) show ?thesis
      by - (intro exI conjI, assumption, simp_all add: fresh_main_def fresh_consumer_def)
  qed
next
  case Checking_Empty
  then have "calling Empty (consumer (event_queue s))" "ring_inv (ring_capacity config) ps rs (event_queue s)"
    using inv by (simp_all add: replay_inv_def consumer_inv_def)
  from call_can [OF this(2,1)] obtain ev t where st: "consumer_step (event_queue s) ev (Some t)"
    "fresh_consumer (length ps) (event_queue s) t" "ev = Silent \<and> begins_call Empty t \<or> (\<exists>b. ev = Empty_Is b)" by auto
  from st(3) show ?thesis
  proof (elim disjE exE conjE)
    assume "ev = Silent" "begins_call Empty t"
    with st show ?thesis
      by - (intro exI conjI, rule consumer_turn.empty_step [OF Checking_Empty, of t], simp_all add: fresh_main_def Checking_Empty)
  next
    fix b assume "ev = Empty_Is b"
    with st show ?thesis
      by - (intro exI conjI, rule consumer_turn.empty_answer [OF Checking_Empty, of b t], simp_all add: fresh_main_def Checking_Empty)
  qed
next
  case Popping
  then have "calling Try_Pop (consumer (event_queue s))" "ring_inv (ring_capacity config) ps rs (event_queue s)"
    using inv by (simp_all add: replay_inv_def consumer_inv_def)
  from call_can [OF this(2,1)] obtain ev t where st: "consumer_step (event_queue s) ev (Some t)"
    "fresh_consumer (length ps) (event_queue s) t"
    "ev = Silent \<and> begins_call Try_Pop t \<or> ev = Pop_Failed \<or> (\<exists>v. ev = Popped v)" by auto
  from st(3) show ?thesis
  proof (elim disjE exE conjE)
    assume "ev = Silent" "begins_call Try_Pop t"
    with st show ?thesis
      by - (intro exI conjI, rule consumer_turn.pop_step [OF Popping, of t], simp_all add: fresh_main_def Popping)
  next
    assume "ev = Pop_Failed"
    with st show ?thesis
      by - (intro exI conjI, rule consumer_turn.pop_failed [OF Popping, of t], simp_all add: fresh_main_def Popping)
  next
    fix v assume "ev = Popped v"
    with st show ?thesis
      by - (intro exI conjI, rule consumer_turn.popped_step [OF Popping, of v t], simp_all add: fresh_main_def Popping)
  qed
next
  case (Got q)
  obtain u where u: "consume config s q 0 0 13 = Some u" "consumer_phase u = Checking_Done"
    using consume_can [OF inv Got] by blast
  have "consumer (event_queue s) = C_Ready" using inv Got by (simp add: replay_inv_def consumer_inv_def)
  then have "fresh_main (length ps) s u" by (simp add: fresh_main_def fresh_consumer_def Got)
  moreover have "consumer_turn config s (Applied_Event (qe_event q)) (Some u)"
    using consumer_turn.apply_step [OF Got, of config 0 0 13] u(1) by simp
  ultimately show ?thesis using u(2) by fastforce
qed (use c in simp_all)

subsection \<open>The producer\<close>

context frame_source
begin

lemma read_event_nearer:
  assumes "producer_phase s = Reading" "read_event rd s t = Some u"
  shows "producer_work left u < producer_work left s"
proof -
  obtain status r where r: "next_frame rd (source s) = (status, r)" by (cases "next_frame rd (source s)")
  show ?thesis
  proof (cases status)
    case (Frame f)
    have "left (source s) = f @ left r" "2 \<le> length f" using next_frame_frame [OF r [unfolded Frame]] by simp_all
    with assms r Frame show ?thesis
      by (auto simp: read_event_def producer_work_def Let_def split: option.splits if_splits)
  qed (use assms r in \<open>auto simp: read_event_def producer_work_def Let_def\<close>)
qed

lemma producer_turn_nearer:
  assumes inv: "replay_inv left sound config F ps rs as s" and turn: "producer_turn rd s ev (Some u)"
    and going: "consumer_phase u \<noteq> Terminated"
  shows "producer_work left u < producer_work left s \<or>
    producer_phase u = producer_phase s \<and> source u = source s \<and> producer_done u = producer_done s \<and>
    pushes (queue_events [ev]) = [] \<and>
    (rs = ps \<longrightarrow> fresh_producer (length ps) (event_queue s) (event_queue u) \<longrightarrow>
      push_wait config ps u < push_wait config ps s)"
  using turn
proof cases
  case (read_step t)
  with read_event_nearer show ?thesis by metis
next
  case (push_step q ev' t)
  have "ring_inv (ring_capacity config) ps rs (event_queue s)" using inv by (simp add: replay_inv_def)
  with push_nearer [OF _ push_step(4) push_step(6)] push_step show ?thesis by (auto simp: push_wait_def)
qed (use going in \<open>simp_all add: producer_work_def\<close>)

lemma producer_turn_can:
  assumes inv: "replay_inv left sound config F ps rs as s" and p: "producer_phase s \<noteq> Producer_Returned"
    and going: "consumer_phase s \<noteq> Terminated"
  shows "\<exists>ev u. producer_turn rd s ev (Some u) \<and> fresh_producer (length rs) (event_queue s) (event_queue u) \<and>
    consumer_phase u \<noteq> Terminated"
proof (cases "producer_phase s")
  case Reading
  obtain u where u: "read_event rd s 0 = Some u" using read_event_inv [OF inv Reading] by blast
  have "producer (event_queue s) = P_Ready" using inv Reading by (simp add: replay_inv_def producer_inv_def Let_def)
  with read_event_frame [OF u] have "fresh_producer (length rs) (event_queue s) (event_queue u)"
    "consumer_phase u \<noteq> Terminated" using going by (simp_all add: fresh_producer_def)
  with producer_turn.read_step [OF Reading, of rd 0] u show ?thesis by fastforce
next
  case (Pushing q)
  have "ring_inv (ring_capacity config) ps rs (event_queue s)" "pushing q (producer (event_queue s))"
    using inv Pushing by (simp_all add: replay_inv_def producer_inv_def Let_def)
  from push_can [OF this] obtain ev t where st: "producer_step (event_queue s) ev (Some t)"
    "fresh_producer (length rs) (event_queue s) t"
    "ev = Pushed q \<or> (ev = Silent \<or> ev = Push_Failed) \<and> begins_push q t"
    by blast
  from st(3) show ?thesis
  proof
    assume "ev = Pushed q"
    with st going show ?thesis
      by - (intro exI conjI, rule producer_turn.pushed_step [OF Pushing, of q t], simp_all)
  next
    assume "(ev = Silent \<or> ev = Push_Failed) \<and> begins_push q t"
    with st(2) going show ?thesis
      by - (intro exI conjI, rule producer_turn.push_step [OF Pushing st(1)], simp_all)
  qed
next
  case Storing_Done
  have "producer (event_queue s) = P_Ready" using inv Storing_Done by (simp add: replay_inv_def producer_inv_def Let_def)
  with producer_turn.store_done [OF Storing_Done, of rd] going show ?thesis
    by - (intro exI conjI, assumption, simp_all add: fresh_producer_def)
qed (use p in simp)

subsection \<open>The end is reachable\<close>

lemma received_bound:
  assumes "replay_inv left sound config F ps rs as s" "replay_step rd config s ev (Some u)"
    "pushes (queue_events [ev]) = []"
  shows "length (rs @ pops (queue_events [ev])) \<le> length ps"
proof -
  obtain as' where "replay_inv left sound config F ps (rs @ pops (queue_events [ev])) as' u"
    using replay_step_inv [OF assms(1,2)] assms(3) by auto
  then show ?thesis using ring.received_le unfolding replay_inv_def by blast
qed

lemma replay_run_step:
  assumes "replay_step rd config s ev (Some u)" "replay_run rd config u evs t"
  shows "replay_run rd config s (ev # evs) t"
proof -
  have "replay_run rd config s [ev] u" using assms(1) unfolding replay_run_def by (rule event_run_one)
  with assms(2) have "replay_run rd config s ([ev] @ evs) t"
    unfolding replay_run_def by (elim event_run_trans)
  then show ?thesis by simp
qed

lemma left_finished:
  assumes "replay_inv left sound config F ps rs as s" "consumer_phase s = Loop_Left"
  shows "finished s"
  using assms by (auto simp: replay_inv_def finished_def consumer_inv_def producer_inv_def Let_def
      split: producer_phase.splits)

lemma replay_can_finish:
  assumes "replay_inv left sound config F ps rs as s" "consumer_phase s \<noteq> Terminated"
  shows "\<exists>evs t. replay_run rd config s evs t \<and> finished t"
  using assms
proof (induction "(ps, rs, s)" arbitrary: ps rs as s rule: wf_induct_rule [OF wf_measures [of
    "[\<lambda>(ps, rs, s). producer_work left s, \<lambda>(ps, rs, s). length ps - length rs,
      \<lambda>(ps, rs, s). consumer_distance ps rs s, \<lambda>(ps, rs, s). push_wait config ps s]"]])
  case 1
  note inv = 1(2)
  let ?nearer = "\<lambda>ev u. ((ps @ pushes (queue_events [ev]), rs @ pops (queue_events [ev]), u), (ps, rs, s)) \<in>
    measures [\<lambda>(ps, rs, s). producer_work left s, \<lambda>(ps, rs, s). length ps - length rs,
      \<lambda>(ps, rs, s). consumer_distance ps rs s, \<lambda>(ps, rs, s). push_wait config ps s]"
  have go: ?case if "replay_step rd config s ev (Some u)" "?nearer ev u" "consumer_phase u \<noteq> Terminated" for ev u
  proof -
    have "replay_inv left sound config F (ps @ pushes (queue_events [ev])) (rs @ pops (queue_events [ev]))
      (as @ applied_events [ev]) u" using replay_step_inv [OF inv that(1)] by simp
    from 1(1) [OF that(2) this that(3)] obtain evs t where "replay_run rd config u evs t" "finished t" by blast
    with replay_run_step [OF that(1)] show ?thesis by blast
  qed
  show ?case
  proof (cases "consumer_phase s = Loop_Left")
    case True
    from left_finished [OF inv True] show ?thesis unfolding replay_run_def by (blast intro: event_run.intros)
  next
    case False
    show ?thesis
    proof (cases "rs = ps \<and> producer_done s = None")
      case True
      then have "producer_phase s \<noteq> Producer_Returned"
        using inv by (auto simp: replay_inv_def producer_inv_def Let_def)
      from producer_turn_can [OF inv this 1(3)] obtain ev u where t: "producer_turn rd s ev (Some u)"
        "fresh_producer (length rs) (event_queue s) (event_queue u)" "consumer_phase u \<noteq> Terminated" by blast
      have "consumer_distance ps rs u = consumer_distance ps rs s"
        using producer_turn_frame [OF t(1)] t(3) by (intro consumer_distance_cong) auto
      with producer_turn_nearer [OF inv t(1,3)] producer_turn_frame(4) [OF t(1)] t(2) True producer_work_cong [of u s left]
      show ?thesis by (intro go [OF producer_moves [OF 1(3) t(1)] _ t(3)]) auto
    next
      case wait: False
      obtain ev u where t: "consumer_turn config s ev (Some u)" "fresh_main (length ps) s u"
        "consumer_phase u \<noteq> Terminated" using consumer_turn_can [OF inv 1(3) False] by blast
      note step = main_moves [OF 1(3) t(1)]
      note frame = consumer_turn_frame [OF t(1)]
      have work: "producer_work left u = producer_work left s" using producer_work_cong [OF frame(1,2)] .
      show ?thesis
      proof (cases "pops (queue_events [ev]) = []")
        case True
        with consumer_turn_nearer [OF inv t(1,2)] wait work frame(6) show ?thesis
          by (intro go [OF step _ t(3)]) auto
      next
        case False
        with received_bound [OF inv step frame(6)] have "length ps - length (rs @ pops (queue_events [ev])) < length ps - length rs"
          by (cases "pops (queue_events [ev])") auto
        with work frame(6) show ?thesis by (intro go [OF step _ t(3)]) auto
      qed
    qed
  qed
qed

end

end
