(* ===== verification/Replay_Report.thy ===== *)
theory Replay_Report
  imports Replay_Invariant
begin

section \<open>The report of the replay\<close>

text \<open>
  What the main thread prints after its loop is defined: the summaries of its histograms, and the
  snapshot, which finds the best levels of its book.
\<close>

lemma snapshot_defined:
  assumes "engine_holds (replay_engine s) M {}"
  shows "\<exists>sn. snapshot_of config s = Some sn"
proof -
  have "\<exists>bid ask. best_bid_depth b = Some bid \<and> best_ask_depth b = Some ask"
    if b: "find_book (replay_engine s) l = Some b" for l b
  proof -
    obtain m where m: "M l = Some m"
      using b find_book_None [OF engine_holdsD(1) [OF assms], of l] by (cases "M l") auto
    obtain b' where "find_book (replay_engine s) l = Some b'" "book_holds b' m"
      using find_book_Some [OF engine_holdsD(1) [OF assms] m] .
    then have "book_holds b m" using b by simp
    from best_bid_correct [OF this] best_ask_correct [OF this] show ?thesis
      by (simp add: best_bid_depth_def best_ask_depth_def)
  qed
  then show ?thesis by (fastforce simp: snapshot_of_def split: option.splits)
qed

lemma report_defined:
  assumes "work_inv config as s" "consumer_phase s \<noteq> Terminated" "53 \<le> prec"
  shows "\<exists>f. report_of prec config s = Some f \<and> fr_decoded f = decoded_messages s \<and>
    fr_applied f = of_nat (length as)"
proof -
  have ok: "latency_ok (latency s)" "histogram_ok (end_to_end s)"
    "engine_holds (replay_engine s) (fed (engine_limits_of config) (\<lambda>_. None) as) {}"
    "st_messages (stats (replay_engine s)) = of_nat (length as)"
    using assms(1,2) by (simp_all add: work_inv_def)
  obtain sn where "snapshot_of config s = Some sn" using snapshot_defined [OF ok(3)] by blast
  moreover obtain a c e r t where "summary prec (lat_add (latency s)) = Some a"
    "summary prec (lat_cancel (latency s)) = Some c" "summary prec (lat_execution (latency s)) = Some e"
    "summary prec (lat_replace (latency s)) = Some r" "summary prec (end_to_end s) = Some t"
    using summary_defined [OF _ assms(3)] ok(1,2) unfolding latency_ok_def by metis
  ultimately show ?thesis using ok(4) by (simp add: report_of_def print_summary_def Let_def)
qed

text \<open>How the program concludes: with the error it found in the input, or with its counts.\<close>

lemma conclude_defined:
  assumes "work_inv config as s" "consumer_phase s \<noteq> Terminated" "53 \<le> prec" "length as < 2 ^ 64"
    "decoded_messages s = of_nat (length as)"
  shows "\<exists>out log. conclude prec throughput config s = Some (out, log,
      if failure s \<noteq> None \<or> fail_on_reject config \<and> st_rejected (stats (replay_engine s)) \<noteq> 0 then 1 else 0) \<and>
    (case failure s of
       Some err \<Rightarrow> out = [] \<and> (\<exists>reported. log = reported @ ''decode error: '' @ err @ new_line)
     | None \<Rightarrow> \<exists>rest. out = ''decoded='' @ decimal (length as) @ '' applied='' @ decimal (length as) @
         '' instruments='' @ rest)"
proof (cases "producer_failed s")
  case True
  then show ?thesis by (auto simp: conclude_def failure_def Let_def)
next
  case False
  obtain f where f: "report_of prec config s = Some f" "fr_decoded f = of_nat (length as)"
    "fr_applied f = of_nat (length as)"
    using report_defined [OF assms(1-3)] assms(5) by auto
  obtain found missing where "snapshot_text config (fr_snapshot f) = (found, missing)" by fastforce
  with f False show ?thesis
    using shown_of_nat [OF assms(4)] by (simp add: conclude_def counts_line_def failure_def Let_def)
qed

end
