(* ===== verification/Replay_Options.thy ===== *)
theory Replay_Options
  imports Replay_Config Ring_Properties
begin

section \<open>The language of the command line\<close>

text \<open>
  The command lines the replay accepts, as a grammar: the settings, how each is spelled, and the
  configuration a list of settings stands for. The lemmas show that the parser of
  \<^verbatim>\<open>app/itch_replay.cpp\<close> accepts exactly this language with this meaning.
\<close>

subsection \<open>Settings and their spelling\<close>

datatype setting =
    Ring_Capacity nat
  | Max_Instruments nat
  | Max_Resting_Orders nat
  | Checkpoint_Every nat
  | Snapshot_Locate nat
  | Fail_On_Reject

text \<open>
  A text reads as a number: white space, at most one sign, digits of a number below \<open>2 ^ 64\<close>, and
  anything that does not start with a digit. A minus sign stands for the negation modulo \<open>2 ^ 64\<close>.
\<close>

definition reads_as :: "string \<Rightarrow> nat \<Rightarrow> bool" where
  "reads_as cs n \<longleftrightarrow> (\<exists>spaces sign ds rest. cs = spaces @ sign @ ds @ rest \<and>
     list_all is_space spaces \<and> sign \<in> {[], ''+'', ''-''} \<and> ds \<noteq> [] \<and> list_all is_digit ds \<and>
     (rest = [] \<or> \<not> is_digit (hd rest)) \<and> number_of ds < 2 ^ 64 \<and>
     n = (if sign = ''-'' then (2 ^ 64 - number_of ds) mod 2 ^ 64 else number_of ds))"

fun spells :: "setting \<Rightarrow> string list \<Rightarrow> bool" where
  "spells (Ring_Capacity n) ws \<longleftrightarrow> (\<exists>v. ws = [''--ring-capacity'', v] \<and> reads_as v n \<and> (\<exists>k. n = 2 ^ k))"
| "spells (Max_Instruments n) ws \<longleftrightarrow> (\<exists>v. ws = [''--max-instruments'', v] \<and> reads_as v n \<and> 0 < n)"
| "spells (Max_Resting_Orders n) ws \<longleftrightarrow> (\<exists>v. ws = [''--max-resting-orders'', v] \<and> reads_as v n \<and> 0 < n)"
| "spells (Checkpoint_Every n) ws \<longleftrightarrow> (\<exists>v. ws = [''--checkpoint-every'', v] \<and> reads_as v n \<and> 0 < n)"
| "spells (Snapshot_Locate n) ws \<longleftrightarrow>
     (\<exists>v. ws = [''--snapshot-locate'', v] \<and> reads_as v n \<and> 0 < n \<and> n \<le> 65535)"
| "spells Fail_On_Reject ws \<longleftrightarrow> ws = [''--fail-on-reject'']"

text \<open>The program's name, the path of the input, and the settings.\<close>

definition command_line :: "string list \<Rightarrow> string \<Rightarrow> setting list \<Rightarrow> bool" where
  "command_line argv path ss \<longleftrightarrow>
     (\<exists>program groups. argv = program # path # concat groups \<and> list_all2 spells ss groups)"

text \<open>Of each kind of setting the last one counts; without one, the default.\<close>

definition configured :: "string \<Rightarrow> setting list \<Rightarrow> replay_config" where
  "configured path ss =
     \<lparr>input_path = path,
      ring_capacity = of_nat (last (65536 # [n. Ring_Capacity n \<leftarrow> ss])),
      engine_limits_of =
        \<lparr>max_instruments = of_nat (last ((2 ^ 64 - 1) # [n. Max_Instruments n \<leftarrow> ss])),
         max_resting_orders = of_nat (last ((2 ^ 64 - 1) # [n. Max_Resting_Orders n \<leftarrow> ss]))\<rparr>,
      checkpoint_every = of_nat (last (0 # [n. Checkpoint_Every n \<leftarrow> ss])),
      snapshot_locate =
        (let ls = [n. Snapshot_Locate n \<leftarrow> ss] in if ls = [] then None else Some (of_nat (last ls))),
      fail_on_reject = (Fail_On_Reject \<in> set ss)\<rparr>"

subsection \<open>Numbers\<close>

lemma minus_of_nat: "m < 2 ^ 64 \<Longrightarrow> - of_nat m = (of_nat ((2 ^ 64 - m) mod 2 ^ 64) :: u64)"
proof -
  assume m: "m < 2 ^ 64"
  have "(of_nat ((2 ^ 64 - m) mod 2 ^ 64) :: u64) = of_nat (2 ^ 64 - m)"
    by (rule unsigned_word_eqI [where 'a = nat]) (simp add: unsigned_of_nat take_bit_eq_mod)
  also have "\<dots> = of_nat (2 ^ 64) - of_nat m" using m by (intro of_nat_diff) simp
  also have "(of_nat (2 ^ 64) :: u64) = 0" by simp
  finally show ?thesis by simp
qed

lemma skip_spaces: "list_all is_space spaces \<Longrightarrow> stoull (spaces @ cs) = stoull cs"
  by (simp add: stoull_def dropWhile_append list_all_iff dropWhile_eq_Nil_conv)

lemma stoull_plus:
  assumes "ds \<noteq> []" "list_all is_digit ds" "rest = [] \<or> \<not> is_digit (hd rest)"
  shows "stoull (CHR ''+'' # ds @ rest) = stoull (ds @ rest)"
proof -
  obtain d ds' where d: "ds = d # ds'" using assms(1) by (cases ds) auto
  have "\<not> is_space (CHR ''+'')" by (simp add: is_space_def char_code_def)
  moreover have "\<not> is_space d" "d \<noteq> CHR ''-''" "d \<noteq> CHR ''+''"
    using assms(2) not_space_nor_sign [of d] by (simp_all add: d)
  ultimately show ?thesis by (simp add: stoull_def split_sign_def d)
qed

lemma reads_as_stoull:
  assumes "reads_as cs n"
  shows "stoull cs = Inr (of_nat n)" "n < 2 ^ 64"
proof -
  obtain spaces sign ds rest where w: "cs = spaces @ sign @ ds @ rest" "list_all is_space spaces"
    "sign \<in> {[], ''+'', ''-''}" "ds \<noteq> []" "list_all is_digit ds" "rest = [] \<or> \<not> is_digit (hd rest)"
    "number_of ds < 2 ^ 64"
    "n = (if sign = ''-'' then (2 ^ 64 - number_of ds) mod 2 ^ 64 else number_of ds)"
    using assms by (auto simp: reads_as_def)
  note d = stoull_digits [OF w(4-6)] stoull_plus [OF w(4-6)]
  show "stoull cs = Inr (of_nat n)"
    using w(3,7,8) d minus_of_nat [OF w(7)] unfolding w(1) skip_spaces [OF w(2)] by (auto simp: not_le)
  show "n < 2 ^ 64" using w(7,8) by (simp split: if_splits)
qed

lemma stoull_reads_as:
  assumes "stoull cs = Inr v"
  shows "reads_as cs (unat v)"
proof -
  obtain negative tail where t: "split_sign (dropWhile is_space cs) = (negative, tail)" by fastforce
  let ?ds = "takeWhile is_digit tail"
  have ds: "?ds \<noteq> []" "number_of ?ds < 2 ^ 64"
    "v = (if negative then - of_nat (number_of ?ds) else of_nat (number_of ?ds))"
    using assms by (auto simp: stoull_def t Let_def split: if_splits)
  obtain sign where sign: "dropWhile is_space cs = sign @ tail" "sign \<in> {[], ''+'', ''-''}"
    "negative \<longleftrightarrow> sign = ''-''"
    using t by (cases "dropWhile is_space cs") (auto simp: split_sign_def split: if_splits)
  have "cs = takeWhile is_space cs @ sign @ ?ds @ dropWhile is_digit tail"
    by (simp flip: sign(1))
  moreover have "list_all is_space (takeWhile is_space cs)" "list_all is_digit ?ds"
    by (auto simp: list_all_iff dest: set_takeWhileD)
  moreover have "dropWhile is_digit tail = [] \<or> \<not> is_digit (hd (dropWhile is_digit tail))"
    using hd_dropWhile by blast
  moreover have "unat v = (if sign = ''-'' then (2 ^ 64 - number_of ?ds) mod 2 ^ 64 else number_of ?ds)"
    using ds(2,3) sign(3) minus_of_nat [OF ds(2)] by (simp add: unsigned_of_nat take_bit_nat_eq_self)
  ultimately show ?thesis using sign(2) ds(1,2) unfolding reads_as_def by blast
qed

lemma valid_capacity_of_nat:
  assumes n: "n < 2 ^ 64"
  shows "valid_capacity (of_nat n) \<longleftrightarrow> (\<exists>k. n = 2 ^ k)"
proof -
  have "valid_capacity (of_nat n) \<longleftrightarrow> (\<exists>k<64. unat (of_nat n :: size_t) = unat (2 ^ k :: size_t))"
    by (simp add: valid_capacity_iff word_unat_eq_iff)
  also have "\<dots> \<longleftrightarrow> (\<exists>k<64. n = 2 ^ k)"
  proof -
    have "unat (2 ^ k :: size_t) = 2 ^ k" if "k < 64" for k
    proof -
      have "(2::nat) ^ k < 2 ^ 64" using that by (intro power_strict_increasing) simp_all
      then have "unat (of_nat (2 ^ k) :: size_t) = 2 ^ k" using that
        by (simp add: unsigned_of_nat take_bit_nat_eq_self del: of_nat_power)
      then show ?thesis by simp
    qed
    with n show ?thesis by (auto simp: unsigned_of_nat take_bit_nat_eq_self)
  qed
  also have "\<dots> \<longleftrightarrow> (\<exists>k. n = 2 ^ k)"
  proof -
    have "k < 64" if "n = 2 ^ k" for k
    proof (rule ccontr)
      assume "\<not> k < 64"
      then have "(2::nat) ^ 64 \<le> 2 ^ k" by (intro power_increasing) simp_all
      with n that show False by simp
    qed
    then show ?thesis by blast
  qed
  finally show ?thesis .
qed

text \<open>The two parsers of values.\<close>

lemma parse_positive_size_iff: "parse_positive_size cs = Some v \<longleftrightarrow> reads_as cs (unat v) \<and> 0 < unat v"
proof -
  have "stoull cs = Inr v \<longleftrightarrow> reads_as cs (unat v)"
    using reads_as_stoull(1) [of cs "unat v"] stoull_reads_as [of cs v] by auto
  moreover have "parse_positive_size cs = Some v \<longleftrightarrow> stoull cs = Inr v \<and> v \<noteq> 0"
    using word_order.extremum [of v] by (auto simp: parse_positive_size_def not_less split: sum.splits)
  ultimately show ?thesis by (simp add: unat_gt_0)
qed

lemma parse_capacity_iff:
  assumes "v \<noteq> 0"
  shows "parse_capacity cs = v \<longleftrightarrow> reads_as cs (unat v) \<and> (\<exists>k. unat v = 2 ^ k)"
proof -
  have "stoull cs = Inr v \<longleftrightarrow> reads_as cs (unat v)"
    using reads_as_stoull(1) [of cs "unat v"] stoull_reads_as [of cs v] by auto
  moreover have "parse_capacity cs = v \<longleftrightarrow> stoull cs = Inr v \<and> valid_capacity v"
    using assms by (auto simp: parse_capacity_def valid_capacity_def split: sum.splits)
  moreover have "valid_capacity v \<longleftrightarrow> (\<exists>k. unat v = 2 ^ k)"
    using valid_capacity_of_nat [of "unat v"] unsigned_less [of v, where 'a = nat] by simp
  ultimately show ?thesis by blast
qed

subsection \<open>The parser\<close>

fun apply_setting :: "setting \<Rightarrow> replay_config \<Rightarrow> replay_config" where
  "apply_setting (Ring_Capacity n) c = c\<lparr>ring_capacity := of_nat n\<rparr>"
| "apply_setting (Max_Instruments n) c =
     c\<lparr>engine_limits_of := (engine_limits_of c)\<lparr>max_instruments := of_nat n\<rparr>\<rparr>"
| "apply_setting (Max_Resting_Orders n) c =
     c\<lparr>engine_limits_of := (engine_limits_of c)\<lparr>max_resting_orders := of_nat n\<rparr>\<rparr>"
| "apply_setting (Checkpoint_Every n) c = c\<lparr>checkpoint_every := of_nat n\<rparr>"
| "apply_setting (Snapshot_Locate n) c = c\<lparr>snapshot_locate := Some (of_nat n)\<rparr>"
| "apply_setting Fail_On_Reject c = c\<lparr>fail_on_reject := True\<rparr>"

lemma locate_limit: "unat (ucast (- 1 :: stock_locate) :: size_t) = 65535"
  by (simp add: unsigned_ucast_eq unsigned_minus_1_eq_mask mask_eq_exp_minus_1)

lemma read_word:
  assumes "reads_as cs n"
  shows "unat (of_nat n :: u64) = n"
  using reads_as_stoull(2) [OF assms] by (simp add: unsigned_of_nat take_bit_nat_eq_self)

text \<open>A spelled setting is taken off the front of the arguments.\<close>

lemma spelled_setting:
  assumes "spells s ws"
  shows "parse_options (ws @ args) c = parse_options args (apply_setting s c)"
proof -
  have size: "parse_positive_size v = Some (of_nat n)" if "reads_as v n" "0 < n" for v n
    using that parse_positive_size_iff [of v "of_nat n"] read_word [OF that(1)] by simp
  have cap: "parse_capacity v = of_nat n \<and> (of_nat n :: size_t) \<noteq> 0" if "reads_as v n" "n = 2 ^ k" for v n k
  proof -
    have "unat (of_nat n :: size_t) \<noteq> 0" using that(2) read_word [OF that(1)] by simp
    then have "(of_nat n :: size_t) \<noteq> 0" by (metis unsigned_0)
    with parse_capacity_iff [OF this, of v] read_word [OF that(1)] that show ?thesis by auto
  qed
  have "\<not> (of_nat n :: size_t) > ucast (- 1 :: stock_locate)" "ucast (of_nat n :: size_t) = (of_nat n :: stock_locate)"
    if "n \<le> 65535" for n
    using that locate_limit
    by (simp_all add: word_less_nat_alt unsigned_of_nat take_bit_nat_eq_self not_less)
  with assms size cap show ?thesis
    by (cases s) (auto simp: apply_option_def Let_def)
qed

lemma spelled_settings:
  "list_all2 spells ss groups \<Longrightarrow> parse_options (concat groups) c = Some (fold apply_setting ss c)"
  by (induction arbitrary: c rule: list_all2_induct) (simp_all add: spelled_setting)

text \<open>And an option the parser takes is a spelled setting.\<close>

lemma option_spelled:
  assumes "apply_option opt val c = Some c'"
  obtains s where "spells s [opt, val]" "c' = apply_setting s c"
proof -
  have size: "reads_as val (unat v) \<and> 0 < unat v" if "parse_positive_size val = Some v" for v
    using that parse_positive_size_iff by blast
  consider (ring) "opt = ''--ring-capacity''" "parse_capacity val \<noteq> 0"
      "c' = c\<lparr>ring_capacity := parse_capacity val\<rparr>"
    | (instruments) v where "opt = ''--max-instruments''" "parse_positive_size val = Some v"
      "c' = c\<lparr>engine_limits_of := (engine_limits_of c)\<lparr>max_instruments := v\<rparr>\<rparr>"
    | (orders) v where "opt = ''--max-resting-orders''" "parse_positive_size val = Some v"
      "c' = c\<lparr>engine_limits_of := (engine_limits_of c)\<lparr>max_resting_orders := v\<rparr>\<rparr>"
    | (checkpoint) v where "opt = ''--checkpoint-every''" "parse_positive_size val = Some v"
      "c' = c\<lparr>checkpoint_every := v\<rparr>"
    | (snapshot) v where "opt = ''--snapshot-locate''" "parse_positive_size val = Some v"
      "\<not> v > ucast (- 1 :: stock_locate)" "c' = c\<lparr>snapshot_locate := Some (ucast v)\<rparr>"
    using assms by (auto simp: apply_option_def Let_def split: if_splits option.splits)
  then show thesis
  proof cases
    case ring
    with parse_capacity_iff [OF ring(2), of val] show thesis
      by (intro that [of "Ring_Capacity (unat (parse_capacity val))"]) auto
  next
    case instruments
    with size show thesis by (intro that [of "Max_Instruments (unat v)"]) auto
  next
    case orders
    with size show thesis by (intro that [of "Max_Resting_Orders (unat v)"]) auto
  next
    case checkpoint
    with size show thesis by (intro that [of "Checkpoint_Every (unat v)"]) auto
  next
    case snapshot
    then have "unat v \<le> 65535" using locate_limit by (simp add: word_less_nat_alt not_less)
    moreover have "ucast v = (of_nat (unat v) :: stock_locate)" by (simp add: unsigned_word_eqI)
    ultimately show thesis using snapshot size by (intro that [of "Snapshot_Locate (unat v)"]) auto
  qed
qed

lemma parsed_settings:
  assumes "parse_options args c = Some c'"
  obtains ss groups where "args = concat groups" "list_all2 spells ss groups" "c' = fold apply_setting ss c"
proof -
  have "\<exists>ss groups. args = concat groups \<and> list_all2 spells ss groups \<and> c' = fold apply_setting ss c"
    using assms
  proof (induction args c rule: parse_options.induct)
    case (1 c)
    then show ?case by (intro exI [of _ "[]"]) simp
  next
    case (2 opt args c)
    show ?case
    proof (cases "opt = ''--fail-on-reject''")
      case True
      then obtain ss groups where "args = concat groups" "list_all2 spells ss groups"
        "c' = fold apply_setting ss (c\<lparr>fail_on_reject := True\<rparr>)" using 2 by auto
      with True show ?thesis by (intro exI [of _ "Fail_On_Reject # ss"] exI [of _ "[opt] # groups"]) simp
    next
      case False
      with 2(3) obtain val args' c1 where args: "args = val # args'" "apply_option opt val c = Some c1"
        "parse_options args' c1 = Some c'"
        by (auto split: list.splits option.splits)
      with 2(2) [OF False args(1,2)] obtain ss groups where "args' = concat groups"
        "list_all2 spells ss groups" "c' = fold apply_setting ss c1" by blast
      moreover obtain s where "spells s [opt, val]" "c1 = apply_setting s c"
        by (rule option_spelled [OF args(2)])
      ultimately show ?thesis using args(1)
        by (intro exI [of _ "s # ss"] exI [of _ "[opt, val] # groups"]) simp
    qed
  qed
  with that show thesis by blast
qed

text \<open>The settings taken one after the other leave the last of each kind.\<close>

lemma fold_settings: "fold apply_setting ss (default_config\<lparr>input_path := path\<rparr>) = configured path ss"
proof (induction ss rule: rev_induct)
  case Nil
  show ?case by (simp add: default_config_def configured_def)
next
  case (snoc s ss)
  then show ?case by (cases s) (simp_all add: configured_def Let_def)
qed

lemma parse_arguments_iff:
  "parse_arguments argv = Some config \<longleftrightarrow> (\<exists>path ss. command_line argv path ss \<and> config = configured path ss)"
proof
  assume p: "parse_arguments argv = Some config"
  then obtain program path args where argv: "argv = program # path # args"
    "parse_options args (default_config\<lparr>input_path := path\<rparr>) = Some config"
    by (auto simp: parse_arguments_def split: list.splits)
  obtain ss groups where "args = concat groups" "list_all2 spells ss groups"
    "config = fold apply_setting ss (default_config\<lparr>input_path := path\<rparr>)"
    by (rule parsed_settings [OF argv(2)])
  with argv(1) show "\<exists>path ss. command_line argv path ss \<and> config = configured path ss"
    unfolding command_line_def fold_settings by blast
next
  assume "\<exists>path ss. command_line argv path ss \<and> config = configured path ss"
  then show "parse_arguments argv = Some config"
    by (auto simp: command_line_def parse_arguments_def spelled_settings fold_settings)
qed

end
