(* ===== verification/Replay_Properties.thy ===== *)
theory Replay_Properties
  imports Replay_Progress Replay_Report Replay_Options
begin

section \<open>What the replay promises\<close>

text \<open>
  The properties of the application over every interleaving of its two threads, every staleness of
  their loads and every way the input is cut into reads: what the command line can configure, which
  events are applied and in which order, the books at the end, and that the end can be reached.
\<close>

subsection \<open>The command line\<close>

text \<open>A file that has been opened.\<close>

definition opened :: "u8 list \<Rightarrow> plain_stream" where
  "opened bs = \<lparr>pending = bs, broken = False, eof_bit = False, fail_bit = False, bad_bit = False\<rparr>"

lemma started_replay:
  assumes "start_replay have_zlib open_plain open_gzip memory threads argv = Replays config s"
  shows "parse_arguments argv = Some config \<and>
    (\<exists>q input. new_ring memory (ring_capacity config) = Inr q \<and>
      open_reader have_zlib open_plain open_gzip (input_path config) = Inr input \<and> s = new_replay config q input)"
  using assms by (auto simp: start_replay_def split: option.splits sum.splits if_splits)

lemma gzip_suffix_iff: "has_gzip_suffix path \<longleftrightarrow> (\<exists>stem. path = stem @ ''.gz'')"
proof
  assume "has_gzip_suffix path"
  then have "path = take (length path - 3) path @ ''.gz''"
    by (metis append_take_drop_id has_gzip_suffix_def)
  then show "\<exists>stem. path = stem @ ''.gz''" ..
qed (auto simp: has_gzip_suffix_def)

lemma open_reader_fails:
  "open_reader have_zlib open_plain open_gzip path = Inl err \<longleftrightarrow>
     (if \<exists>stem. path = stem @ ''.gz''
      then \<not> have_zlib \<and>
          err = ''gzip support was not enabled; decompress the ITCH sample before replaying it'' \<or>
        have_zlib \<and> open_gzip path = None \<and> err = ''cannot open gzip input file''
      else open_plain path = None \<and> err = ''cannot open input file'')"
  unfolding gzip_suffix_iff [symmetric] by (auto simp: open_reader_def split: option.splits)

lemma open_reader_opens:
  "open_reader have_zlib open_plain open_gzip path = Inr input \<longleftrightarrow>
     (if \<exists>stem. path = stem @ ''.gz''
      then have_zlib \<and> (\<exists>z. open_gzip path = Some z \<and> input = Gzip_Input z)
      else \<exists>file. open_plain path = Some file \<and> input = Plain_Input file)"
  unfolding gzip_suffix_iff [symmetric] by (auto simp: open_reader_def split: option.splits)

text \<open>A command line of the language has one path, and one configuration.\<close>

lemma command_line_cases:
  assumes "parse_arguments argv = Some config"
  shows "(\<exists>path ss. command_line argv path ss \<and> P path (configured path ss)) \<longleftrightarrow> P (input_path config) config"
proof -
  have path: "input_path (configured path ss) = path" for path ss by (simp add: configured_def)
  have "config = configured path ss" if "command_line argv path ss" for path ss
    using that assms parse_arguments_iff [of argv "configured path ss"] by (metis option.inject)
  with assms path show ?thesis using parse_arguments_iff [of argv config] by metis
qed

text \<open>
  C39: the program exits with 2 and its usage exactly when the command line is not a program name, a
  path and settings of the language: an unknown option, an option without its value, a value that does
  not read as a number of the option's range. It exits with 1 and the reason exactly when the command
  line is one and the input cannot be opened, by zlib when the path ends in \<^verbatim>\<open>.gz\<close> and
  plainly otherwise. Else it replays, when there is memory for the ring and a thread, with the last
  setting of each kind or its default: a capacity that is a power of two, which the ring never refuses,
  limits and a snapshot locate that are not zero, an empty ring and the input opened.
\<close>

theorem accepted_command_line:
  "(start_replay have_zlib open_plain open_gzip memory threads argv = Exits usage_line 2 \<longleftrightarrow>
      \<not> (\<exists>path ss. command_line argv path ss)) \<and>
   (\<forall>line. start_replay have_zlib open_plain open_gzip memory threads argv = Exits line 1 \<longleftrightarrow>
      (\<exists>path ss err. command_line argv path ss \<and> line = ''input error: '' @ err @ new_line \<and>
        (if \<exists>stem. path = stem @ ''.gz''
         then \<not> have_zlib \<and>
             err = ''gzip support was not enabled; decompress the ITCH sample before replaying it'' \<or>
           have_zlib \<and> open_gzip path = None \<and> err = ''cannot open gzip input file''
         else open_plain path = None \<and> err = ''cannot open input file''))) \<and>
   start_replay have_zlib open_plain open_gzip memory threads argv \<noteq> Ring_Threw Invalid_Argument \<and>
   (\<forall>config s. start_replay have_zlib open_plain open_gzip memory threads argv = Replays config s \<longleftrightarrow>
      (\<exists>path ss q input. command_line argv path ss \<and> config = configured path ss \<and> threads \<and>
        new_ring memory (ring_capacity config) = Inr q \<and> s = new_replay config q input \<and>
        (if \<exists>stem. path = stem @ ''.gz''
         then have_zlib \<and> (\<exists>z. open_gzip path = Some z \<and> input = Gzip_Input z)
         else \<exists>file. open_plain path = Some file \<and> input = Plain_Input file))) \<and>
   (\<forall>config s. start_replay have_zlib open_plain open_gzip memory threads argv = Replays config s \<longrightarrow>
      parse_arguments argv = Some config \<and> (\<exists>k<64. ring_capacity config = 2 ^ k) \<and>
      0 < max_instruments (engine_limits_of config) \<and> 0 < max_resting_orders (engine_limits_of config) \<and>
      snapshot_locate config \<noteq> Some 0)"
proof (cases "parse_arguments argv")
  case (Some config)
  have ok: "config_ok config"
    using Some parse_options_ok default_config_ok by (auto simp: parse_arguments_def split: list.splits)
  let ?path = "input_path config"
  have ring: "(new_ring memory (ring_capacity config) :: ring_error + queued_event ring) \<noteq> Inl Invalid_Argument"
    using new_ring_capacity(2) [of memory "ring_capacity config"] ok
    by (auto simp: config_ok_def valid_capacity_iff)
  note start = start_replay_def [of have_zlib open_plain open_gzip memory threads argv, unfolded Some option.case]
  have some: "\<exists>path ss. command_line argv path ss" using Some parse_arguments_iff by blast
  have fails: "(\<exists>path ss err. command_line argv path ss \<and> line = ''input error: '' @ err @ new_line \<and>
        open_reader have_zlib open_plain open_gzip path = Inl err) \<longleftrightarrow>
      (\<exists>err. line = ''input error: '' @ err @ new_line \<and> open_reader have_zlib open_plain open_gzip ?path = Inl err)"
    for line
    using command_line_cases [OF Some, of "\<lambda>path _. \<exists>err. line = ''input error: '' @ err @ new_line \<and>
        open_reader have_zlib open_plain open_gzip path = Inl err"] by blast
  have replays: "(\<exists>path ss q input. command_line argv path ss \<and> c = configured path ss \<and> threads \<and>
        new_ring memory (ring_capacity c) = Inr q \<and> s = new_replay c q input \<and>
        open_reader have_zlib open_plain open_gzip path = Inr input) \<longleftrightarrow>
      c = config \<and> threads \<and> (\<exists>q input. new_ring memory (ring_capacity config) = Inr q \<and>
        s = new_replay config q input \<and> open_reader have_zlib open_plain open_gzip ?path = Inr input)"
    for c s
    using command_line_cases [OF Some, of "\<lambda>path d. c = d \<and> threads \<and> (\<exists>q input.
        new_ring memory (ring_capacity c) = Inr q \<and> s = new_replay c q input \<and>
        open_reader have_zlib open_plain open_gzip path = Inr input)"] by blast
  show ?thesis
    unfolding open_reader_fails [symmetric] open_reader_opens [symmetric] fails replays
    using some ok ring Some
    by (auto simp: start config_ok_def valid_capacity_iff split: sum.splits)
next
  case None
  then have "\<not> command_line argv path ss" for path ss using parse_arguments_iff [of argv] by (metis option.distinct(1))
  with None show ?thesis by (simp add: start_replay_def)
qed

lemma accepted_command_line_witness:
  "\<exists>config s. start_replay False (\<lambda>_. Some (opened [])) (\<lambda>_. None) True True
       [''itch_replay'', ''day.itch'', ''--ring-capacity'', ''64''] = Replays config s \<and>
     ring_capacity config = 64 \<and> (\<exists>k<64. ring_capacity config = 2 ^ k) \<and>
     source s = (Plain_Input (opened []) :: unit input_source)"
proof -
  let ?argv = "[''itch_replay'', ''day.itch'', ''--ring-capacity'', ''64'']"
  let ?config = "default_config\<lparr>input_path := ''day.itch'', ring_capacity := 64\<rparr>"
  have "parse_capacity ''64'' = 64"
    by (simp add: parse_capacity_def stoull_def split_sign_def is_space_def is_digit_def char_code_def
        digit_value_def number_of_def)
  then have p: "parse_arguments ?argv = Some ?config"
    by (simp add: parse_arguments_def apply_option_def Let_def)
  have "64 = (2 :: size_t) ^ 6" by simp
  then obtain q :: "queued_event ring" where "new_ring True 64 = Inr q"
    using new_ring_capacity(1) [of True 64] by (metis numeral_less_iff semiring_norm(76,78,81))
  with p have s: "start_replay False (\<lambda>_. Some (opened [])) (\<lambda>_. None :: unit option) True True ?argv =
      Replays ?config (new_replay ?config q (Plain_Input (opened [])))"
    by (simp add: start_replay_def open_reader_def has_gzip_suffix_def)
  from accepted_command_line [THEN conjunct2, THEN conjunct2, THEN conjunct2, THEN conjunct2, rule_format, OF s]
  have "\<exists>k<64. ring_capacity ?config = 2 ^ k" by simp
  moreover have "ring_capacity ?config = 64" by simp
  ultimately show ?thesis using s
    by (intro exI [of _ ?config] exI [of _ "new_replay ?config q (Plain_Input (opened []))"]) (simp add: new_replay_def)
qed

text \<open>
  C40: numbers are read back from their decimal digits, up to the first character that is no digit,
  and refused from \<open>2 ^ 64\<close> on. A capacity must be a power of two. A minus sign is not refused: it
  gives the number's negation modulo \<open>2 ^ 64\<close>.
\<close>

theorem option_numbers:
  assumes "0 < n" "rest = [] \<or> \<not> is_digit (hd rest)"
  shows "parse_positive_size (decimal n @ rest) = (if n < 2 ^ 64 then Some (of_nat n) else None) \<and>
    parse_capacity (decimal n @ rest) = (if n < 2 ^ 64 \<and> (\<exists>k. n = 2 ^ k) then of_nat n else 0) \<and>
    parse_positive_size (CHR ''-'' # decimal n @ rest) = (if n < 2 ^ 64 then Some (- of_nat n) else None)"
proof -
  have d: "decimal n \<noteq> []" "list_all is_digit (decimal n)" "number_of (decimal n) = n"
    using decimal_digits [of n] by simp_all
  note s = stoull_digits [OF d(1,2) assms(2), unfolded d(3)]
  have nz: "(of_nat n :: size_t) \<noteq> 0" if "n < 2 ^ 64"
  proof
    assume "(of_nat n :: size_t) = 0"
    then have "unat (of_nat n :: size_t) = 0" by simp
    with assms(1) that show False by (simp add: unsigned_of_nat take_bit_nat_eq_self)
  qed
  show ?thesis
    using s nz valid_capacity_of_nat [of n] by (auto simp: parse_positive_size_def parse_capacity_def valid_capacity_def not_less)
qed

lemma option_numbers_witness:
  "parse_positive_size (decimal 10 @ ''x'') = Some 10 \<and> parse_capacity (decimal 10 @ ''x'') = 0 \<and>
   parse_positive_size (CHR ''-'' # decimal 10 @ ''x'') = Some (- 10)"
proof -
  have "10 \<noteq> (2::nat) ^ k" for k
  proof (cases "k \<le> 3")
    case True
    then have "(2::nat) ^ k \<le> 2 ^ 3" by (intro power_increasing) simp_all
    then show ?thesis by simp
  next
    case False
    then have "(2::nat) ^ 4 \<le> 2 ^ k" by (intro power_increasing) simp_all
    then show ?thesis by simp
  qed
  with option_numbers [of 10 "''x''"] show ?thesis by (simp add: is_digit_def char_code_def)
qed

subsection \<open>The events applied\<close>

lemma replay_reachable:
  assumes "frame_source rd left sound" "sound r" "new_ring memory (ring_capacity config) = Inr q"
    "replay_run rd config (new_replay config q r) evs t"
  shows "replay_inv left sound config (feed (left r)) (pushes (queue_events evs)) (pops (queue_events evs))
    (applied_events evs) t"
  using frame_source.replay_run_inv [OF assms(1,4) new_replay_inv] assms(2,3) by blast

lemma finished_applied:
  assumes "replay_inv left sound config F ps rs as t" "finished t"
  shows "F = (as, failure t)" "length ps = length as" "consumer_phase t \<noteq> Terminated"
  using assms by (auto simp: replay_inv_def finished_def producer_inv_def consumer_inv_def Let_def)

text \<open>A file of one message, opened and replayed to its end.\<close>

definition one_add :: itch_event where
  "one_add = AddOrder \<lparr>ao_header = \<lparr>mh_stock_locate = 7, mh_tracking_number = 0, mh_timestamp = 1\<rparr>,
     ao_order_reference = 1, ao_side = Buy, ao_shares = 5, ao_stock = replicate 8 32, ao_price = 100\<rparr>"

lemma one_add_fits: "list_all event_fits [one_add]"
  by (simp add: one_add_def header_fits_def)

lemma opened_simps [simp]: "plain_sound (opened bs)" "pending (opened bs) = bs"
  by (simp_all add: opened_def plain_sound_def)

lemma default_ring: obtains q :: "queued_event ring" where "new_ring True (ring_capacity default_config) = Inr q"
  using new_ring_capacity(1) [of True "ring_capacity default_config"]
  by (auto simp: default_config_def intro: exI [of _ 16])

lemma one_add_replayed:
  obtains q evs t where "new_ring True (ring_capacity default_config) = Inr q"
    "replay_run read_plain default_config (new_replay default_config q (opened (input_of [one_add] @ junk))) evs t"
    "finished t"
proof -
  obtain q :: "queued_event ring" where q: "new_ring True (ring_capacity default_config) = Inr q"
    by (rule default_ring)
  have "consumer_phase (new_replay default_config q (opened (input_of [one_add] @ junk))) \<noteq> Terminated"
    by (simp add: new_replay_def)
  from plain.replay_can_finish [OF new_replay_inv [OF q] this] that [OF q] show ?thesis by auto
qed

text \<open>
  C6: over any source that keeps its contract, no step is undefined and the events applied are those
  of the input, in their order: a prefix of them at every moment, and all of them at the end, together
  with the error that broke off the input if one did. The counts printed are the number of events.
\<close>

theorem replay_applies_the_input:
  assumes "frame_source rd left sound" "sound r" "new_ring memory (ring_capacity config) = Inr q"
    "replay_run rd config (new_replay config q r) evs t"
  shows "(\<forall>ev u. replay_step rd config t ev u \<longrightarrow> u \<noteq> None) \<and>
    (\<exists>rest. fst (feed (left r)) = applied_events evs @ rest) \<and>
    (consumer_phase t \<noteq> Terminated \<longrightarrow> applied_messages t = of_nat (length (applied_events evs)) \<and>
      st_messages (stats (replay_engine t)) = of_nat (length (applied_events evs))) \<and>
    (finished t \<longrightarrow> feed (left r) = (applied_events evs, failure t) \<and>
      decoded_messages t = of_nat (length (applied_events evs)))"
proof -
  note inv = replay_reachable [OF assms]
  show ?thesis
    using frame_source.replay_step_inv [OF assms(1) inv] replay_inv_order [OF inv] finished_applied [OF inv] inv
    by (fastforce simp: replay_inv_def work_inv_def)
qed

lemma replay_applies_the_input_witness:
  "\<exists>q evs t. replay_run read_plain default_config (new_replay default_config q (opened (input_of [one_add] @ [0]))) evs t \<and>
     finished t \<and> applied_events evs = [one_add] \<and> failure t = Some truncated_prefix \<and> decoded_messages t = 1"
proof -
  obtain q evs t where t: "new_ring True (ring_capacity default_config) = Inr q"
    "replay_run read_plain default_config (new_replay default_config q (opened (input_of [one_add] @ [0]))) evs t"
    "finished t" by (rule one_add_replayed)
  have "feed [0] = ([], Some truncated_prefix)" by (subst feed.simps) (simp add: frame_of_def)
  with replay_applies_the_input [OF plain.frame_source_axioms opened_simps(1) t(1,2)] t(3)
    feed_input [OF one_add_fits, of "[0]"]
  have f: "([one_add], Some truncated_prefix) = (applied_events evs, failure t)"
    "decoded_messages t = of_nat (length (applied_events evs))" by simp_all
  then have "applied_events evs = [one_add]" by simp
  with f have "applied_events evs = [one_add] \<and> failure t = Some truncated_prefix \<and> decoded_messages t = 1" by simp
  with t(2,3) show ?thesis by blast
qed

subsection \<open>The books at the end\<close>

text \<open>
  C3: replaying the frames of a list of events, with whatever breaks off the input after them, leaves
  in every locate the book a reference book has after the operations of that locate's events. Each
  event is applied once. The program then prints the number of events, or when something follows the
  frames nothing but the error in it; it returns 1 exactly in that case or when a rejection was counted
  and asked for.
\<close>

theorem replay_rebuilds_books:
  assumes "frame_source rd left sound" "sound r" "new_ring memory (ring_capacity config) = Inr q"
    "replay_run rd config (new_replay config q r) trace t" "finished t"
    "left r = input_of evs @ junk" "list_all event_fits evs" "fst (feed junk) = []"
    "engine_limits_of config = default_limits" "length evs < 2 ^ 64 - 1" "53 \<le> prec"
  shows "applied_events trace = evs \<and>
    (\<exists>out log. conclude prec throughput config t = Some (out, log,
        if junk \<noteq> [] \<or> fail_on_reject config \<and> st_rejected (stats (replay_engine t)) \<noteq> 0 then 1 else 0) \<and>
      (case snd (feed junk) of
         Some err \<Rightarrow> junk \<noteq> [] \<and> out = [] \<and> (\<exists>reported. log = reported @ ''decode error: '' @ err @ new_line)
       | None \<Rightarrow> junk = [] \<and> (\<exists>rest. out = ''decoded='' @ decimal (length evs) @ '' applied='' @
           decimal (length evs) @ '' instruments='' @ rest))) \<and>
    (\<forall>l. \<exists>ws ref. ref_run new_reference (completed (feed_ops l evs)) = Some (ws, ref) \<and>
      (case find_book (replay_engine t) l of
         None \<Rightarrow> \<forall>x. ref_order ref x = None
       | Some b \<Rightarrow> same_observations b ref))"
proof -
  note inv = replay_reachable [OF assms(1-4)]
  note fin = finished_applied [OF inv assms(5)]
  have "feed (left r) = (evs, snd (feed junk))" using feed_input [OF assms(7), of junk] assms(6,8) by simp
  with fin(1) have a: "applied_events trace = evs" "failure t = snd (feed junk)" by simp_all
  have failed: "failure t \<noteq> None \<longleftrightarrow> junk \<noteq> []"
    using feed_empty [of junk] assms(8) a(2) by (cases "feed junk") auto
  have w: "work_inv config evs t" "decoded_messages t = of_nat (length evs)" "length evs < 2 ^ 64"
    using inv fin(2) a(1) assms(10) by (simp_all add: replay_inv_def)
  have "engine_holds (replay_engine t) (fed default_limits (\<lambda>_. None) evs) {}"
    using w(1) fin(3) assms(9) by (simp add: work_inv_def)
  note books = fed_shows_reference [OF this assms(10)]
  note printed = conclude_defined [OF w(1) fin(3) assms(11) w(3,2), of throughput]
  show ?thesis
  proof (cases "snd (feed junk)")
    case None
    with a failed printed books show ?thesis by simp
  next
    case (Some err)
    with a failed printed books show ?thesis by auto
  qed
qed

lemma replay_rebuilds_books_witness:
  "\<exists>q trace t. replay_run read_plain default_config (new_replay default_config q (opened (input_of [one_add]))) trace t \<and>
     finished t \<and> (\<exists>rest log. conclude 64 9 default_config t =
       Some (''decoded=1 applied=1 instruments='' @ rest, log, 0)) \<and>
     (\<exists>ws ref. ref_run new_reference (completed [Op_Add 1 Buy 100 5]) = Some (ws, ref) \<and>
       (case find_book (replay_engine t) 7 of
          None \<Rightarrow> \<forall>x. ref_order ref x = None
        | Some b \<Rightarrow> same_observations b ref))"
proof -
  obtain q trace t where t: "new_ring True (ring_capacity default_config) = Inr q"
    "replay_run read_plain default_config (new_replay default_config q (opened (input_of [one_add] @ []))) trace t"
    "finished t" by (rule one_add_replayed)
  have e: "engine_limits_of default_config = default_limits" "\<not> fail_on_reject default_config"
    by (simp_all add: default_config_def default_limits_def)
  have j: "fst (feed []) = []" using feed_empty [of "[]"] by simp
  have ops: "feed_ops 7 [one_add] = [Op_Add 1 Buy 100 5]" by (simp add: feed_ops_def one_add_def)
  have len: "length [one_add] < 2 ^ 64 - 1" by simp
  note w = replay_rebuilds_books [OF plain.frame_source_axioms opened_simps(1) t opened_simps(2) one_add_fits j e(1) len]
  have "snd (feed []) = None" "decimal 1 = ''1''" using feed_empty [of "[]"] by (simp_all add: decimal.simps char_of_def bit_0)
  then have "\<exists>rest log. conclude 64 9 default_config t = Some (''decoded=1 applied=1 instruments='' @ rest, log, 0)"
    using w [of 64 9] e(2) by auto
  moreover have "\<exists>ws ref. ref_run new_reference (completed [Op_Add 1 Buy 100 5]) = Some (ws, ref) \<and>
       (case find_book (replay_engine t) 7 of
          None \<Rightarrow> \<forall>x. ref_order ref x = None
        | Some b \<Rightarrow> same_observations b ref)" using w [of 64 9] unfolding ops [symmetric] by simp
  moreover have "replay_run read_plain default_config (new_replay default_config q (opened (input_of [one_add]))) trace t"
    using t(2) by simp
  ultimately show ?thesis using t(3) by blast
qed

subsection \<open>The end\<close>

text \<open>
  The replay cannot get stuck. Whatever its threads have done so far, and however stale their
  loads were, there is a way to its regular end, where the producer has returned and every event of
  the input is applied, unless an exception has already terminated the process.
\<close>

lemma replay_reaches_its_end:
  assumes "frame_source rd left sound" "sound r" "new_ring memory (ring_capacity config) = Inr q"
    "replay_run rd config (new_replay config q r) evs t" "consumer_phase t \<noteq> Terminated"
  shows "\<exists>fs u. replay_run rd config t fs u \<and> finished u \<and>
    applied_events (evs @ fs) = fst (feed (left r)) \<and> failure u = snd (feed (left r))"
proof -
  obtain fs u where u: "replay_run rd config t fs u" "finished u"
    using frame_source.replay_can_finish [OF assms(1) replay_reachable [OF assms(1-4)] assms(5)] by blast
  have "replay_run rd config (new_replay config q r) (evs @ fs) u"
    using assms(4) u(1) unfolding replay_run_def by (elim event_run_trans)
  from finished_applied(1) [OF replay_reachable [OF assms(1-3) this] u(2)] u show ?thesis by auto
qed

end
