(* ===== verification/Replay_Accounting.thy ===== *)
theory Replay_Accounting
  imports Replay_Properties
begin

section \<open>The accounts of the replay\<close>

text \<open>
  What the replay keeps count of while it runs: the events under way, which the ring bounds whatever
  the length of the input, the samples of its histograms, and the checkpoints it has printed.
\<close>

definition accounted :: "replay_config \<Rightarrow> itch_event list \<Rightarrow> 'r replay \<Rightarrow> bool" where
  "accounted config as s \<longleftrightarrow>
     histogram_count (lat_add (latency s)) = st_adds (stats (replay_engine s)) \<and>
     histogram_count (lat_cancel (latency s)) = st_cancels (stats (replay_engine s)) \<and>
     histogram_count (lat_execution (latency s)) = st_executions (stats (replay_engine s)) \<and>
     histogram_count (lat_replace (latency s)) = st_replaces (stats (replay_engine s)) \<and>
     histogram_count (end_to_end s) = of_nat (length as) \<and>
     map cp_applied (checkpoints s) = filter (checkpoint_due config) (map of_nat [1..<Suc (length as)])"

lemma new_replay_accounted: "accounted config [] (new_replay config q r)"
  by (simp add: accounted_def new_replay_def new_engine_def no_stats_def histogram_count_def
      new_histogram_def reset_def)

lemma record_value_count: "record_value h v = Some h' \<Longrightarrow> histogram_count h' = histogram_count h + 1"
  by (auto simp: record_value_def histogram_count_def Let_def split: Option.bind_splits if_splits)

lemma record_latency_counts:
  assumes "record_latency l act d = Some l'"
  shows "histogram_count (lat_add l') = histogram_count (lat_add l) + (if act = Added then 1 else 0)"
    "histogram_count (lat_cancel l') = histogram_count (lat_cancel l) + (if act = Cancelled then 1 else 0)"
    "histogram_count (lat_execution l') = histogram_count (lat_execution l) + (if act = Executed then 1 else 0)"
    "histogram_count (lat_replace l') = histogram_count (lat_replace l) + (if act = Replaced then 1 else 0)"
  using assms by (cases act; auto simp: record_latency_def record_value_count)+

lemma bump_action_counts:
  "st_adds (bump_action act s) = st_adds s + (if act = Added then 1 else 0)"
  "st_cancels (bump_action act s) = st_cancels s + (if act = Cancelled then 1 else 0)"
  "st_executions (bump_action act s) = st_executions s + (if act = Executed then 1 else 0)"
  "st_replaces (bump_action act s) = st_replaces s + (if act = Replaced then 1 else 0)"
  by (cases act; simp)+

lemma consume_accounted:
  assumes inv: "replay_inv left sound config F ps rs as s" and c: "consumer_phase s = Got q"
    and acc: "accounted config as s" and u: "consume config s q t0 t1 k = Some u" "consumer_phase u \<noteq> Terminated"
  shows "accounted config (as @ [qe_event q]) u"
proof -
  have w: "engine_holds (replay_engine s) (fed (engine_limits_of config) (\<lambda>_. None) as) {}"
    "applied_messages s = of_nat (length as)"
    using inv c by (simp_all add: replay_inv_def work_inv_def)
  obtain r e k' where ran: "engine_apply (replay_engine s) (qe_event q) k = Done r e k'"
    using u by (cases "engine_apply (replay_engine s) (qe_event q) k") (auto simp: consume_def)
  let ?act = "ar_action r"
  have "stats e = bump_action ?act (bump_messages (stats (replay_engine s)))"
    using engine_apply_sat [OF w(1), of "qe_event q" k] ran by (auto simp: result_of_def)
  note stats = this bump_action_counts [of ?act] bump_messages_def
  obtain l h where rec: "record_latency (latency s) ?act (t1 - t0) = Some l"
    "record_value (end_to_end s) (t1 - qe_enqueued_at q) = Some h"
    using u(1) ran by (auto simp: consume_def Let_def split: Option.bind_splits)
  let ?n = "applied_messages s + 1"
  have fields: "replay_engine u = e" "latency u = l" "end_to_end u = h"
    "map cp_applied (checkpoints u) =
      map cp_applied (checkpoints s) @ (if checkpoint_due config ?n then [?n] else [])"
    using u(1) ran rec by (auto simp: consume_def Let_def)
  show ?thesis
    using acc record_latency_counts [OF rec(1)] record_value_count [OF rec(2)] w(2)
    by (simp add: accounted_def fields stats add.commute)
qed

context frame_source
begin

lemma replay_step_accounted:
  assumes inv: "replay_inv left sound config F ps rs as s" and acc: "accounted config as s"
    and step: "replay_step rd config s ev (Some u)" and going: "consumer_phase u \<noteq> Terminated"
  shows "accounted config (as @ applied_events [ev]) u"
proof -
  have kept: "accounted config as v"
    if "latency v = latency s" "end_to_end v = end_to_end s" "replay_engine v = replay_engine s"
      "checkpoints v = checkpoints s" for v
    using acc that by (simp add: accounted_def)
  have read: "latency v = latency s \<and> end_to_end v = end_to_end s \<and> replay_engine v = replay_engine s \<and>
      checkpoints v = checkpoints s" if "read_event rd s t = Some v" for v t
    using that by (auto simp: read_event_def Let_def split: prod.splits frame_status.splits option.splits if_splits)
  from step show ?thesis
  proof cases
    case producer_moves
    from this(2) show ?thesis
      by cases (use going read in \<open>auto intro!: kept\<close>)
  next
    case main_moves
    from this(2) show ?thesis
    proof cases
      case (apply_step q t0 t1 k)
      with consume_accounted [OF inv _ acc _ going] show ?thesis by simp
    qed (auto intro!: kept)
  qed
qed

lemma terminated_ends:
  assumes "replay_step rd config s ev (Some u)"
  shows "consumer_phase s \<noteq> Terminated"
  using assms by cases

lemma replay_run_accounted:
  assumes "replay_run rd config s evs t" "replay_inv left sound config F [] [] [] s" "accounted config [] s"
    "consumer_phase t \<noteq> Terminated"
  shows "accounted config (applied_events evs) t"
  using assms unfolding replay_run_def
proof (induction rule: event_run.induct)
  case (run_step evs t ev u)
  have run: "replay_run rd config s evs t" using run_step.hyps(1) by (simp add: replay_run_def)
  from replay_step_accounted [OF replay_run_inv [OF run run_step.prems(1)] run_step.IH run_step.hyps(2)]
    terminated_ends [OF run_step.hyps(2)] run_step.prems
  show ?case by simp
qed simp

end

lemma under_way_bounded:
  assumes "replay_inv left sound config F ps rs as s"
  shows "length ps \<le> length as + unat (ring_capacity config) + 1"
proof -
  have "length ps \<le> length rs + unat (ring_capacity config)"
    using assms ring.room unfolding replay_inv_def by blast
  moreover obtain more where "map qe_event rs = as @ more" "length more \<le> 1"
    using applied_received [of ps rs as s] assms by (auto simp: replay_inv_def)
  then have "length rs \<le> length as + 1" by (metis length_append length_map nat_add_left_cancel_le)
  ultimately show ?thesis by simp
qed

text \<open>
  C12: however long the input is, the events handed over but not yet applied are never more than the
  capacity of the ring and the one in the main thread's hands. Until an exception terminates the
  process, every histogram has one sample for each event of its kind that the engine counted, the
  end-to-end histogram one for every event applied, and a checkpoint has been printed for each multiple
  of the interval among their number, if one was asked for.
\<close>

theorem replay_accounting:
  assumes "frame_source rd left sound" "sound r" "new_ring memory (ring_capacity config) = Inr q"
    "replay_run rd config (new_replay config q r) evs t"
  shows "length (pushes (queue_events evs)) \<le> length (applied_events evs) + unat (ring_capacity config) + 1 \<and>
    decoded_messages t = of_nat (length (pushes (queue_events evs))) \<and>
    (consumer_phase t \<noteq> Terminated \<longrightarrow>
      histogram_count (lat_add (latency t)) = st_adds (stats (replay_engine t)) \<and>
      histogram_count (lat_cancel (latency t)) = st_cancels (stats (replay_engine t)) \<and>
      histogram_count (lat_execution (latency t)) = st_executions (stats (replay_engine t)) \<and>
      histogram_count (lat_replace (latency t)) = st_replaces (stats (replay_engine t)) \<and>
      histogram_count (end_to_end t) = of_nat (length (applied_events evs)) \<and>
      map cp_applied (checkpoints t) =
        filter (checkpoint_due config) (map of_nat [1..<Suc (length (applied_events evs))]))"
proof -
  note inv = replay_reachable [OF assms]
  have start: "replay_inv left sound config (feed (left r)) [] [] [] (new_replay config q r)"
    by (rule new_replay_inv) fact+
  show ?thesis
    using under_way_bounded [OF inv] inv
      frame_source.replay_run_accounted [OF assms(1,4) start new_replay_accounted]
    unfolding accounted_def replay_inv_def by blast
qed

lemma replay_accounting_witness:
  "\<exists>q evs t. replay_run read_plain default_config (new_replay default_config q (opened (input_of [one_add]))) evs t \<and>
     finished t \<and> histogram_count (end_to_end t) = 1 \<and> checkpoints t = []"
proof -
  obtain q evs t where t: "new_ring True (ring_capacity default_config) = Inr q"
    "replay_run read_plain default_config (new_replay default_config q (opened (input_of [one_add] @ []))) evs t"
    "finished t" by (rule one_add_replayed)
  note run = replay_reachable [OF plain.frame_source_axioms opened_simps(1) t(1,2)]
  have as: "applied_events evs = [one_add]" "consumer_phase t \<noteq> Terminated"
    using finished_applied [OF run t(3)] feed_input [OF one_add_fits, of "[]"] feed_empty [of "[]"] by auto
  have "\<not> checkpoint_due default_config n" for n by (simp add: checkpoint_due_def default_config_def)
  with replay_accounting [OF plain.frame_source_axioms opened_simps(1) t(1,2)] as
  have "histogram_count (end_to_end t) = 1" "checkpoints t = []" by simp_all
  with t(2,3) show ?thesis by auto
qed

end
