(* ===== verification/Replay_Termination.thy ===== *)
theory Replay_Termination
  imports Replay_Properties
begin

section \<open>The replay terminates\<close>

text \<open>
  Infinite executions of the two threads, with the turns in which a thread waits to be scheduled. What
  C++ promises of them are two assumptions: a thread that can go on is scheduled again and again, and a
  store becomes visible to the loads of the other thread in finite time. Then both threads return.
\<close>

subsection \<open>Executions\<close>

datatype turn = Producer_Turn replay_event | Main_Turn replay_event | Idle_Turn

definition takes_turn ::
  "('r \<Rightarrow> nat \<Rightarrow> (string + u8 list) \<times> 'r) \<Rightarrow> replay_config \<Rightarrow> 'r replay \<Rightarrow> turn \<Rightarrow> 'r replay \<Rightarrow> bool" where
  "takes_turn rd config s turn u \<longleftrightarrow>
     (case turn of
        Producer_Turn ev \<Rightarrow> consumer_phase s \<noteq> Terminated \<and> producer_turn rd s ev (Some u)
      | Main_Turn ev \<Rightarrow> consumer_phase s \<noteq> Terminated \<and> consumer_turn config s ev (Some u)
      | Idle_Turn \<Rightarrow> u = s)"

definition execution ::
  "('r \<Rightarrow> nat \<Rightarrow> (string + u8 list) \<times> 'r) \<Rightarrow> replay_config \<Rightarrow> 'r replay \<Rightarrow> (nat \<Rightarrow> 'r replay) \<Rightarrow> (nat \<Rightarrow> turn) \<Rightarrow> bool" where
  "execution rd config s states turns \<longleftrightarrow>
     states 0 = s \<and> (\<forall>i. takes_turn rd config (states i) (turns i) (states (Suc i)))"

fun turn_events :: "turn \<Rightarrow> replay_event list" where
  "turn_events (Producer_Turn ev) = [ev]"
| "turn_events (Main_Turn ev) = [ev]"
| "turn_events Idle_Turn = []"

definition trace :: "(nat \<Rightarrow> turn) \<Rightarrow> nat \<Rightarrow> replay_event list" where
  "trace turns i = concat (map (\<lambda>j. turn_events (turns j)) [0..<i])"

lemma trace_simps [simp]: "trace turns 0 = []" "trace turns (Suc i) = trace turns i @ turn_events (turns i)"
  by (simp_all add: trace_def)

text \<open>Each thread gets a turn again and again, as long as it has one to take.\<close>

definition scheduled_fairly :: "(nat \<Rightarrow> 'r replay) \<Rightarrow> (nat \<Rightarrow> turn) \<Rightarrow> bool" where
  "scheduled_fairly states turns \<longleftrightarrow>
     (\<forall>i. \<exists>j\<ge>i. (\<exists>ev. turns j = Producer_Turn ev) \<or> producer_phase (states j) = Producer_Returned \<or>
        consumer_phase (states j) = Terminated) \<and>
     (\<forall>i. \<exists>j\<ge>i. (\<exists>ev. turns j = Main_Turn ev) \<or> consumer_phase (states j) = Loop_Left \<or>
        consumer_phase (states j) = Terminated)"

text \<open>The stores there are at any time, to both indices and to the flag, are seen by all later loads but finitely many.\<close>

definition stores_become_visible :: "(nat \<Rightarrow> 'r replay) \<Rightarrow> bool" where
  "stores_become_visible states \<longleftrightarrow>
     (\<forall>i. \<exists>j\<ge>i. \<forall>k\<ge>j.
        fresh_producer (length (read_stores (shared (event_queue (states i)))) - 1)
          (event_queue (states k)) (event_queue (states (Suc k))) \<and>
        fresh_consumer (length (write_stores (shared (event_queue (states i)))) - 1)
          (event_queue (states k)) (event_queue (states (Suc k))) \<and>
        (producer_done (states i) \<noteq> None \<longrightarrow> consumer_phase (states k) = Checking_Done \<longrightarrow>
          consumer_phase (states (Suc k)) \<noteq> Popping))"

subsection \<open>Descent\<close>

lemma eventually_constant:
  fixes f :: "nat \<Rightarrow> nat"
  assumes "\<And>k. i \<le> k \<Longrightarrow> f (Suc k) \<le> f k"
  shows "\<exists>j\<ge>i. \<forall>k\<ge>j. f k = f j"
proof -
  have down: "f k \<le> f j" if "i \<le> j" "j \<le> k" for j k
    using that(2) by (induction k rule: dec_induct) (use assms that(1) in \<open>auto intro: order_trans\<close>)
  obtain j where j: "i \<le> j" "\<And>k. i \<le> k \<Longrightarrow> f j \<le> f k"
    using ex_has_least_nat [of "\<lambda>j. i \<le> j" i f] by blast
  have "f k = f j" if "j \<le> k" for k
    using down [OF j(1) that] j(2) [of k] j(1) that by simp
  with j(1) show ?thesis by blast
qed

lemma no_descent:
  fixes f :: "nat \<Rightarrow> nat"
  assumes "\<And>k. i \<le> k \<Longrightarrow> f (Suc k) \<le> f k" "\<And>k. i \<le> k \<Longrightarrow> \<exists>m\<ge>k. f (Suc m) < f m"
  shows False
proof -
  obtain j where "i \<le> j" "\<forall>k\<ge>j. f k = f j" using eventually_constant [of i f] assms(1) by blast
  with assms(2) [of j] show False by (metis le_Suc_eq nat_less_le)
qed

subsection \<open>Termination\<close>

context frame_source
begin

lemma execution_inv:
  assumes "execution rd config s states turns" "replay_inv left sound config F [] [] [] s"
  shows "replay_inv left sound config F (pushes (queue_events (trace turns i))) (pops (queue_events (trace turns i)))
    (applied_events (trace turns i)) (states i)"
proof (induction i)
  case 0
  with assms show ?case by (simp add: execution_def)
next
  case (Suc i)
  have t: "takes_turn rd config (states i) (turns i) (states (Suc i))" using assms(1) by (simp add: execution_def)
  show ?case
  proof (cases "turns i")
    case (Producer_Turn ev)
    with t have "producer_turn rd (states i) ev (Some (states (Suc i)))" by (simp add: takes_turn_def)
    from producer_turn_inv [OF Suc this] show ?thesis by (simp add: Producer_Turn)
  next
    case (Main_Turn ev)
    with t have "consumer_turn config (states i) ev (Some (states (Suc i)))" by (simp add: takes_turn_def)
    from consumer_turn_inv [OF Suc this] show ?thesis by (simp add: Main_Turn)
  next
    case Idle_Turn
    with t Suc show ?thesis by (simp add: takes_turn_def)
  qed
qed

text \<open>A turn in which the work of the producer stays the same.\<close>

lemma quiet_turn:
  assumes "replay_inv left sound config F ps rs as s" "takes_turn rd config s turn u" "consumer_phase u \<noteq> Terminated"
  shows "producer_work left u \<le> producer_work left s"
    "producer_work left u = producer_work left s \<Longrightarrow> producer_phase u = producer_phase s \<and>
      producer_done u = producer_done s \<and> pushes (queue_events (turn_events turn)) = []"
proof -
  have "producer_work left u < producer_work left s \<or> producer_phase u = producer_phase s \<and> source u = source s \<and>
      producer_done u = producer_done s \<and> pushes (queue_events (turn_events turn)) = []"
  proof (cases turn)
    case (Producer_Turn ev)
    with assms producer_turn_nearer [OF assms(1) _ assms(3), of ev] show ?thesis by (auto simp: takes_turn_def)
  next
    case (Main_Turn ev)
    with assms consumer_turn_frame [of config s ev u] show ?thesis by (auto simp: takes_turn_def)
  next
    case Idle_Turn
    with assms show ?thesis by (simp add: takes_turn_def)
  qed
  then show "producer_work left u \<le> producer_work left s"
    "producer_work left u = producer_work left s \<Longrightarrow> producer_phase u = producer_phase s \<and>
      producer_done u = producer_done s \<and> pushes (queue_events (turn_events turn)) = []"
    using producer_work_cong [of u s left] by auto
qed

text \<open>Turns that see the last stores, when no push or pop happens any more.\<close>

lemma main_descends:
  assumes "replay_inv left sound config F ps rs as s" "takes_turn rd config s turn u" "consumer_phase u \<noteq> Terminated"
    "fresh_main (length ps) s u" "rs \<noteq> ps \<or> producer_done s \<noteq> None" "pops (queue_events (turn_events turn)) = []"
  shows "consumer_distance ps rs u \<le> consumer_distance ps rs s"
    "turn = Main_Turn ev \<Longrightarrow> consumer_distance ps rs u < consumer_distance ps rs s"
proof -
  show less: "consumer_distance ps rs u < consumer_distance ps rs s" if "turn = Main_Turn ev" for ev
    using consumer_turn_nearer [OF assms(1) _ assms(4,5), of ev] assms(2,6) that by (auto simp: takes_turn_def)
  show "consumer_distance ps rs u \<le> consumer_distance ps rs s"
  proof (cases turn)
    case (Producer_Turn ev)
    then have "consumer_distance ps rs u = consumer_distance ps rs s"
      using assms(2,3) producer_turn_frame [of rd s ev u] by (intro consumer_distance_cong) (auto simp: takes_turn_def)
    then show ?thesis by simp
  next
    case (Main_Turn ev)
    then show ?thesis using less [of ev] by simp
  next
    case Idle_Turn
    with assms(2) show ?thesis by (simp add: takes_turn_def)
  qed
qed

lemma producer_descends:
  assumes "replay_inv left sound config F ps ps as s" "takes_turn rd config s turn u" "consumer_phase u \<noteq> Terminated"
    "fresh_producer (length ps) (event_queue s) (event_queue u)" "producer_work left u = producer_work left s"
  shows "push_wait config ps u \<le> push_wait config ps s"
    "turn = Producer_Turn ev \<Longrightarrow> push_wait config ps u < push_wait config ps s"
proof -
  show less: "push_wait config ps u < push_wait config ps s" if "turn = Producer_Turn ev" for ev
    using producer_turn_nearer [OF assms(1) _ assms(3), of ev] assms(2,4,5) that by (auto simp: takes_turn_def)
  show "push_wait config ps u \<le> push_wait config ps s"
  proof (cases turn)
    case (Producer_Turn ev)
    then show ?thesis using less [of ev] by simp
  next
    case (Main_Turn ev)
    then have "push_wait config ps u = push_wait config ps s"
      using assms(2) consumer_turn_frame [of config s ev u] by (intro push_wait_cong) (auto simp: takes_turn_def)
    then show ?thesis by simp
  next
    case Idle_Turn
    with assms(2) show ?thesis by (simp add: takes_turn_def)
  qed
qed

text \<open>After some turn no work is done, and no value pushed or popped.\<close>

lemma execution_settles:
  assumes run: "execution rd config s states turns" and inv: "replay_inv left sound config F [] [] [] s"
    and going: "\<And>i. consumer_phase (states i) \<noteq> Terminated"
  obtains i where "\<And>k. i \<le> k \<Longrightarrow> producer_work left (states (Suc k)) = producer_work left (states k)"
    "\<And>k. i \<le> k \<Longrightarrow> pushes (queue_events (trace turns k)) = pushes (queue_events (trace turns i))"
    "\<And>k. i \<le> k \<Longrightarrow> pops (queue_events (trace turns k)) = pops (queue_events (trace turns i))"
    "\<And>k. i \<le> k \<Longrightarrow> producer_done (states k) = producer_done (states i)"
proof -
  let ?ps = "\<lambda>k. pushes (queue_events (trace turns k))" and ?rs = "\<lambda>k. pops (queue_events (trace turns k))"
  have t: "takes_turn rd config (states k) (turns k) (states (Suc k))" for k using run by (simp add: execution_def)
  note inv = execution_inv [OF run inv]
  note quiet = quiet_turn [OF inv t going]
  obtain i where i: "\<forall>k\<ge>i. producer_work left (states k) = producer_work left (states i)"
    using eventually_constant [of 0 "\<lambda>k. producer_work left (states k)"] quiet(1) by blast
  have work: "producer_work left (states (Suc k)) = producer_work left (states k)" if "i \<le> k" for k
    using i that by (metis le_SucI)
  note same = quiet(2) [OF work]
  have ps: "?ps k = ?ps i" "producer_done (states k) = producer_done (states i)" if "i \<le> k" for k
    using that by (induction k rule: dec_induct) (simp_all add: same)
  have bound: "length (?rs k) \<le> length (?ps k)" for k
    using inv [of k] ring.received_le unfolding replay_inv_def by blast
  have "length (?ps i) - length (?rs (Suc k)) \<le> length (?ps i) - length (?rs k)" for k by simp
  then obtain j where j: "i \<le> j" "\<forall>k\<ge>j. length (?ps i) - length (?rs k) = length (?ps i) - length (?rs j)"
    using eventually_constant [of i "\<lambda>k. length (?ps i) - length (?rs k)"] by blast
  have le: "length (?rs k) \<le> length (?ps i)" if "j \<le> k" for k
    using bound [of k] ps(1) [of k] order.trans [OF j(1) that] by metis
  have rs: "?rs k = ?rs j" if "j \<le> k" for k
    using that
  proof (induction k rule: dec_induct)
    case (step k)
    have c: "length (?ps i) - length (?rs m) = length (?ps i) - length (?rs j)" if "j \<le> m" for m
      using j(2) that by blast
    have "length (?rs (Suc k)) = length (?rs k)"
      using c [of k] c [of "Suc k"] le [of k] le [of "Suc k"] step.hyps by linarith
    with step.IH show ?case by simp
  qed simp
  show ?thesis
  proof (rule that [of j])
    fix k assume "j \<le> k"
    then have "i \<le> k" using j(1) by simp
    then show "producer_work left (states (Suc k)) = producer_work left (states k)" by (rule work)
    show "?ps k = ?ps j" "producer_done (states k) = producer_done (states j)"
      using ps [OF \<open>i \<le> k\<close>] ps [OF j(1)] by (metis, metis)
    show "?rs k = ?rs j" by (rule rs) fact
  qed
qed

lemma execution_ends:
  assumes run: "execution rd config s states turns" and inv: "replay_inv left sound config F [] [] [] s"
    and fair: "scheduled_fairly states turns" and visible: "stores_become_visible states"
  shows "\<exists>i. consumer_phase (states i) = Terminated \<or> finished (states i)"
proof (rule ccontr)
  assume "\<not> ?thesis"
  then have going: "consumer_phase (states i) \<noteq> Terminated" "\<not> finished (states i)" for i by auto
  have t: "takes_turn rd config (states k) (turns k) (states (Suc k))" for k using run by (simp add: execution_def)
  note invs = execution_inv [OF run inv]
  have loops: "consumer_phase (states i) \<noteq> Loop_Left" for i
    using left_finished [OF invs] going(2) by blast
  obtain i where i: "\<And>k. i \<le> k \<Longrightarrow> producer_work left (states (Suc k)) = producer_work left (states k)"
    "\<And>k. i \<le> k \<Longrightarrow> pushes (queue_events (trace turns k)) = pushes (queue_events (trace turns i))"
    "\<And>k. i \<le> k \<Longrightarrow> pops (queue_events (trace turns k)) = pops (queue_events (trace turns i))"
    "\<And>k. i \<le> k \<Longrightarrow> producer_done (states k) = producer_done (states i)"
    using execution_settles [OF run inv going(1)] by blast
  define ps where "ps = pushes (queue_events (trace turns i))"
  define rs where "rs = pops (queue_events (trace turns i))"
  have inv: "replay_inv left sound config F ps rs (applied_events (trace turns k)) (states k)" if "i \<le> k" for k
    using invs [of k] i(2,3) [OF that] by (simp add: ps_def rs_def)
  have idle: "pops (queue_events (turn_events (turns k))) = []" if "i \<le> k" for k
    using i(3) [OF that] i(3) [of "Suc k"] that by simp
  have ring: "ring_inv (ring_capacity config) ps rs (event_queue (states i))"
    using inv [OF order.refl] by (simp add: replay_inv_def)
  have counts: "length (write_stores (shared (event_queue (states i)))) - 1 = length ps"
    "length (read_stores (shared (event_queue (states i)))) - 1 = length rs"
    using ring_invD(6,7) [OF ring] by (simp_all add: stores_ok_def)
  obtain j where j: "i \<le> j" "\<And>k. j \<le> k \<Longrightarrow>
      fresh_producer (length rs) (event_queue (states k)) (event_queue (states (Suc k))) \<and>
      fresh_consumer (length ps) (event_queue (states k)) (event_queue (states (Suc k))) \<and>
      (producer_done (states i) \<noteq> None \<longrightarrow> consumer_phase (states k) = Checking_Done \<longrightarrow>
        consumer_phase (states (Suc k)) \<noteq> Popping)"
    using visible counts unfolding stores_become_visible_def by metis
  show False
  proof (cases "rs \<noteq> ps \<or> producer_done (states i) \<noteq> None")
    case True
    have fresh: "fresh_main (length ps) (states k) (states (Suc k))" if "j \<le> k" for k
      using j(2) [OF that] i(4) [of k] j(1) that by (simp add: fresh_main_def)
    note down = main_descends [OF inv t going(1) fresh _ idle]
    show False
    proof (rule no_descent [of j "\<lambda>k. consumer_distance ps rs (states k)"])
      fix k assume k: "j \<le> k"
      show "consumer_distance ps rs (states (Suc k)) \<le> consumer_distance ps rs (states k)"
        using down(1) [of k] k j(1) i(4) [of k] True by simp
      obtain m ev where "k \<le> m" "turns m = Main_Turn ev"
        using fair going(1) loops unfolding scheduled_fairly_def by metis
      then show "\<exists>m\<ge>k. consumer_distance ps rs (states (Suc m)) < consumer_distance ps rs (states m)"
        using down(2) [of m ev] k j(1) i(4) [of m] True by (intro exI [of _ m]) simp
    qed
  next
    case False
    have running: "producer_phase (states k) \<noteq> Producer_Returned" if "i \<le> k" for k
      using inv [OF that] i(4) [OF that] False by (auto simp: replay_inv_def producer_inv_def Let_def)
    have fresh: "fresh_producer (length ps) (event_queue (states k)) (event_queue (states (Suc k)))" if "j \<le> k" for k
      using j(2) [OF that] False by simp
    have inv': "replay_inv left sound config F ps ps (applied_events (trace turns k)) (states k)" if "i \<le> k" for k
      using inv [OF that] False by simp
    note down = producer_descends [OF inv' t going(1) fresh i(1)]
    show False
    proof (rule no_descent [of j "\<lambda>k. push_wait config ps (states k)"])
      fix k assume k: "j \<le> k"
      show "push_wait config ps (states (Suc k)) \<le> push_wait config ps (states k)"
        using down(1) [of k] k j(1) by simp
      obtain m ev where "k \<le> m" "turns m = Producer_Turn ev"
        using fair going(1) running k j(1) unfolding scheduled_fairly_def by (metis le_trans)
      then show "\<exists>m\<ge>k. push_wait config ps (states (Suc m)) < push_wait config ps (states m)"
        using down(2) [of m ev] k j(1) by (intro exI [of _ m]) simp
    qed
  qed
qed

end

lemma finished_stays:
  assumes "finished s" "takes_turn rd config s turn u"
  shows "u = s"
  using assms by (cases turn) (auto simp: takes_turn_def finished_def elim: producer_turn.cases consumer_turn.cases)

lemma fair_execution:
  assumes source: "frame_source rd left sound" "sound r" and q: "new_ring memory (ring_capacity config) = Inr q"
    and run: "execution rd config (new_replay config q r) states turns"
    and fair: "scheduled_fairly states turns" "stores_become_visible states"
  obtains i where "consumer_phase (states i) = Terminated"
  | i where "finished (states i)" "\<And>j. i \<le> j \<Longrightarrow> states j = states i"
    "replay_inv left sound config (feed (left r)) (pushes (queue_events (trace turns i)))
      (pops (queue_events (trace turns i))) (applied_events (trace turns i)) (states i)"
proof -
  have inv: "replay_inv left sound config (feed (left r)) [] [] [] (new_replay config q r)"
    by (rule new_replay_inv) fact+
  obtain i where i: "consumer_phase (states i) = Terminated \<or> finished (states i)"
    using frame_source.execution_ends [OF source(1) run inv fair] by blast
  have "states j = states i" if "finished (states i)" "i \<le> j" for j
    using that(2)
  proof (induction j rule: dec_induct)
    case (step j)
    have "takes_turn rd config (states j) (turns j) (states (Suc j))" using run by (simp add: execution_def)
    with step.IH that(1) finished_stays show ?case by metis
  qed simp
  with i frame_source.execution_inv [OF source(1) run inv, of i] that show ?thesis by blast
qed

text \<open>
  C7: the program terminates. A command line that starts a replay of an input, plain or compressed,
  which can be read to its end, gives executions that all end, provided both threads keep being
  scheduled and stores become visible in finite time: the producer and the main thread return for good,
  every event of the input has been applied once and in order, and the program returns, with 1 exactly
  when the input breaks off in an error or a rejection was counted and asked for. The only other end is
  an exception of a failed allocation, which terminates the process.
\<close>

theorem replay_terminates:
  assumes "start_replay have_zlib open_plain open_gzip memory threads argv = Replays config s"
    "frame_source (gzip_read gzread) gzip_left gzip_sound" "on_source plain_sound gzip_sound (source s)"
    "execution (read_at_most gzread) config s states turns"
    "scheduled_fairly states turns" "stores_become_visible states"
    "feed (on_source pending gzip_left (source s)) = (evs, broken_off)" "length evs < 2 ^ 64" "53 \<le> prec"
  shows "\<exists>i. consumer_phase (states i) = Terminated \<or>
    finished (states i) \<and> (\<forall>j\<ge>i. states j = states i) \<and> applied_events (trace turns i) = evs \<and>
    (\<exists>out log. conclude prec throughput config (states i) = Some (out, log,
      if broken_off \<noteq> None \<or> fail_on_reject config \<and> st_rejected (stats (replay_engine (states i))) \<noteq> 0
      then 1 else 0))"
proof -
  obtain q input where s: "new_ring memory (ring_capacity config) = Inr q" "s = new_replay config q input"
    using started_replay [OF assms(1)] by blast
  have input: "source s = input" by (simp add: s(2) new_replay_def)
  note source = reader_source [OF assms(2)] assms(3) [unfolded input]
  show ?thesis
  proof (rule fair_execution [OF source s(1) assms(4) [unfolded s(2)] assms(5,6)])
    fix i assume fin: "finished (states i)" and stays: "\<And>j. i \<le> j \<Longrightarrow> states j = states i"
      and inv: "replay_inv (on_source pending gzip_left) (on_source plain_sound gzip_sound) config
        (feed (on_source pending gzip_left input)) (pushes (queue_events (trace turns i)))
        (pops (queue_events (trace turns i))) (applied_events (trace turns i)) (states i)"
    note done_all = finished_applied [OF inv fin]
    have as: "applied_events (trace turns i) = evs" "failure (states i) = broken_off"
      using done_all(1) assms(7) by (simp_all add: input)
    have w: "work_inv config evs (states i)" "decoded_messages (states i) = of_nat (length evs)"
      using inv done_all(2) as(1) by (simp_all add: replay_inv_def)
    from conclude_defined [OF w(1) done_all(3) assms(9,8) w(2), of throughput] as(2)
    have "\<exists>out log. conclude prec throughput config (states i) = Some (out, log,
      if broken_off \<noteq> None \<or> fail_on_reject config \<and> st_rejected (stats (replay_engine (states i))) \<noteq> 0
      then 1 else 0)" by blast
    then show ?thesis using fin stays as(1) by blast
  qed blast
qed

text \<open>A run as an execution that idles after it.\<close>

lemma replay_step_turn:
  assumes "replay_step rd config s ev (Some u)"
  obtains turn where "takes_turn rd config s turn u" "turn_events turn = [ev]"
  using assms
proof cases
  case producer_moves
  then show ?thesis by (intro that [of "Producer_Turn ev"]) (simp_all add: takes_turn_def)
next
  case main_moves
  then show ?thesis by (intro that [of "Main_Turn ev"]) (simp_all add: takes_turn_def)
qed

lemma run_execution:
  assumes "replay_run rd config s evs t"
  shows "\<exists>states turns n. execution rd config s states turns \<and> trace turns n = evs \<and>
    (\<forall>k\<ge>n. states k = t \<and> turns k = Idle_Turn)"
  using assms unfolding replay_run_def
proof (induction rule: event_run.induct)
  case run_start
  show ?case
    by (intro exI [of _ "\<lambda>_. s"] exI [of _ "\<lambda>_. Idle_Turn"] exI [of _ 0])
      (simp add: execution_def takes_turn_def)
next
  case (run_step evs t ev u)
  from run_step.IH obtain states turns n where run: "execution rd config s states turns" "trace turns n = evs"
    "\<And>k. n \<le> k \<Longrightarrow> states k = t \<and> turns k = Idle_Turn" by blast
  obtain turn where turn: "takes_turn rd config t turn u" "turn_events turn = [ev]"
    using replay_step_turn [OF run_step.hyps(2)] by blast
  let ?states = "\<lambda>k. if k \<le> n then states k else u" and ?turns = "turns(n := turn)"
  have "trace ?turns n = trace turns n" unfolding trace_def by (intro arg_cong [of _ _ concat] map_cong) auto
  then have "trace ?turns (Suc n) = evs @ [ev]" using run(2) turn(2) by simp
  moreover have "takes_turn rd config (?states k) (?turns k) (?states (Suc k))" for k
    using run(1,3) turn(1) by (cases k n rule: linorder_cases) (auto simp: execution_def takes_turn_def)
  then have "execution rd config s ?states ?turns" using run(1) by (simp add: execution_def)
  ultimately show ?case
    by (intro exI [of _ ?states] exI [of _ ?turns] exI [of _ "Suc n"]) (use run(3) in \<open>simp del: fun_upd_apply trace_simps, auto\<close>)
qed

lemma idle_execution_fair:
  assumes "finished t" "\<And>k. n \<le> k \<Longrightarrow> states k = t"
  shows "scheduled_fairly states turns" "stores_become_visible states"
proof -
  have "states k = t" if "max i n \<le> k" for i k using assms(2) that by simp
  then show "scheduled_fairly states turns"
    using assms(1) unfolding scheduled_fairly_def finished_def by (metis max.cobounded1 order.refl)
  have "fresh_producer m q q" "fresh_consumer m q q" for m and q :: "queued_event ring_system"
    by (simp_all add: fresh_producer_def fresh_consumer_def split: producer_point.split consumer_point.split)
  with assms have "fresh_producer m (event_queue (states k)) (event_queue (states (Suc k))) \<and>
      fresh_consumer m' (event_queue (states k)) (event_queue (states (Suc k))) \<and>
      consumer_phase (states k) \<noteq> Checking_Done" if "max i n \<le> k" for i k m m'
    using that by (simp add: finished_def)
  then show "stores_become_visible states"
    unfolding stores_become_visible_def by (metis max.cobounded1)
qed

text \<open>No compressed input: a source that is always at its end.\<close>

lemma nothing_read: "frame_source (gzip_read (\<lambda>(z :: unit) n. (Inr [], z))) (\<lambda>_. []) (\<lambda>_. True)"
  by unfold_locales (simp_all add: gzip_read_def)

lemma replay_terminates_witness:
  "\<exists>config s states turns i out log.
     start_replay False (\<lambda>_. Some (opened (input_of [one_add]))) (\<lambda>_. None :: unit option) True True
       [''itch_replay'', ''day.itch''] = Replays config s \<and>
     execution (read_at_most (\<lambda>z n. (Inr [], z))) config s states turns \<and>
     (consumer_phase (states i) = Terminated \<or> finished (states i) \<and> applied_events (trace turns i) = [one_add] \<and>
       conclude 64 9 config (states i) = Some (out, log, 0))"
proof -
  let ?rd = "read_at_most (\<lambda>(z :: unit) n. (Inr [], z))"
  let ?config = "default_config\<lparr>input_path := ''day.itch''\<rparr>"
  obtain q :: "queued_event ring" where "new_ring True (ring_capacity default_config) = Inr q" by (rule default_ring)
  then have q: "new_ring True (ring_capacity ?config) = Inr q" by simp
  let ?input = "Plain_Input (opened (input_of [one_add])) :: unit input_source"
  let ?s = "new_replay ?config q ?input"
  have argv: "start_replay False (\<lambda>_. Some (opened (input_of [one_add]))) (\<lambda>_. None :: unit option) True True
      [''itch_replay'', ''day.itch''] = Replays ?config ?s"
    using q by (simp add: start_replay_def parse_arguments_def open_reader_def has_gzip_suffix_def)
  note source = reader_source [OF nothing_read]
  have sound: "on_source plain_sound (\<lambda>_. True) (source ?s)" by (simp add: new_replay_def on_source_def)
  have "on_source plain_sound (\<lambda>_. True) ?input" by (simp add: on_source_def)
  note inv = new_replay_inv [where left = "on_source pending (\<lambda>_. [])" and
    sound = "on_source plain_sound (\<lambda>_. True)" and r = ?input, OF q this]
  have "consumer_phase ?s \<noteq> Terminated" by (simp add: new_replay_def)
  from frame_source.replay_can_finish [OF source inv this]
  obtain evs t where t: "replay_run ?rd ?config ?s evs t" "finished t" by blast
  obtain states turns n where run: "execution ?rd ?config ?s states turns" "\<And>k. n \<le> k \<Longrightarrow> states k = t"
    using run_execution [OF t(1)] by blast
  have fair: "scheduled_fairly states turns" "stores_become_visible states"
    by (rule idle_execution_fair [OF t(2)], fact)+
  have feed: "feed (on_source pending (\<lambda>_. []) (source ?s)) = ([one_add], None)"
    using feed_input [OF one_add_fits, of "[]"] feed_empty [of "[]"] by (simp add: new_replay_def on_source_def)
  have "length [one_add] < 2 ^ 64" "53 \<le> (64 :: nat)" by simp_all
  note ends = replay_terminates [OF argv nothing_read sound run(1) fair feed this, of 9]
  have "(if (None :: string option) \<noteq> None \<or> fail_on_reject ?config \<and> b then 1 else 0 :: nat) = 0" for b
    by (simp add: default_config_def)
  from ends [unfolded this] obtain i where "consumer_phase (states i) = Terminated \<or> finished (states i) \<and>
    applied_events (trace turns i) = [one_add] \<and> (\<exists>out log. conclude 64 9 ?config (states i) = Some (out, log, 0))"
    by blast
  with argv run(1) show ?thesis by blast
qed

end
