(* ===== verification/Latency_Bench.thy ===== *)
theory Latency_Bench
  imports Console Engine_Feed
begin

section \<open>The latency benchmark\<close>

text \<open>
  The program \<^verbatim>\<open>bench/latency_bench.cpp\<close>: it adds and cancels orders on a book, rebuilds
  them in a matching engine and matches them one by one, timing each call and checking its result.
  The durations and the allocations each call finds are parameters, functions of the index of the
  call.
\<close>

definition parse_order_count :: "string \<Rightarrow> size_t" where
  "parse_order_count input =
     (case stoull input of
        Inl _ \<Rightarrow> 0
      | Inr value \<Rightarrow> if value = 0 \<or> value > ucast (- 1 :: u32) then 0 else value)"

definition base_price :: price where
  "base_price = 1000000"

definition bench_locate :: stock_locate where
  "bench_locate = 1"

definition bench_id :: "nat \<Rightarrow> order_id" where
  "bench_id index = of_nat index + 1"

definition bench_price :: "nat \<Rightarrow> price" where
  "bench_price index = base_price + of_nat (index mod 256)"

text \<open>
  A loop over the indices, which stops at the first check that fails. A step returns whether its check
  held; the duration is recorded when it did.
\<close>

fun bench_loop :: "(nat \<Rightarrow> 's \<Rightarrow> ('s, bool) outcome) \<Rightarrow> nat list \<Rightarrow> 's \<Rightarrow> ('s, bool) outcome" where
  "bench_loop step [] s = Done True s 0"
| "bench_loop step (i # is) s =
     (case step i s of
        Done ok s' k \<Rightarrow> if ok then bench_loop step is s' else Done False s' k
      | Thrown s' \<Rightarrow> Thrown s'
      | Undefined \<Rightarrow> Undefined)"

definition timed :: "u64 \<Rightarrow> histogram \<Rightarrow> ('s, bool) outcome \<Rightarrow> ('s \<times> histogram, bool) outcome" where
  "timed ns h r =
     (case r of
        Done ok s k \<Rightarrow>
          if ok then (case record_value h ns of None \<Rightarrow> Undefined | Some h' \<Rightarrow> Done True (s, h') k)
          else Done False (s, h) k
      | Thrown s \<Rightarrow> Thrown (s, h)
      | Undefined \<Rightarrow> Undefined)"

definition bench_add ::
  "(nat \<Rightarrow> nat) \<Rightarrow> (nat \<Rightarrow> u64) \<Rightarrow> nat \<Rightarrow> order_book \<times> histogram \<Rightarrow> (order_book \<times> histogram, bool) outcome" where
  "bench_add memory ns i s =
     timed (ns i) (snd s) (book_add (fst s) (bench_id i) Buy (bench_price i) 100 (memory i))"

definition bench_cancel ::
  "(nat \<Rightarrow> u64) \<Rightarrow> nat \<Rightarrow> order_book \<times> histogram \<Rightarrow> (order_book \<times> histogram, bool) outcome" where
  "bench_cancel ns i s = timed (ns i) (snd s) (of_option (book_cancel (fst s) (bench_id i) 100) 0)"

definition bench_order :: "nat \<Rightarrow> itch_event" where
  "bench_order i = AddOrder
     \<lparr>ao_header = \<lparr>mh_stock_locate = bench_locate, mh_tracking_number = 0, mh_timestamp = 0\<rparr>,
      ao_order_reference = bench_id i, ao_side = Sell, ao_shares = 100, ao_stock = replicate 8 0,
      ao_price = bench_price i\<rparr>"

definition bench_rebuild :: "(nat \<Rightarrow> nat) \<Rightarrow> nat \<Rightarrow> engine \<Rightarrow> (engine, bool) outcome" where
  "bench_rebuild memory i e =
     (case engine_apply e (bench_order i) (memory i) of
        Done r e' k \<Rightarrow> Done (ar_changed_book r) e' k
      | Thrown e' \<Rightarrow> Thrown e'
      | Undefined \<Rightarrow> Undefined)"

definition expected_fill :: "match_result \<Rightarrow> bool" where
  "expected_fill r \<longleftrightarrow>
     \<not> (\<not> mr_accepted r \<or> mr_filled r \<noteq> 100 \<or> mr_unfilled r \<noteq> 0 \<or> mr_fill_count r \<noteq> 1 \<or> mr_fills_truncated r)"

definition bench_match ::
  "(nat \<Rightarrow> u64) \<Rightarrow> nat \<Rightarrow> (engine \<times> fill list) \<times> histogram \<Rightarrow> ((engine \<times> fill list) \<times> histogram, bool) outcome" where
  "bench_match ns i s =
     timed (ns i) (snd s)
       (case submit_market (fst (fst s)) bench_locate Buy 100 (snd (fst s)) of
          None \<Rightarrow> Undefined
        | Some (r, e, output) \<Rightarrow> Done (expected_fill r) (e, output) 0)"

text \<open>
  How the program ends: with the status \<^verbatim>\<open>EXIT_FAILURE\<close> and a line on the error stream, with an
  exception nobody catches, or with a report on the output and \<^verbatim>\<open>EXIT_SUCCESS\<close>.
\<close>

datatype bench_end =
    Bench_Failure string
  | Bench_Threw
  | Bench_Undefined
  | Bench_Report string

text \<open>What follows a loop: its failure is reported with a message of its own.\<close>

definition after_loop :: "string \<Rightarrow> ('s, bool) outcome \<Rightarrow> ('s \<Rightarrow> bench_end) \<Rightarrow> bench_end" where
  "after_loop message r f =
     (case r of
        Done ok s k \<Rightarrow> if ok then f s else Bench_Failure (message @ new_line)
      | Thrown s \<Rightarrow> Bench_Threw
      | Undefined \<Rightarrow> Bench_Undefined)"

definition no_fill :: fill where
  "no_fill = \<lparr>fill_resting_order = 0, fill_price = 0, fill_quantity = 0\<rparr>"

definition bench_print :: "nat \<Rightarrow> string \<Rightarrow> histogram \<Rightarrow> string option" where
  "bench_print prec name h = do {
     s \<leftarrow> summary prec h;
     Some (summary_line name s)
   }"

definition bench_report :: "nat \<Rightarrow> size_t \<Rightarrow> histogram \<Rightarrow> histogram \<Rightarrow> histogram \<Rightarrow> string option" where
  "bench_report prec order_count adds cancels matches = do {
     a \<leftarrow> bench_print prec ''add'' adds;
     c \<leftarrow> bench_print prec ''cancel'' cancels;
     m \<leftarrow> bench_print prec ''match'' matches;
     Some (''orders='' @ shown order_count @ new_line @ a @ c @ m)
   }"

definition bench_main ::
  "nat \<Rightarrow> (nat \<Rightarrow> nat) \<Rightarrow> (nat \<Rightarrow> nat) \<Rightarrow> (nat \<Rightarrow> u64) \<Rightarrow> (nat \<Rightarrow> u64) \<Rightarrow> (nat \<Rightarrow> u64) \<Rightarrow> string list \<Rightarrow> bench_end" where
  "bench_main prec book_memory engine_memory add_ns cancel_ns match_ns argv =
     (if length argv > 2 then Bench_Failure (''usage: lob_latency_bench [orders]'' @ new_line)
      else
        let order_count = (if length argv = 2 then parse_order_count (argv ! 1) else 200000);
            indices = [0..<unat order_count] in
        if order_count = 0 then Bench_Failure (''orders must be an integer in [1, 4294967295]'' @ new_line)
        else
          after_loop ''benchmark setup failed while adding order''
            (bench_loop (bench_add book_memory add_ns) indices (new_book, new_histogram)) (\<lambda>(book, adds).
          after_loop ''benchmark setup failed while cancelling order''
            (bench_loop (bench_cancel cancel_ns) indices (book, new_histogram)) (\<lambda>(book, cancels).
          after_loop ''benchmark setup failed while rebuilding matching book''
            (bench_loop (bench_rebuild engine_memory) indices (new_engine default_limits)) (\<lambda>e.
          after_loop ''benchmark match produced an unexpected fill''
            (bench_loop (bench_match match_ns) indices ((e, [no_fill]), new_histogram)) (\<lambda>(_, matches).
            case bench_report prec order_count adds cancels matches of
              None \<Rightarrow> Bench_Undefined
            | Some report \<Rightarrow> Bench_Report report)))))"

end
