(* ===== verification/Bench_Properties.thy ===== *)
theory Bench_Properties
  imports Latency_Bench Latency_Total
begin

section \<open>What the benchmark promises\<close>

text \<open>
  The benchmark puts the book, the engine and the histogram together. Every check it makes of their
  results holds, so that it always gets to its report.
\<close>

subsection \<open>Loops\<close>

lemma bench_loop_invariant:
  assumes "\<And>i s. a \<le> i \<Longrightarrow> i < n \<Longrightarrow> I i s \<Longrightarrow> \<exists>s' k. step i s = Done True s' k \<and> I (Suc i) s'" "a \<le> n" "I a s"
  shows "\<exists>s' k. bench_loop step [a..<n] s = Done True s' k \<and> I n s'"
  using assms(2,1,3)
proof (induction a arbitrary: s rule: inc_induct)
  case (step a)
  obtain s1 k1 where "step a s = Done True s1 k1" "I (Suc a) s1" using step.prems step.hyps by blast
  moreover obtain s' k where "bench_loop step [Suc a..<n] s1 = Done True s' k" "I n s'"
    using step.IH [of s1] step.prems(1) calculation(2) by (meson Suc_leD)
  ultimately show ?case using step.hyps by (simp add: upt_rec [of a n])
qed simp

text \<open>A histogram that has recorded the first \<open>i\<close> durations.\<close>

definition recorded :: "nat \<Rightarrow> histogram \<Rightarrow> bool" where
  "recorded i h \<longleftrightarrow> histogram_ok h \<and> total_count h = of_nat i"

lemma recorded_new: "recorded 0 new_histogram"
  by (simp add: recorded_def) (simp add: new_histogram_def reset_def)

lemma timed_ok:
  "recorded i h \<Longrightarrow> \<exists>h'. timed ns h (Done True s k) = Done True (s, h') k \<and> recorded (Suc i) h'"
  using record_value_ok [of h ns] by (auto simp: timed_def recorded_def add.commute)

lemma recorded_summary:
  "recorded n h \<Longrightarrow> 53 \<le> prec \<Longrightarrow> \<exists>s. summary prec h = Some s \<and> sum_count s = of_nat n"
  using summary_defined [of h prec]
  by (auto simp: recorded_def summary_def histogram_count_def split: bind_splits)

subsection \<open>The books of the benchmark\<close>

text \<open>The orders with the ids \<open>S\<close> rest on side \<open>s\<close>, all with a quantity of 100.\<close>

definition hundreds :: "side \<Rightarrow> order_id set \<Rightarrow> market \<Rightarrow> bool" where
  "hundreds s S m \<longleftrightarrow> dom (resting m) = S \<and>
     (\<forall>x od. resting m x = Some od \<longrightarrow> ro_side od = s \<and> ro_quantity od = 100)"

lemma hundreds_add:
  "hundreds s S m \<Longrightarrow> x \<notin> S \<Longrightarrow> fst (market_add x s p 100 m) \<and> hundreds s (insert x S) (snd (market_add x s p 100 m))"
  by (auto simp: hundreds_def market_add_def rest_order_def dom_def)

lemma hundreds_remove:
  "hundreds s S m \<Longrightarrow> x \<in> S \<Longrightarrow> market_cancel x 100 m = (True, remove_order x m) \<and> hundreds s (S - {x}) (remove_order x m)"
  by (auto simp: hundreds_def market_cancel_def remove_order_def split: option.splits)

definition bench_ids :: "nat \<Rightarrow> nat \<Rightarrow> order_id set" where
  "bench_ids a b = bench_id ` {a..<b}"

lemma bench_id_eq:
  assumes "bench_id i = bench_id j" "i < 2 ^ 32" "j < 2 ^ 32"
  shows "i = j"
proof -
  have "(of_nat i :: u64) = of_nat j" using assms(1) by (simp add: bench_id_def)
  then have "unat (of_nat i :: u64) = unat (of_nat j :: u64)" by (rule arg_cong)
  with assms(2,3) show ?thesis by (simp add: unsigned_of_nat take_bit_nat_eq_self)
qed

lemma bench_id_mem:
  assumes "b \<le> 2 ^ 32" "i < 2 ^ 32"
  shows "bench_id i \<in> bench_ids a b \<longleftrightarrow> a \<le> i \<and> i < b"
proof
  assume "bench_id i \<in> bench_ids a b"
  then obtain j where j: "bench_id i = bench_id j" "a \<le> j" "j < b" by (auto simp: bench_ids_def)
  moreover have "i = j" using bench_id_eq [OF j(1) assms(2)] j(3) assms(1) by simp
  ultimately show "a \<le> i \<and> i < b" by simp
qed (simp add: bench_ids_def)

lemma bench_ids_step:
  assumes "i < n" "n \<le> 2 ^ 32"
  shows "bench_ids 0 (Suc i) = insert (bench_id i) (bench_ids 0 i)" "bench_id i \<notin> bench_ids 0 i"
    "bench_ids (Suc i) n = bench_ids i n - {bench_id i}" "bench_id i \<in> bench_ids i n"
proof -
  show "bench_ids 0 (Suc i) = insert (bench_id i) (bench_ids 0 i)"
    by (simp add: bench_ids_def atLeast0_lessThan_Suc)
  show "bench_id i \<notin> bench_ids 0 i" "bench_id i \<in> bench_ids i n" using assms by (simp_all add: bench_id_mem)
  have "bench_ids i n = insert (bench_id i) (bench_ids (Suc i) n)"
  proof -
    have "{i..<n} = insert i {Suc i..<n}" using assms(1) by auto
    then show ?thesis by (simp add: bench_ids_def)
  qed
  moreover have "bench_id i \<notin> bench_ids (Suc i) n" using assms by (simp add: bench_id_mem)
  ultimately show "bench_ids (Suc i) n = bench_ids i n - {bench_id i}" by simp
qed

lemma bench_ids_empty [simp]: "bench_ids n n = {}"
  by (simp add: bench_ids_def)

subsection \<open>The four loops\<close>

definition bench_book :: "order_id set \<Rightarrow> nat \<Rightarrow> order_book \<times> histogram \<Rightarrow> bool" where
  "bench_book S i s \<longleftrightarrow> (\<exists>m. book_holds (fst s) m \<and> hundreds Buy S m) \<and> recorded i (snd s)"

lemma bench_adds:
  assumes "n \<le> 2 ^ 32" "\<forall>i<n. 9 \<le> memory i"
  shows "\<exists>s k. bench_loop (bench_add memory ns) [0..<n] (new_book, new_histogram) = Done True s k \<and>
    bench_book (bench_ids 0 n) n s"
proof (rule bench_loop_invariant [where I = "\<lambda>i. bench_book (bench_ids 0 i) i"])
  show "bench_book (bench_ids 0 0) 0 (new_book, new_histogram)"
    using new_book_holds recorded_new by (auto simp: bench_book_def hundreds_def empty_market_def)
next
  fix i s assume i: "i < n" and inv: "bench_book (bench_ids 0 i) i s"
  then obtain m where m: "book_holds (fst s) m" "hundreds Buy (bench_ids 0 i) m" "recorded i (snd s)"
    by (auto simp: bench_book_def)
  note step = hundreds_add [OF m(2) bench_ids_step(2) [OF i assms(1)], of "bench_price i"]
  obtain b k where b: "book_add (fst s) (bench_id i) Buy (bench_price i) 100 (memory i) = Done True b k"
    "book_holds b (snd (market_add (bench_id i) Buy (bench_price i) 100 m))"
    using book_add_correct [OF m(1), of "bench_id i" Buy "bench_price i" 100 "memory i"] step assms(2) i
    by (cases "book_add (fst s) (bench_id i) Buy (bench_price i) 100 (memory i)") (auto simp: implements_def)
  obtain h where "timed (ns i) (snd s) (Done True b k) = Done True (b, h) k" "recorded (Suc i) h"
    using timed_ok [OF m(3), of "ns i" b k] by blast
  then show "\<exists>s' k. bench_add memory ns i s = Done True s' k \<and> bench_book (bench_ids 0 (Suc i)) (Suc i) s'"
    using b step bench_ids_step(1) [OF i assms(1)] by (auto simp: bench_add_def bench_book_def)
qed simp

lemma bench_cancels:
  assumes "n \<le> 2 ^ 32" "bench_book (bench_ids 0 n) n (b, h)"
  shows "\<exists>s k. bench_loop (bench_cancel ns) [0..<n] (b, new_histogram) = Done True s k \<and> bench_book {} n s"
proof -
  have "\<exists>s k. bench_loop (bench_cancel ns) [0..<n] (b, new_histogram) = Done True s k \<and> bench_book (bench_ids n n) n s"
  proof (rule bench_loop_invariant [where I = "\<lambda>i. bench_book (bench_ids i n) i"])
    show "bench_book (bench_ids 0 n) 0 (b, new_histogram)" using assms(2) recorded_new by (simp add: bench_book_def)
  next
    fix i s assume i: "i < n" and inv: "bench_book (bench_ids i n) i s"
    then obtain m where m: "book_holds (fst s) m" "hundreds Buy (bench_ids i n) m" "recorded i (snd s)"
      by (auto simp: bench_book_def)
    note step = hundreds_remove [OF m(2) bench_ids_step(4) [OF i assms(1)]]
    obtain b where b: "book_cancel (fst s) (bench_id i) 100 = Some (True, b)" "book_holds b (remove_order (bench_id i) m)"
      using book_cancel_correct [OF m(1), of "bench_id i" 100] step by auto
    obtain h where "timed (ns i) (snd s) (Done True b 0) = Done True (b, h) 0" "recorded (Suc i) h"
      using timed_ok [OF m(3), of "ns i" b 0] by blast
    then show "\<exists>s' k. bench_cancel ns i s = Done True s' k \<and> bench_book (bench_ids (Suc i) n) (Suc i) s'"
      using b step bench_ids_step(3) [OF i assms(1)] by (auto simp: bench_cancel_def bench_book_def of_option_def)
  qed simp
  then show ?thesis by simp
qed

definition bench_engine :: "order_id set \<Rightarrow> nat \<Rightarrow> engine \<Rightarrow> bool" where
  "bench_engine S i e \<longleftrightarrow> (\<exists>M. engine_holds e M {} \<and> limits e = default_limits \<and> total_size M \<le> i \<and>
     hundreds Sell S (book_at M bench_locate))"

lemma bench_rebuilds:
  assumes "n \<le> 2 ^ 32" "\<forall>i<n. 13 \<le> memory i"
  shows "\<exists>e k. bench_loop (bench_rebuild memory) [0..<n] (new_engine default_limits) = Done True e k \<and>
    bench_engine (bench_ids 0 n) n e"
proof (rule bench_loop_invariant [where I = "\<lambda>i. bench_engine (bench_ids 0 i) i"])
  have "hundreds Sell {} (book_at (\<lambda>_. None) bench_locate)"
    by (simp add: hundreds_def book_at_def empty_market_def)
  then show "bench_engine (bench_ids 0 0) 0 (new_engine default_limits)"
    unfolding bench_engine_def using new_engine_holds [of default_limits]
    by (intro exI [of _ "\<lambda>_. None"]) (simp add: new_engine_def total_size_def size_at_def)
next
  fix i e assume i: "i < n" and inv: "bench_engine (bench_ids 0 i) i e"
  then obtain M where M: "engine_holds e M {}" "limits e = default_limits" "total_size M \<le> i"
    "hundreds Sell (bench_ids 0 i) (book_at M bench_locate)" by (auto simp: bench_engine_def)
  let ?ev = "bench_order i" and ?add = "market_add (bench_id i) Sell (bench_price i) 100"
  have ev: "event_locate ?ev = bench_locate" "feed_op ?ev = Some (Added, Op_Add (bench_id i) Sell (bench_price i) 100)"
    by (simp_all add: bench_order_def)
  have may: "may_create default_limits {} M (event_locate ?ev)"
    using M(3) i assms(1) by (intro may_create_default) simp
  note step = hundreds_add [OF M(4) bench_ids_step(2) [OF i assms(1)], of "bench_price i"]
  have spec: "spec_apply default_limits {} M ?ev = (Added, M(bench_locate \<mapsto> snd (?add (book_at M bench_locate))))"
    using may step by (simp add: spec_apply_def spec_create_def ev market_step_eqs Let_def)
  have size: "total_size (snd (spec_apply default_limits {} M ?ev)) \<le> Suc i"
    using spec_apply_size [OF may] M(3) by simp
  obtain r e' k' where e': "engine_apply e ?ev (memory i) = Done r e' k'" "ar_changed_book r"
    "engine_holds e' (snd (spec_apply default_limits {} M ?ev)) {}" "limits e' = default_limits"
    using engine_apply_sat [OF M(1), of ?ev "memory i"] M(2) assms(2) i
    by (cases "engine_apply e ?ev (memory i)") (auto simp: spec result_of_def)
  moreover have "hundreds Sell (bench_ids 0 (Suc i)) (book_at (snd (spec_apply default_limits {} M ?ev)) bench_locate)"
    using step bench_ids_step(1) [OF i assms(1)] by (simp add: spec book_at_def)
  ultimately show "\<exists>s' k. bench_rebuild memory i e = Done True s' k \<and> bench_engine (bench_ids 0 (Suc i)) (Suc i) s'"
    using size by (auto simp: bench_rebuild_def bench_engine_def)
qed simp

definition bench_matching :: "nat \<Rightarrow> nat \<Rightarrow> (engine \<times> fill list) \<times> histogram \<Rightarrow> bool" where
  "bench_matching left i s \<longleftrightarrow> recorded i (snd s) \<and> length (snd (fst s)) = 1 \<and>
     (\<exists>M m S. engine_holds (fst (fst s)) M {} \<and> M bench_locate = Some m \<and> hundreds Sell S m \<and>
        finite S \<and> card S = left)"

lemma market_matches_one:
  assumes "engine_holds e M {}" "M bench_locate = Some m" "hundreds Sell S m" "finite S" "card S = Suc left"
    "length out = 1"
  shows "\<exists>r e' out' x. submit_market e bench_locate Buy 100 out = Some (r, e', out') \<and> expected_fill r \<and>
    length out' = 1 \<and> engine_holds e' (M(bench_locate \<mapsto> remove_order x m)) {} \<and> x \<in> S \<and>
    hundreds Sell (S - {x}) (remove_order x m)"
proof -
  obtain b where "book_holds b m" using find_book_Some [OF engine_holdsD(1) [OF assms(1)] assms(2)] .
  then have inv: "market_inv m" using book_stateD(1) by blast
  obtain y od where "y \<in> S" "resting m y = Some od" "ro_side od = Sell"
    using assms(3,5) by (metis card.empty domD equals0I hundreds_def nat.distinct(1))
  then have "y \<in> set (queue m Sell (ro_price od))" using market_inv_D(2) [OF inv] by blast
  then have "priority Sell m \<noteq> []" using priority_Nil_iff [of Sell m] by (auto simp: active_prices_def)
  then obtain x p r L where L: "priority Sell m = (x, p, r) # L" by (metis list.exhaust prod_cases3)
  have x: "x \<in> S" "r = 100"
    using priority_Cons(4) [OF inv L] assms(3) unfolding hundreds_def by (blast, fastforce)
  note gone = hundreds_remove [OF assms(3) x(1)]
  define v where "v = \<lparr>view_id = x, view_side = Sell, view_price = p, view_quantity = 100\<rparr>"
  have steps: "engine_steps M bench_locate Buy 0 False 100 = [(v, 100)]"
    using assms(2) by (simp add: engine_steps_def match_steps_def book_at_def eligible_def L x(2) v_def)
  have fill: "fill_book [(v, 100)] bench_locate M = M(bench_locate \<mapsto> remove_order x m)"
    using assms(2) gone by (simp add: fill_book_def market_fill_def v_def)
  obtain e' where "submit_market e bench_locate Buy 100 out =
      Some ((matched_result [(v, 100)] 100 1)\<lparr>mr_unfilled := mr_resting (matched_result [(v, 100)] 100 1),
        mr_resting := 0\<rparr>, e', matched_output [(v, 100)] out)"
    "engine_holds e' (M(bench_locate \<mapsto> remove_order x m)) {}"
    using submit_market_sat [OF assms(1) _ steps [symmetric], of out] assms(6) by (auto simp: fill)
  then show ?thesis using x(1) conjunct2 [OF gone] assms(6)
    by - (intro exI conjI, assumption,
      simp_all add: expected_fill_def matched_result_def matched_output_def)
qed

lemma bench_matches:
  assumes "0 < n" "n \<le> 2 ^ 32" "bench_engine (bench_ids 0 n) n e"
  shows "\<exists>s k. bench_loop (bench_match ns) [0..<n] ((e, [no_fill]), new_histogram) = Done True s k \<and> recorded n (snd s)"
proof -
  obtain M where M: "engine_holds e M {}" "hundreds Sell (bench_ids 0 n) (book_at M bench_locate)"
    using assms(3) by (auto simp: bench_engine_def)
  have "inj_on bench_id {0..<n}" using bench_id_eq assms(2) by (auto intro!: inj_onI)
  then have card: "card (bench_ids 0 n) = n" "finite (bench_ids 0 n)" by (simp_all add: bench_ids_def card_image)
  have "M bench_locate \<noteq> None"
  proof
    assume "M bench_locate = None"
    with M(2) have "bench_ids 0 n = {}" by (simp add: book_at_def hundreds_def empty_market_def)
    with card(1) assms(1) show False by simp
  qed
  then obtain m where m: "M bench_locate = Some m" "hundreds Sell (bench_ids 0 n) m"
    using M(2) by (auto simp: book_at_def)
  have "\<exists>s k. bench_loop (bench_match ns) [0..<n] ((e, [no_fill]), new_histogram) = Done True s k \<and>
      bench_matching (n - n) n s"
  proof (rule bench_loop_invariant [where I = "\<lambda>i. bench_matching (n - i) i"])
    show "bench_matching (n - 0) 0 ((e, [no_fill]), new_histogram)"
      using M(1) m card recorded_new by (auto simp: bench_matching_def)
  next
    fix i s assume i: "i < n" and "bench_matching (n - i) i s"
    then obtain M m S where s: "recorded i (snd s)" "length (snd (fst s)) = 1" "engine_holds (fst (fst s)) M {}"
      "M bench_locate = Some m" "hundreds Sell S m" "finite S" "card S = Suc (n - Suc i)"
      by (auto simp: bench_matching_def Suc_diff_Suc)
    obtain r e' out' x where step: "submit_market (fst (fst s)) bench_locate Buy 100 (snd (fst s)) = Some (r, e', out')"
      "expected_fill r" "length out' = 1" "engine_holds e' (M(bench_locate \<mapsto> remove_order x m)) {}" "x \<in> S"
      "hundreds Sell (S - {x}) (remove_order x m)"
      using market_matches_one [OF s(3-7,2)] by blast
    obtain h where h: "timed (ns i) (snd s) (Done True (e', out') 0) = Done True ((e', out'), h) 0" "recorded (Suc i) h"
      using timed_ok [OF s(1), of "ns i" "(e', out')" 0] by blast
    have "card (S - {x}) = n - Suc i" using s(6,7) step(5) by simp
    then have "bench_matching (n - Suc i) (Suc i) ((e', out'), h)"
      unfolding bench_matching_def using h(2) step(3,4,6) s(6)
      by (intro conjI exI [of _ "M(bench_locate \<mapsto> remove_order x m)"] exI [of _ "remove_order x m"]
          exI [of _ "S - {x}"]) simp_all
    then show "\<exists>s' k. bench_match ns i s = Done True s' k \<and> bench_matching (n - Suc i) (Suc i) s'"
      using step(1,2) h(1) by (simp add: bench_match_def)
  qed simp
  then show ?thesis by (auto simp: bench_matching_def)
qed

subsection \<open>The whole program\<close>

lemma order_count_decimal:
  assumes "0 < n" "n < 2 ^ 32"
  shows "parse_order_count (decimal n) = of_nat n" "unat (of_nat n :: size_t) = n"
proof -
  show u: "unat (of_nat n :: size_t) = n" using assms(2) by (simp add: unsigned_of_nat take_bit_nat_eq_self)
  have "unat (ucast (- 1 :: u32) :: size_t) = 2 ^ 32 - 1"
    by (simp add: unsigned_ucast_eq unsigned_minus_1_eq_mask mask_eq_exp_minus_1)
  then have "\<not> (of_nat n :: size_t) > ucast (- 1 :: u32)" using u assms(2) by (simp add: word_less_nat_alt)
  moreover have "(of_nat n :: size_t) \<noteq> 0" using u assms(1) by auto
  moreover have "stoull (decimal n) = Inr (of_nat n)"
    using decimal_digits [of n] stoull_digits(1) [of "decimal n" "[]"] assms(2) by simp
  ultimately show "parse_order_count (decimal n) = of_nat n" by (simp add: parse_order_count_def)
qed

text \<open>
  C13: given a number of orders within its range, and calls that find the memory they need, the
  benchmark gets to its report: every add, cancel, rebuild and match passes its check, each match
  fills one resting order whole, and each of the three summaries printed counts one duration for each
  order.
\<close>

theorem benchmark_reports:
  assumes "0 < n" "n < 2 ^ 32" "\<forall>i<n. 9 \<le> book_memory i" "\<forall>i<n. 13 \<le> engine_memory i" "53 \<le> prec"
  shows "\<exists>a c m. bench_main prec book_memory engine_memory add_ns cancel_ns match_ns [program, decimal n] =
      Bench_Report (''orders='' @ decimal n @ new_line @
        summary_line ''add'' a @ summary_line ''cancel'' c @ summary_line ''match'' m) \<and>
    sum_count a = of_nat n \<and> sum_count c = of_nat n \<and> sum_count m = of_nat n"
proof -
  note count = order_count_decimal [OF assms(1,2)]
  have le: "n \<le> 2 ^ 32" and ne: "(of_nat n :: size_t) \<noteq> 0" using assms(2) count(2) assms(1) by auto
  obtain b h k where adds: "bench_loop (bench_add book_memory add_ns) [0..<n] (new_book, new_histogram) = Done True (b, h) k"
    "bench_book (bench_ids 0 n) n (b, h)" using bench_adds [OF le assms(3), of add_ns] by auto
  obtain b' h' k' where cancels: "bench_loop (bench_cancel cancel_ns) [0..<n] (b, new_histogram) = Done True (b', h') k'"
    "bench_book {} n (b', h')" using bench_cancels [OF le adds(2), of cancel_ns] by auto
  obtain e j where rebuilds: "bench_loop (bench_rebuild engine_memory) [0..<n] (new_engine default_limits) = Done True e j"
    "bench_engine (bench_ids 0 n) n e" using bench_rebuilds [OF le assms(4)] by auto
  obtain s h'' j' where matches: "bench_loop (bench_match match_ns) [0..<n] ((e, [no_fill]), new_histogram) = Done True (s, h'') j'"
    "recorded n h''" using bench_matches [OF assms(1) le rebuilds(2), of match_ns] by auto
  have r: "recorded n h" "recorded n h'" using adds(2) cancels(2) by (simp_all add: bench_book_def)
  obtain a c m where sums: "summary prec h = Some a" "summary prec h' = Some c" "summary prec h'' = Some m"
    "sum_count a = of_nat n" "sum_count c = of_nat n" "sum_count m = of_nat n"
    using recorded_summary [OF _ assms(5)] r matches(2) by metis
  have "bench_main prec book_memory engine_memory add_ns cancel_ns match_ns [program, decimal n] =
      Bench_Report (''orders='' @ decimal n @ new_line @
        summary_line ''add'' a @ summary_line ''cancel'' c @ summary_line ''match'' m)"
    using adds(1) cancels(1) rebuilds(1) matches(1) count ne sums(1-3)
    by (simp add: bench_main_def after_loop_def Let_def bench_report_def bench_print_def shown_def)
  with sums(4-6) show ?thesis by blast
qed

lemma benchmark_reports_witness:
  "\<exists>a c m. bench_main 64 (\<lambda>_. 9) (\<lambda>_. 13) (\<lambda>i. of_nat i) (\<lambda>_. 40) (\<lambda>_. 90) [''lob_latency_bench'', decimal 1000] =
     Bench_Report (''orders='' @ decimal 1000 @ new_line @
       summary_line ''add'' a @ summary_line ''cancel'' c @ summary_line ''match'' m) \<and> sum_count m = 1000"
proof -
  obtain a c m where "bench_main 64 (\<lambda>_. 9) (\<lambda>_. 13) (\<lambda>i. of_nat i) (\<lambda>_. 40) (\<lambda>_. 90)
      [''lob_latency_bench'', decimal 1000] = Bench_Report (''orders='' @ decimal 1000 @ new_line @
       summary_line ''add'' a @ summary_line ''cancel'' c @ summary_line ''match'' m)" "sum_count m = of_nat 1000"
    using benchmark_reports [of 1000 "\<lambda>_. 9" "\<lambda>_. 13" 64 "\<lambda>i. of_nat i" "\<lambda>_. 40" "\<lambda>_. 90" "''lob_latency_bench''"]
    by auto
  then show ?thesis by auto
qed

end
