(* ===== verification/Spec2Isabelle.thy ===== *)
theory Spec2Isabelle
  imports Book_Properties Itch_Properties Engine_Properties Ring_Properties Latency_Properties Replay_Accounting
    Replay_Termination Bench_Properties
begin

text \<open>
  A verification library for the NASDAQ ITCH order book engine: a replay program that reads a file of
  ITCH 5.0 frames, decodes them on one thread, hands the events over through a lock-free ring, and
  rebuilds a limit order book for every instrument on another thread, with a matching engine for
  simulated orders and a latency histogram.

  \<^bold>\<open>Parts and theories.\<close> The data flow is file, frame reader, decoder, ring, engine, books; each part
  has a model translated from its source, a specification, and a theory of properties.

  \<^item> Shared types. \<open>Prelude\<close>: the integer types at their width, \<^verbatim>\<open>Side\<close>, and
    \<open>outcome\<close>, the three ways a C++ call ends: it returns (\<open>Done\<close>), throws
    \<^verbatim>\<open>bad_alloc\<close> (\<open>Thrown\<close>, with the state it leaves) or is undefined
    (\<open>Undefined\<close>). Calls without allocation return an option, \<open>None\<close> for undefined behaviour.
  \<^item> \<^verbatim>\<open>src/book/order_book.cpp\<close>. \<open>Byte_Mask\<close> is the 256-bit mask and its bit counting
    searches, \<open>Price_Index\<close> the four-tier tree of masks (\<open>index_add\<close>, \<open>index_remove\<close>,
    \<open>index_find\<close>), \<open>Level_Queue\<close> the intrusive doubly linked queue of a price level with its
    pointer updates, \<open>Order_Book\<close> the public operations (\<open>book_add\<close>, \<open>book_cancel\<close>,
    \<open>book_modify\<close>, \<open>book_replace\<close> and the others, with the order of their statements and
    their exception paths). Pointers are ids and keys into the finite maps that stand for the
    \<^verbatim>\<open>unordered_map\<close>s, whose nodes do not move. \<open>Book_View\<close> is the abstract book, queues of
    ids by side and price, and the invariant that ties it to the maps and pointers;
    \<open>Book_Steps\<close> and \<open>Book_Refinement\<close> prove that every operation refines its abstract
    counterpart; \<open>Reference_Book\<close> models the reference of
    \<^verbatim>\<open>tests/order_book_model_test.cpp\<close>; \<open>Book_Runs\<close> runs both;
    \<open>Book_Properties\<close> states the results.
  \<^item> \<^verbatim>\<open>src/itch/itch.cpp\<close>, \<^verbatim>\<open>include/lob/itch.hpp\<close>. \<open>Itch_Messages\<close> has a record for
    each message struct, \<open>Itch_Decoder\<close> the decoder with one definition for each case of its switch
    (every byte read outside of its input is undefined), \<open>Itch_Codec\<close> an encoder and the facts
    about frames, \<open>Itch_Properties\<close> the results.
  \<^item> \<^verbatim>\<open>src/engine/matching_engine.cpp\<close>. \<open>Matching_Engine\<close> is the map of books, the
    handlers of \<^verbatim>\<open>apply\<close>, the limits and counters, and the matching loop of
    \<^verbatim>\<open>submit_limit\<close> and \<^verbatim>\<open>submit_market\<close>. \<open>Book_Interface\<close> states what the engine
    needs of a book as two locales, interpreted on \<open>Order_Book\<close>; \<open>Engine_Refinement\<close>,
    \<open>Engine_Matching\<close>, \<open>Engine_Runs\<close> and \<open>Engine_Feed\<close> relate the engine to one abstract
    book for each locate; \<open>Engine_Fills\<close> says what a match leaves in the orders, queues, counters and
    other books (\<open>engine_after\<close>); \<open>Engine_Properties\<close> states the results.
  \<^item> \<^verbatim>\<open>include/lob/spsc_ring.hpp\<close>. \<open>Spsc_Ring\<close> is a step relation of three threads
    (producer, consumer, a caller of \<^verbatim>\<open>size\<close>), a step for each access to shared memory, with the
    release and acquire orders of the code: a load may return any store not older than what its thread
    has seen, and a slot touched without having acquired the other thread's last store to it is a data
    race. \<open>Channel\<close> is the contract as two locales, \<open>Ring_Invariant\<close> the inductive invariant and
    their interpretation, \<open>Ring_Calls\<close> follows one call with a fresh load to its answer,
    \<open>Ring_Properties\<close> states the results.
  \<^item> \<^verbatim>\<open>src/metrics/latency.cpp\<close>. \<open>Latency\<close> is the histogram, its bins and the
    \<^verbatim>\<open>long double\<close> computation of a rank; \<open>Latency_Bins\<close>, \<open>Latency_Histogram\<close> and
    \<open>Latency_Rounding\<close> its arithmetic, \<open>Latency_Total\<close> that recording and summaries are
    always defined, \<open>Latency_Properties\<close> the results.
  \<^item> \<^verbatim>\<open>src/app/itch_replay.cpp\<close>. \<open>Replay_Config\<close> is the parser of the command line, \<open>Replay_Options\<close> the
    language it accepts and what its settings mean, \<open>Frame_Reader\<close>
    the reader with its error texts and a locale for its sources, \<open>Console\<close> what is printed of
    numbers and histograms, \<open>Replay\<close> both threads of \<^verbatim>\<open>main\<close> as two relations of turns
    (\<open>producer_turn\<close>, \<open>consumer_turn\<close>) over the ring, the engine and the histograms, with what
    comes before them (\<open>start_replay\<close>) and the text and status after them (\<open>conclude\<close>);
    \<open>Replay_Invariant\<close> the invariant, \<open>Call_Progress\<close> and \<open>Replay_Progress\<close> the measures
    each turn decreases, \<open>Replay_Report\<close> the report; \<open>Replay_Properties\<close> states the results,
    \<open>Replay_Accounting\<close> what is counted on the way, and \<open>Replay_Termination\<close> that every fair
    execution ends.
  \<^item> \<^verbatim>\<open>bench/latency_bench.cpp\<close>. \<open>Latency_Bench\<close> is the benchmark, which uses the book, the
    engine and the histogram together; \<open>Bench_Properties\<close> that it gets to its report.

  \<^bold>\<open>What the properties show.\<close> The book: over any sequence of operations and allocation failures it has
  no undefined behaviour and shows the same results, orders, queues, best prices and depths as the
  reference book; which operations keep priority; a failed allocation changes nothing. The price
  index and the masks find the extreme prices. The decoder: defined on every input, inverse to the
  encoder both ways on the modelled types, prefix-stable, and complete in its errors. The engine: a limit or market order
  fills exactly the crossing orders in price-time priority and leaves each with what remains of it and
  everything else as it was, a resting order does not cross, the feed
  rebuilds every instrument's book on its own, the counters add up, limits hold, exceptions keep all
  orders and depths. The ring: a bounded first-in first-out queue under weak memory, free of races and lifetime
  errors, wait-free, never full or empty to a call with fresh loads when it is not, and emptied by its
  destructor. The histogram: bins precise to one part in 1024,
  exact extremes, nearest-rank percentiles. The replay: accepted command lines, events applied in the
  order of the input and each once, the books at the end those of the reference, the output, error line
  and exit status that tell of them, events under way bounded by the ring, samples and checkpoints that
  add up, an end that is reachable from every state, and reached by every
  execution in which both threads keep being scheduled and stores become visible in finite time. The
  benchmark: every check it makes holds.

  \<^bold>\<open>Budgets.\<close> An operation is given the number of requests for memory it will be granted: nine suffice
  for any book operation (level, node and bucket array of the map of levels; order, node and bucket array
  of the map of orders; three nodes of the price index), and thirteen for any engine call (node and bucket
  array of the map of books, the book and its implementation object before those). Each insertion into a
  hash map may need its bucket array, as the first ones do; one that does not rehash leaves its grant
  unused, so that the numbers are bounds. The properties are also stated for less. The matching
  loop is a partial function into options: \<open>None\<close> is undefined behaviour and also what a loop that
  does not end would be, so that a result proves both absent. The queues are compared by walking
  the pointers with the number of orders as fuel. Counters are kept at their width; where a property needs that a
  counter has not wrapped, it bounds the length of the run.

  \<^bold>\<open>Findings.\<close> A replace by the order's own id keeps its priority although the documentation says it
  never does (\<open>replace_priority\<close>). A failed allocation of a book leaves a null entry that the next
  add dereferences (\<open>failed_allocation_leaves_null_book\<close>). The 99.9th percentile of 1000 values
  depends on the precision of \<^verbatim>\<open>long double\<close> (\<open>p999_depends_on_long_double\<close>). Options accept
  a minus sign and trailing characters (\<open>option_numbers\<close>). After a decode error the program prints
  its reason alone, without the byte offset and metrics the runbook asks for
  (\<open>replay_rebuilds_books\<close>).

  \<^bold>\<open>Not modelled.\<close> The throughput figure and clocks, whose readings are any values; the
  zlib library and opening of files, which are parameters of
  the reader and of \<open>start_replay\<close>; the iteration order of the hash maps, and which of their
  insertions rehash (each is given the memory for it); how much memory the
  strings and buffers of the threads need, which may fail at any read; writes to the output that
  fail; alignment and cache lines; the
  order of events between different locations beyond release and acquire; and
  the tests apart from their reference book.
\<close>

end
